(* ===== verification/Prelude.thy ===== *)
theory Prelude
  imports Main "HOL-Library.Word" "HOL-Library.Sublist"
begin

text \<open>
  The shared base of the development: the collections of simplification rules the component
  theories extend (\<open>enum_defs\<close> for the string constants of the Go enumerations,
  \<open>go_simps\<close> for the text functions), the names of the model's basic types, the sum type
  used for Go's \<open>(value, error)\<close> results, and generic facts on lists that several components
  share. The last section is the contract every state machine of the development is proved
  against: a step function or relation with an invariant.
\<close>

named_theorems enum_defs
named_theorems go_simps

section \<open>Basic types\<close>

text \<open>
  A Go \<open>string\<close> or \<open>[]byte\<close> is a sequence of bytes, so it is a list of 8-bit characters.
  An \<open>int64\<close> that the code adds up is a 64-bit word; an integer the code only compares is an
  \<open>int\<close>. A ULID is 16 bytes compared lexicographically, which is the order of the 128-bit
  number it spells, so it is a \<open>nat\<close>; zero is \<open>ulid.ULID.IsZero\<close>.
\<close>

type_synonym bytes = "char list"
type_synonym int64 = "64 word"
type_synonym ulid = nat

section \<open>Results\<close>

text \<open>A fallible call returns \<open>Inl\<close> its error or \<open>Inr\<close> its value.\<close>

type_synonym ('e, 'a) result = "'e + 'a"

fun is_ok :: "'e + 'a \<Rightarrow> bool" where
  "is_ok (Inl _) = False"
| "is_ok (Inr _) = True"

lemma is_ok_iff: "is_ok r \<longleftrightarrow> (\<exists>v. r = Inr v)"
  by (cases r) auto

section \<open>Lists\<close>

text \<open>The first and the last element a partial function accepts, as Go's scanning loops find them.\<close>

fun first_some :: "('a \<Rightarrow> 'b option) \<Rightarrow> 'a list \<Rightarrow> 'b option" where
  "first_some f [] = None"
| "first_some f (x # xs) = (case f x of Some y \<Rightarrow> Some y | None \<Rightarrow> first_some f xs)"

text \<open>The value a loop \<open>for x := range xs { if v, ok := f(x); ok { acc = v } }\<close> ends with.\<close>

fun last_some :: "('a \<Rightarrow> 'b option) \<Rightarrow> 'b \<Rightarrow> 'a list \<Rightarrow> 'b" where
  "last_some f acc [] = acc"
| "last_some f acc (x # xs) = last_some f (case f x of Some y \<Rightarrow> y | None \<Rightarrow> acc) xs"

lemma first_some_append:
  "first_some f (xs @ ys) =
     (case first_some f xs of Some y \<Rightarrow> Some y | None \<Rightarrow> first_some f ys)"
  by (induction xs) (auto split: option.splits)

lemma first_some_None: "first_some f xs = None \<longleftrightarrow> (\<forall>x\<in>set xs. f x = None)"
  by (induction xs) (auto split: option.splits)

lemma first_some_SomeD: "first_some f xs = Some y \<Longrightarrow> \<exists>x\<in>set xs. f x = Some y"
  by (induction xs) (auto split: option.splits)

lemma last_some_append [simp]:
  "last_some f acc (xs @ ys) = last_some f (last_some f acc xs) ys"
  by (induction xs arbitrary: acc) auto

lemma last_some_none: "(\<And>x. x \<in> set xs \<Longrightarrow> f x = None) \<Longrightarrow> last_some f acc xs = acc"
  by (induction xs arbitrary: acc) auto

lemma last_some_cases: "last_some f acc xs = acc \<or> (\<exists>x\<in>set xs. f x = Some (last_some f acc xs))"
proof (induction xs arbitrary: acc)
  case Nil
  then show ?case by simp
next
  case (Cons x xs)
  show ?case
  proof (cases "f x")
    case None
    with Cons[of acc] show ?thesis by auto
  next
    case (Some y)
    with Cons[of y] show ?thesis by (metis last_some.simps(2) list.set_intros option.simps(5))
  qed
qed

text \<open>The entries up to and including the first one that satisfies \<open>P\<close>.\<close>

fun upto_first :: "('a \<Rightarrow> bool) \<Rightarrow> 'a list \<Rightarrow> 'a list option" where
  "upto_first P [] = None"
| "upto_first P (x # xs) = (if P x then Some [x] else map_option ((#) x) (upto_first P xs))"

lemma upto_first_Some:
  "upto_first P xs = Some ys \<Longrightarrow>
     \<exists>pre x post. xs = pre @ x # post \<and> P x \<and> (\<forall>y\<in>set pre. \<not> P y) \<and> ys = pre @ [x]"
proof (induction xs arbitrary: ys)
  case Nil
  then show ?case by simp
next
  case (Cons x xs)
  show ?case
  proof (cases "P x")
    case True
    with Cons.prems show ?thesis by (intro exI[of _ "[]"]) auto
  next
    case False
    with Cons.prems obtain zs where zs: "upto_first P xs = Some zs" "ys = x # zs" by auto
    from Cons.IH[OF zs(1)] obtain pre y post
      where "xs = pre @ y # post" "P y" "\<forall>z\<in>set pre. \<not> P z" "zs = pre @ [y]" by blast
    with False zs(2) show ?thesis by (intro exI[of _ "x # pre"]) auto
  qed
qed

lemma upto_first_None: "upto_first P xs = None \<longleftrightarrow> (\<forall>x\<in>set xs. \<not> P x)"
  by (induction xs) auto

lemma upto_first_prefix: "upto_first P xs = Some ys \<Longrightarrow> \<exists>zs. xs = ys @ zs"
  using upto_first_Some by fastforce

lemma upto_first_at:
  "P x \<Longrightarrow> \<forall>y\<in>set pre. \<not> P y \<Longrightarrow> upto_first P (pre @ x # post) = Some (pre @ [x])"
  by (induction pre) auto

text \<open>Strictly increasing lists: every log's ids.\<close>

abbreviation strict_sorted :: "nat list \<Rightarrow> bool" where
  "strict_sorted \<equiv> sorted_wrt (<)"

lemma strict_sorted_snoc [simp]:
  "strict_sorted (xs @ [x]) \<longleftrightarrow> strict_sorted xs \<and> (\<forall>y\<in>set xs. y < x)"
  by (simp add: sorted_wrt_append)

lemma strict_sorted_distinct: "strict_sorted xs \<Longrightarrow> distinct xs"
  by (induction xs) auto

lemma strict_sorted_prefix: "strict_sorted (xs @ ys) \<Longrightarrow> strict_sorted xs"
  by (simp add: sorted_wrt_append)

lemma map_inj_split:
  assumes "distinct (map f xs)" and "xs = pre @ x # post" and "xs = pre' @ y # post'" and "f x = f y"
  shows "pre = pre' \<and> x = y \<and> post = post'"
  using assms
proof (induction xs arbitrary: pre pre')
  case Nil
  then show ?case by simp
next
  case (Cons a xs)
  show ?case
  proof (cases pre)
    case Nil
    with Cons.prems show ?thesis by (cases pre') auto
  next
    case (Cons b pre1)
    show ?thesis
    proof (cases pre')
      case Nil
      with Cons Cons.prems show ?thesis by auto
    next
      case (Cons c pre1')
      with \<open>pre = b # pre1\<close> Cons.prems Cons.IH[of pre1 pre1'] show ?thesis by auto
    qed
  qed
qed

section \<open>State machines\<close>

text \<open>
  The contract of a component with state: operations that map a state to a state, an initial
  state, and an invariant that holds at first and that every operation keeps. Inside the
  contract, every state a sequence of operations reaches satisfies the invariant.
\<close>

fun run_ops :: "('s \<Rightarrow> 'o \<Rightarrow> 's) \<Rightarrow> 's \<Rightarrow> 'o list \<Rightarrow> 's" where
  "run_ops step s [] = s"
| "run_ops step s (x # xs) = run_ops step (step s x) xs"

lemma run_ops_append [simp]: "run_ops step s (xs @ ys) = run_ops step (run_ops step s xs) ys"
  by (induction xs arbitrary: s) auto

locale guarded_machine =
  fixes step :: "'s \<Rightarrow> 'o \<Rightarrow> 's"
    and ok :: "'s \<Rightarrow> 'o \<Rightarrow> bool"
    and inv :: "'s \<Rightarrow> bool"
  assumes step_inv: "inv s \<Longrightarrow> ok s x \<Longrightarrow> inv (step s x)"
begin

fun admitted :: "'s \<Rightarrow> 'o list \<Rightarrow> bool" where
  "admitted s [] = True"
| "admitted s (x # xs) = (ok s x \<and> admitted (step s x) xs)"

lemma admitted_all: "(\<And>s x. ok s x) \<Longrightarrow> admitted s xs"
  by (induction xs arbitrary: s) auto

lemma run_inv: "inv s \<Longrightarrow> admitted s xs \<Longrightarrow> inv (run_ops step s xs)"
  by (induction xs arbitrary: s) (auto intro: step_inv)

end

end
