(* ===== verification/Go_Text.thy ===== *)
theory Go_Text
  imports Prelude
begin

text \<open>
  The functions of Go's \<open>strings\<close>, \<open>bytes\<close>, \<open>unicode/utf8\<close> and \<open>strconv\<close> packages that
  the modelled code calls, on byte strings. White space is Unicode's, found by its UTF-8 bytes:
  none of the lead bytes used below is ever a continuation byte, so looking for the encoding of
  a white space rune byte by byte finds exactly the runes Go's decoding loop finds.
\<close>

abbreviation byte :: "char \<Rightarrow> nat" where
  "byte c \<equiv> of_char c"

section \<open>Prefixes, cuts and joins\<close>

definition has_prefix :: "bytes \<Rightarrow> bytes \<Rightarrow> bool" where
  "has_prefix s p \<longleftrightarrow> take (length p) s = p"

definition has_suffix :: "bytes \<Rightarrow> bytes \<Rightarrow> bool" where
  "has_suffix s p \<longleftrightarrow> drop (length s - length p) s = p"

definition trim_prefix :: "bytes \<Rightarrow> bytes \<Rightarrow> bytes" where
  "trim_prefix s p = (if has_prefix s p then drop (length p) s else s)"

text \<open>\<open>strings.TrimRight(s, c)\<close> for a cut set of one byte.\<close>

definition trim_right :: "char \<Rightarrow> bytes \<Rightarrow> bytes" where
  "trim_right c s = rev (dropWhile (\<lambda>x. x = c) (rev s))"

text \<open>\<open>strings.Cut\<close> at a one-byte separator: the text before, the text after, and whether it was found.\<close>

definition cut_byte :: "char \<Rightarrow> bytes \<Rightarrow> bytes \<times> bytes \<times> bool" where
  "cut_byte c s =
     (if c \<in> set s then (takeWhile (\<lambda>x. x \<noteq> c) s, tl (dropWhile (\<lambda>x. x \<noteq> c) s), True)
      else (s, [], False))"

text \<open>The text after the last \<open>c\<close>, or all of it: \<open>s[strings.LastIndexByte(s, c)+1:]\<close>.\<close>

definition after_last :: "char \<Rightarrow> bytes \<Rightarrow> bytes" where
  "after_last c s = rev (takeWhile (\<lambda>x. x \<noteq> c) (rev s))"

fun join :: "bytes \<Rightarrow> bytes list \<Rightarrow> bytes" where
  "join sep [] = []"
| "join sep [x] = x"
| "join sep (x # y # xs) = x @ sep @ join sep (y # xs)"

text \<open>\<open>strings.Index\<close>: the offset of the first occurrence of \<open>p\<close> in \<open>s\<close>.\<close>

fun index_of :: "bytes \<Rightarrow> bytes \<Rightarrow> nat option" where
  "index_of [] p = (if p = [] then Some 0 else None)"
| "index_of (c # cs) p =
     (if has_prefix (c # cs) p then Some 0 else map_option Suc (index_of cs p))"

lemma has_prefix_append [simp]: "has_prefix (p @ s) p"
  by (simp add: has_prefix_def)

lemma has_prefix_iff: "has_prefix s p \<longleftrightarrow> (\<exists>r. s = p @ r)"
  by (auto simp: has_prefix_def) (metis append_take_drop_id)

lemma has_suffix_iff: "has_suffix s p \<longleftrightarrow> (\<exists>r. s = r @ p)"
proof
  assume "has_suffix s p"
  then show "\<exists>r. s = r @ p"
    unfolding has_suffix_def by (metis append_take_drop_id)
next
  assume "\<exists>r. s = r @ p"
  then show "has_suffix s p" by (auto simp: has_suffix_def)
qed

lemma join_Cons: "join sep (x # xs) = x @ (if xs = [] then [] else sep @ join sep xs)"
  by (cases xs) auto

lemma join_append:
  "xs \<noteq> [] \<Longrightarrow> ys \<noteq> [] \<Longrightarrow> join sep (xs @ ys) = join sep xs @ sep @ join sep ys"
  by (induction xs) (auto simp: join_Cons)

lemma cut_byte_scoped: "c \<notin> set a \<Longrightarrow> cut_byte c (a @ c # b) = (a, b, True)"
  by (induction a) (auto simp: cut_byte_def)

lemma index_of_Some:
  "index_of s p = Some n \<Longrightarrow> n + length p \<le> length s \<and> has_prefix (drop n s) p"
proof (induction s p arbitrary: n rule: index_of.induct)
  case (1 p)
  then show ?case by (auto simp: has_prefix_def split: if_splits)
next
  case (2 c cs p)
  show ?case
  proof (cases "has_prefix (c # cs) p")
    case True
    with 2 show ?thesis
      by (auto simp: has_prefix_iff) (metis le_add1 length_Cons length_append)
  next
    case False
    with "2.prems" obtain m where m: "index_of cs p = Some m" "n = Suc m" by auto
    from "2.IH"[OF False m(1)] m(2) show ?thesis by simp
  qed
qed

lemma index_of_None: "index_of s p = None \<Longrightarrow> \<not> has_prefix (drop n s) p"
proof (induction s p arbitrary: n rule: index_of.induct)
  case (1 p)
  then show ?case by (auto simp: has_prefix_def split: if_splits)
next
  case (2 c cs p)
  then show ?case by (cases n) (auto split: if_splits)
qed

section \<open>White space\<close>

text \<open>
  The number of bytes of the white space rune a string starts with, 0 when it starts with
  another: ASCII white space, U+0085, U+00A0, U+1680, U+2000 to U+200A, U+2028, U+2029, U+202F,
  U+205F and U+3000.
\<close>

fun space_len :: "bytes \<Rightarrow> nat" where
  "space_len [] = 0"
| "space_len (a # r) =
     (let x = byte a; y = (case r of [] \<Rightarrow> 0 | b # _ \<Rightarrow> byte b);
          z = (case r of b # c # _ \<Rightarrow> byte c | _ \<Rightarrow> 0) in
      if x = 32 \<or> (9 \<le> x \<and> x \<le> 13) then 1
      else if x = 194 \<and> (y = 133 \<or> y = 160) then 2
      else if x = 225 \<and> y = 154 \<and> z = 128 then 3
      else if x = 226 \<and> y = 128 \<and> ((128 \<le> z \<and> z \<le> 138) \<or> z = 168 \<or> z = 169 \<or> z = 175) then 3
      else if x = 226 \<and> y = 129 \<and> z = 159 then 3
      else if x = 227 \<and> y = 128 \<and> z = 128 then 3
      else 0)"

declare space_len.simps [simp del]

text \<open>\<open>strings.Fields\<close>: the maximal runs of bytes with no white space rune.\<close>

function fields_from :: "bytes \<Rightarrow> bytes \<Rightarrow> bytes list" where
  "fields_from cur [] = (if cur = [] then [] else [rev cur])"
| "fields_from cur (c # cs) =
     (case space_len (c # cs) of
        0 \<Rightarrow> fields_from (c # cur) cs
      | Suc n \<Rightarrow> (if cur = [] then id else (#) (rev cur)) (fields_from [] (drop n cs)))"
  by pat_completeness auto
termination
  by (relation "measure (\<lambda>(cur, s). length s)") auto

definition fields :: "bytes \<Rightarrow> bytes list" where
  "fields s = fields_from [] s"

text \<open>\<open>strings.TrimLeftFunc(s, unicode.IsSpace)\<close>, and whether \<open>strings.TrimSpace(s)\<close> is empty.\<close>

function trim_left_space :: "bytes \<Rightarrow> bytes" where
  "trim_left_space [] = []"
| "trim_left_space (c # cs) =
     (case space_len (c # cs) of 0 \<Rightarrow> c # cs | Suc n \<Rightarrow> trim_left_space (drop n cs))"
  by pat_completeness auto
termination
  by (relation "measure length") auto

definition is_blank :: "bytes \<Rightarrow> bool" where
  "is_blank s \<longleftrightarrow> trim_left_space s = []"

lemma fields_from_nonempty: "[] \<notin> set (fields_from cur s)"
  by (induction cur s rule: fields_from.induct) (auto split: nat.splits)

lemma fields_nonempty: "[] \<notin> set (fields s)"
  by (simp add: fields_def fields_from_nonempty)

section \<open>UTF-8\<close>

text \<open>
  The length of the valid UTF-8 rune a string starts with, 0 when its first byte does not
  start one (Go's \<open>utf8.DecodeRune\<close> then answers \<open>RuneError\<close> with width 1).
\<close>

definition byte_at :: "bytes \<Rightarrow> nat \<Rightarrow> nat" where
  "byte_at s i = (if i < length s then byte (s ! i) else 0)"

fun rune_len :: "bytes \<Rightarrow> nat" where
  "rune_len [] = 0"
| "rune_len (a # r) =
     (let x = byte a;
          within = (\<lambda>i lo hi. lo \<le> byte_at r i \<and> byte_at r i \<le> hi) in
      if x < 128 then 1
      else if x < 194 then 0
      else if x < 224 then (if within 0 128 191 then 2 else 0)
      else if x < 240 then
        (if within 0 (if x = 224 then 160 else 128) (if x = 237 then 159 else 191)
            \<and> within 1 128 191 then 3 else 0)
      else if x < 245 then
        (if within 0 (if x = 240 then 144 else 128) (if x = 244 then 143 else 191)
            \<and> within 1 128 191 \<and> within 2 128 191 then 4 else 0)
      else 0)"

declare rune_len.simps [simp del]

lemma byte_at_ge: "128 \<le> byte_at s i \<Longrightarrow> i < length s"
  by (auto simp: byte_at_def split: if_splits)

lemma rune_len_le: "rune_len s \<le> length s"
proof (cases s)
  case Nil
  then show ?thesis by (simp add: rune_len.simps)
next
  case (Cons a r)
  then show ?thesis
    using byte_at_ge[of r 0] byte_at_ge[of r 1] byte_at_ge[of r 2]
    by (auto simp: rune_len.simps Let_def Suc_le_eq)
qed

lemma rune_len_ascii: "byte a < 128 \<Longrightarrow> rune_len (a # r) = 1"
  by (simp add: rune_len.simps)

text \<open>A string all of whose runes are valid: \<open>utf8.ValidString\<close>.\<close>

function valid_utf8 :: "bytes \<Rightarrow> bool" where
  "valid_utf8 [] = True"
| "valid_utf8 (c # cs) = (case rune_len (c # cs) of 0 \<Rightarrow> False | Suc n \<Rightarrow> valid_utf8 (drop n cs))"
  by pat_completeness auto
termination
  by (relation "measure length") auto

text \<open>The bytes \<open>utf8.AppendRune\<close> writes for a code point.\<close>

definition utf8_encode :: "nat \<Rightarrow> bytes" where
  "utf8_encode r =
     map char_of
      (if r < 128 then [r]
       else if r < 2048 then [192 + r div 64, 128 + r mod 64]
       else if 55296 \<le> r \<and> r < 57344 \<or> 1114111 < r then [239, 191, 189]
       else if r < 65536 then [224 + r div 4096, 128 + r div 64 mod 64, 128 + r mod 64]
       else [240 + r div 262144, 128 + r div 4096 mod 64, 128 + r div 64 mod 64, 128 + r mod 64])"

section \<open>Decimal numbers\<close>

definition digit_char :: "nat \<Rightarrow> char" where
  "digit_char d = char_of (48 + d)"

definition is_digit :: "char \<Rightarrow> bool" where
  "is_digit c \<longleftrightarrow> 48 \<le> byte c \<and> byte c \<le> 57"

definition digit_val :: "char \<Rightarrow> nat" where
  "digit_val c = byte c - 48"

fun show_nat :: "nat \<Rightarrow> bytes" where
  "show_nat n = (if n < 10 then [digit_char n] else show_nat (n div 10) @ [digit_char (n mod 10)])"

declare show_nat.simps [simp del]

definition show_int :: "int \<Rightarrow> bytes" where
  "show_int i = (if i < 0 then CHR ''-'' # show_nat (nat (- i)) else show_nat (nat i))"

fun nat_of_digits :: "nat \<Rightarrow> bytes \<Rightarrow> nat" where
  "nat_of_digits acc [] = acc"
| "nat_of_digits acc (c # cs) = nat_of_digits (10 * acc + digit_val c) cs"

lemma byte_digit_char: "d < 10 \<Longrightarrow> byte (digit_char d) = 48 + d"
  by (simp add: digit_char_def)

lemma digit_val_char [simp]: "d < 10 \<Longrightarrow> digit_val (digit_char d) = d"
  by (simp add: digit_val_def byte_digit_char)

lemma is_digit_char [simp]: "d < 10 \<Longrightarrow> is_digit (digit_char d)"
  by (simp add: is_digit_def byte_digit_char)

lemma nat_of_digits_append [simp]:
  "nat_of_digits acc (xs @ ys) = nat_of_digits (nat_of_digits acc xs) ys"
  by (induction xs arbitrary: acc) auto

lemma show_nat_ne [simp]: "show_nat n \<noteq> []"
  by (subst show_nat.simps) simp

lemma show_nat_digits: "\<forall>c\<in>set (show_nat n). is_digit c"
proof (induction n rule: show_nat.induct)
  case (1 n)
  then show ?case by (cases "n < 10") (auto simp: show_nat.simps[of n])
qed

lemma nat_of_show_nat [simp]: "nat_of_digits 0 (show_nat n) = n"
proof (induction n rule: show_nat.induct)
  case (1 n)
  then show ?case by (cases "n < 10") (auto simp: show_nat.simps[of n])
qed

end
