(* ===== verification/Go_JSON.thy ===== *)
theory Go_JSON
  imports Go_Text
begin

text \<open>
  The part of Go's \<open>encoding/json\<close> the program uses: the grammar \<open>json.Valid\<close> accepts, as a
  recursive descent parser into a tree that keeps every token and, for an object member, the
  source bytes of its value (what a \<open>json.RawMessage\<close> field receives); \<open>json.Compact\<close>; the
  string encoder with HTML escaping off; string unquoting; and the lookup of a struct field.

  The parser takes fuel; \<open>json_parse\<close> gives it twice the input's length plus two, which
  \<open>parse_fuel_enough\<close> shows to be enough for every input. Nesting is bounded by
  \<open>max_nesting\<close>, as in the Go scanner.
\<close>

section \<open>Tokens\<close>

abbreviation c_quote :: char where "c_quote \<equiv> CHR 0x22"
abbreviation c_backslash :: char where "c_backslash \<equiv> CHR 0x5C"
abbreviation c_nl :: char where "c_nl \<equiv> CHR 0x0A"
abbreviation c_cr :: char where "c_cr \<equiv> CHR 0x0D"

definition is_ws :: "char \<Rightarrow> bool" where
  "is_ws c \<longleftrightarrow> byte c \<in> {32, 9, 10, 13}"

definition skip_ws :: "bytes \<Rightarrow> bytes" where
  "skip_ws s = dropWhile is_ws s"

definition hex_val :: "char \<Rightarrow> nat option" where
  "hex_val c =
     (let x = byte c in
      if 48 \<le> x \<and> x \<le> 57 then Some (x - 48)
      else if 97 \<le> x \<and> x \<le> 102 then Some (x - 87)
      else if 65 \<le> x \<and> x \<le> 70 then Some (x - 55)
      else None)"

definition is_hex :: "char \<Rightarrow> bool" where
  "is_hex c \<longleftrightarrow> hex_val c \<noteq> None"

text \<open>The bytes that may follow a backslash, besides \<open>u\<close>.\<close>

definition simple_escape :: "char \<Rightarrow> bool" where
  "simple_escape c \<longleftrightarrow> c \<in> set ''bfnrt/'' \<or> c = c_quote \<or> c = c_backslash"

text \<open>The length of the escape that follows a backslash, 0 when there is none.\<close>

definition escape_len :: "bytes \<Rightarrow> nat" where
  "escape_len cs =
     (case cs of
        [] \<Rightarrow> 0
      | e # r \<Rightarrow>
          if simple_escape e then 1
          else if e = CHR ''u'' \<and> 4 \<le> length r \<and> list_all is_hex (take 4 r) then 5
          else 0)"

text \<open>The body of a string literal, read from just after its opening quote.\<close>

function lex_string :: "bytes \<Rightarrow> (bytes \<times> bytes) option" where
  "lex_string [] = None"
| "lex_string (c # cs) =
     (if c = c_quote then Some ([], cs)
      else if byte c < 32 then None
      else if c = c_backslash then
        (case escape_len cs of
           0 \<Rightarrow> None
         | Suc n \<Rightarrow>
             map_option (\<lambda>(b, t). (c # take (Suc n) cs @ b, t)) (lex_string (drop (Suc n) cs)))
      else map_option (\<lambda>(b, t). (c # b, t)) (lex_string cs))"
  by pat_completeness auto
termination
  by (relation "measure length") auto

definition lex_exp :: "bytes \<Rightarrow> bytes \<Rightarrow> (bytes \<times> bytes) option" where
  "lex_exp acc s =
     (case s of
        [] \<Rightarrow> Some (acc, [])
      | e # r \<Rightarrow>
          if e = CHR ''e'' \<or> e = CHR ''E'' then
            (let sg = (case r of x # _ \<Rightarrow> if x = CHR ''+'' \<or> x = CHR ''-'' then [x] else [] | [] \<Rightarrow> []);
                 r1 = drop (length sg) r; d = takeWhile is_digit r1 in
             if d = [] then None else Some (acc @ e # sg @ d, dropWhile is_digit r1))
          else Some (acc, s))"

definition lex_frac :: "bytes \<Rightarrow> bytes \<Rightarrow> (bytes \<times> bytes) option" where
  "lex_frac acc s =
     (case s of
        [] \<Rightarrow> Some (acc, [])
      | p # r \<Rightarrow>
          if p = CHR ''.'' then
            (let d = takeWhile is_digit r in
             if d = [] then None else lex_exp (acc @ p # d) (dropWhile is_digit r))
          else lex_exp acc s)"

definition lex_number :: "bytes \<Rightarrow> (bytes \<times> bytes) option" where
  "lex_number s =
     (let sg = (case s of x # _ \<Rightarrow> if x = CHR ''-'' then [x] else [] | [] \<Rightarrow> []);
          s1 = drop (length sg) s in
      case s1 of
        [] \<Rightarrow> None
      | c # r \<Rightarrow>
          if c = CHR ''0'' then lex_frac (sg @ [c]) r
          else if is_digit c
          then lex_frac (sg @ takeWhile is_digit s1) (dropWhile is_digit s1)
          else None)"

section \<open>Values\<close>

text \<open>
  A tree keeps the source spelling of its strings (without the quotes) and numbers. A member of
  an object is its key's spelling, the source bytes of its value and the value.
\<close>

datatype json =
    JNull
  | JBool bool
  | JNum bytes
  | JStr bytes
  | JArr "json list"
  | JObj "(bytes \<times> bytes \<times> json) list"

definition max_nesting :: nat where
  "max_nesting = 10000"

definition lit_true :: bytes where "lit_true = ''true''"
definition lit_false :: bytes where "lit_false = ''false''"
definition lit_null :: bytes where "lit_null = ''null''"

fun parse_value :: "nat \<Rightarrow> nat \<Rightarrow> bytes \<Rightarrow> (json \<times> bytes) option"
and parse_elements :: "nat \<Rightarrow> nat \<Rightarrow> bytes \<Rightarrow> (json list \<times> bytes) option"
and parse_members :: "nat \<Rightarrow> nat \<Rightarrow> bytes \<Rightarrow> ((bytes \<times> bytes \<times> json) list \<times> bytes) option" where
  "parse_value 0 d s = None"
| "parse_value (Suc f) d s =
     (case s of
        [] \<Rightarrow> None
      | c # cs \<Rightarrow>
          if c = CHR ''{'' then
            (if max_nesting \<le> d then None
             else case skip_ws cs of
                 [] \<Rightarrow> None
               | x # r \<Rightarrow>
                   if x = CHR ''}'' then Some (JObj [], r)
                   else map_option (\<lambda>(m, t). (JObj m, t)) (parse_members f (Suc d) (x # r)))
          else if c = CHR ''['' then
            (if max_nesting \<le> d then None
             else case skip_ws cs of
                 [] \<Rightarrow> None
               | x # r \<Rightarrow>
                   if x = CHR '']'' then Some (JArr [], r)
                   else map_option (\<lambda>(m, t). (JArr m, t)) (parse_elements f (Suc d) (x # r)))
          else if c = c_quote then map_option (\<lambda>(b, t). (JStr b, t)) (lex_string cs)
          else if has_prefix s lit_true then Some (JBool True, drop 4 s)
          else if has_prefix s lit_false then Some (JBool False, drop 5 s)
          else if has_prefix s lit_null then Some (JNull, drop 4 s)
          else map_option (\<lambda>(b, t). (JNum b, t)) (lex_number s))"
| "parse_elements 0 d s = None"
| "parse_elements (Suc f) d s =
     (case parse_value f d s of
        None \<Rightarrow> None
      | Some (v, s1) \<Rightarrow>
          (case skip_ws s1 of
             [] \<Rightarrow> None
           | x # r \<Rightarrow>
               if x = CHR '']'' then Some ([v], r)
               else if x = CHR '','' then
                 map_option (\<lambda>(vs, t). (v # vs, t)) (parse_elements f d (skip_ws r))
               else None))"
| "parse_members 0 d s = None"
| "parse_members (Suc f) d s =
     (case s of
        [] \<Rightarrow> None
      | q # s1 \<Rightarrow>
          if q \<noteq> c_quote then None
          else case lex_string s1 of
              None \<Rightarrow> None
            | Some (k, s2) \<Rightarrow>
                (case skip_ws s2 of
                   [] \<Rightarrow> None
                 | y # s3 \<Rightarrow>
                     if y \<noteq> CHR '':'' then None
                     else (let s4 = skip_ws s3 in
                       case parse_value f d s4 of
                         None \<Rightarrow> None
                       | Some (v, s5) \<Rightarrow>
                           (let m = (k, take (length s4 - length s5) s4, v) in
                            case skip_ws s5 of
                              [] \<Rightarrow> None
                            | x # r \<Rightarrow>
                                if x = CHR ''}'' then Some ([m], r)
                                else if x = CHR '','' then
                                  map_option (\<lambda>(ms, t). (m # ms, t)) (parse_members f d (skip_ws r))
                                else None))))"

definition json_parse :: "bytes \<Rightarrow> json option" where
  "json_parse s =
     (case parse_value (2 * length s + 2) 0 (skip_ws s) of
        None \<Rightarrow> None
      | Some (v, r) \<Rightarrow> if skip_ws r = [] then Some v else None)"

text \<open>\<open>json.Valid\<close>.\<close>

definition json_valid :: "bytes \<Rightarrow> bool" where
  "json_valid s \<longleftrightarrow> json_parse s \<noteq> None"

lemma json_valid_empty_object [simp]: "json_valid ''{}''"
  by code_simp

lemma json_valid_Nil [simp]: "\<not> json_valid []"
  by (simp add: json_valid_def json_parse_def skip_ws_def)

section \<open>Fuel\<close>

lemma skip_ws_le: "length (skip_ws s) \<le> length s"
  by (simp add: skip_ws_def length_dropWhile_le)

lemma skip_ws_ConsD: "skip_ws s = x # r \<Longrightarrow> length r < length s"
  using skip_ws_le[of s] by simp

lemma lex_string_shorter: "lex_string s = Some (b, t) \<Longrightarrow> length t < length s"
proof (induction s arbitrary: b t rule: lex_string.induct)
  case 1
  then show ?case by simp
next
  case (2 c cs)
  then show ?case
    by (fastforce split: if_splits nat.splits)
qed

lemma length_dropWhile_mono: "length s \<le> n \<Longrightarrow> length (dropWhile P s) \<le> n"
  using length_dropWhile_le le_trans by blast

lemma lex_exp_le: "lex_exp acc s = Some (b, t) \<Longrightarrow> length t \<le> length s"
  by (cases s) (auto simp: lex_exp_def Let_def intro!: length_dropWhile_mono split: if_splits)

lemma lex_frac_le:
  assumes "lex_frac acc s = Some (b, t)"
  shows "length t \<le> length s"
proof (cases s)
  case Nil
  with assms show ?thesis by (simp add: lex_frac_def)
next
  case (Cons p r)
  show ?thesis
  proof (cases "p = CHR ''.''")
    case True
    with assms Cons have "length t \<le> length (dropWhile is_digit r)"
      by (auto simp: lex_frac_def Let_def split: if_splits dest: lex_exp_le)
    with Cons show ?thesis
      using length_dropWhile_le[of is_digit r] by simp
  next
    case False
    with assms Cons show ?thesis by (auto simp: lex_frac_def dest: lex_exp_le)
  qed
qed

lemma lex_number_shorter: "lex_number s = Some (b, t) \<Longrightarrow> length t < length s"
proof -
  assume a: "lex_number s = Some (b, t)"
  define sg where "sg = (case s of x # _ \<Rightarrow> if x = CHR ''-'' then [x] else [] | [] \<Rightarrow> [])"
  define s1 where "s1 = drop (length sg) s"
  have le: "length s1 \<le> length s" by (simp add: s1_def)
  from a obtain c r where s1: "s1 = c # r"
    unfolding lex_number_def Let_def sg_def[symmetric] s1_def[symmetric] by (cases s1) auto
  have "length t \<le> length r"
    using a s1 lex_frac_le length_dropWhile_mono[of r "length r" is_digit]
    unfolding lex_number_def Let_def sg_def[symmetric] s1_def[symmetric]
    by (fastforce split: if_splits)
  with s1 le show ?thesis by simp
qed

definition shortens :: "(nat \<Rightarrow> bytes \<Rightarrow> ('a \<times> bytes) option) \<Rightarrow> bool" where
  "shortens p \<longleftrightarrow> (\<forall>d s v r. p d s = Some (v, r) \<longrightarrow> length r < length s)"

lemma shortensI: "(\<And>d s v r. p d s = Some (v, r) \<Longrightarrow> length r < length s) \<Longrightarrow> shortens p"
  by (simp add: shortens_def)

lemma shortensD: "shortens p \<Longrightarrow> p d s = Some (v, r) \<Longrightarrow> length r < length s"
  by (simp add: shortens_def)

lemma parse_value_shorter_step:
  assumes "shortens (parse_elements f)" and "shortens (parse_members f)"
  shows "shortens (parse_value (Suc f))"
proof (rule shortensI)
  fix d s v r
  assume a: "parse_value (Suc f) d s = Some (v, r)"
  then obtain c cs where "s = c # cs" by (cases s) auto
  with a assms show "length r < length s"
    by (auto split: if_splits list.splits dest: lex_string_shorter lex_number_shorter
        skip_ws_ConsD shortensD; fastforce dest: skip_ws_ConsD shortensD)
qed

lemma parse_elements_shorter_step:
  assumes "shortens (parse_value f)" and "shortens (parse_elements f)"
  shows "shortens (parse_elements (Suc f))"
proof (rule shortensI)
  fix d s v r
  assume a: "parse_elements (Suc f) d s = Some (v, r)"
  then obtain w s1 x r1 where 1: "parse_value f d s = Some (w, s1)" "skip_ws s1 = x # r1"
    by (auto split: option.splits list.splits)
  from shortensD[OF assms(1) 1(1)] skip_ws_ConsD[OF 1(2)] have lt: "length r1 < length s" by simp
  from a 1 consider "r = r1" | vs where "parse_elements f d (skip_ws r1) = Some (vs, r)"
    by (auto split: if_splits)
  then show "length r < length s"
  proof cases
    case 1
    with lt show ?thesis by simp
  next
    case 2
    from shortensD[OF assms(2) this] skip_ws_le[of r1] lt show ?thesis by simp
  qed
qed

lemma parse_members_inv:
  assumes "parse_members (Suc f) d s = Some (v, r)"
  obtains s1 k s2 s3 w s5 x r1 where "s = c_quote # s1" "lex_string s1 = Some (k, s2)"
    "skip_ws s2 = CHR '':'' # s3" "parse_value f d (skip_ws s3) = Some (w, s5)" "skip_ws s5 = x # r1"
    "x = CHR ''}'' \<and> v = [(k, take (length (skip_ws s3) - length s5) (skip_ws s3), w)] \<and> r = r1 \<or>
     x = CHR '','' \<and> (\<exists>ms. parse_members f d (skip_ws r1) = Some (ms, r) \<and>
       v = (k, take (length (skip_ws s3) - length s5) (skip_ws s3), w) # ms)"
  using assms
  by (auto simp: Let_def split: option.splits list.splits if_splits)

lemma parse_members_shorter_step:
  assumes "shortens (parse_value f)" and "shortens (parse_members f)"
  shows "shortens (parse_members (Suc f))"
proof (rule shortensI)
  fix d s v r
  assume "parse_members (Suc f) d s = Some (v, r)"
  then show "length r < length s"
  proof (rule parse_members_inv)
    fix s1 k s2 s3 w s5 x r1
    assume 1: "s = c_quote # s1" "lex_string s1 = Some (k, s2)" "skip_ws s2 = CHR '':'' # s3"
      "parse_value f d (skip_ws s3) = Some (w, s5)" "skip_ws s5 = x # r1"
      "x = CHR ''}'' \<and> v = [(k, take (length (skip_ws s3) - length s5) (skip_ws s3), w)] \<and> r = r1 \<or>
       x = CHR '','' \<and> (\<exists>ms. parse_members f d (skip_ws r1) = Some (ms, r) \<and>
         v = (k, take (length (skip_ws s3) - length s5) (skip_ws s3), w) # ms)"
    have lt: "length r1 < length s"
      using 1(1) lex_string_shorter[OF 1(2)] skip_ws_ConsD[OF 1(3)] shortensD[OF assms(1) 1(4)]
        skip_ws_le[of s3] skip_ws_ConsD[OF 1(5)] by simp
    from 1(6) show "length r < length s"
      using lt skip_ws_le[of r1] shortensD[OF assms(2), of d "skip_ws r1"] by fastforce
  qed
qed

lemma parse_shortens: "shortens (parse_value f) \<and> shortens (parse_elements f) \<and> shortens (parse_members f)"
proof (induction f)
  case 0
  show ?case by (auto intro: shortensI)
next
  case (Suc f)
  then show ?case
    using parse_value_shorter_step parse_elements_shorter_step parse_members_shorter_step by blast
qed

lemmas parse_value_shorter = parse_shortens[THEN conjunct1, THEN shortensD]

text \<open>
  With fuel above twice the length of its input (and one more for a list of elements, which
  calls the value parser without consuming anything), one more unit changes nothing.
\<close>

lemma parse_fuel_step:
  "(\<forall>d s. 2 * length s < f \<longrightarrow> parse_value f d s = parse_value (Suc f) d s) \<and>
   (\<forall>d s. 2 * length s + 1 < f \<longrightarrow> parse_elements f d s = parse_elements (Suc f) d s) \<and>
   (\<forall>d s. 2 * length s < f \<longrightarrow> parse_members f d s = parse_members (Suc f) d s)"
proof (induction f)
  case 0
  then show ?case by simp
next
  case (Suc f)
  note v = Suc[THEN conjunct1, rule_format]
    and e = Suc[THEN conjunct2, THEN conjunct1, rule_format]
    and m = Suc[THEN conjunct2, THEN conjunct2, rule_format]
  have "parse_value (Suc f) d s = parse_value (Suc (Suc f)) d s" if "2 * length s < Suc f" for d s
  proof (cases s)
    case Nil
    then show ?thesis by simp
  next
    case (Cons c cs)
    show ?thesis
    proof (cases "skip_ws cs")
      case Nil
      with Cons show ?thesis by simp
    next
      case sk: (Cons x r)
      with Cons that skip_ws_le[of cs] have "2 * length (x # r) + 1 < f" by simp
      then have em: "parse_elements f (Suc d) (x # r) = parse_elements (Suc f) (Suc d) (x # r)"
        and mm: "parse_members f (Suc d) (x # r) = parse_members (Suc f) (Suc d) (x # r)"
        by (auto intro: e m simp del: parse_elements.simps parse_members.simps)
      show ?thesis
        unfolding parse_value.simps(2)[of f d s] parse_value.simps(2)[of "Suc f" d s]
        by (simp only: Cons list.case sk em mm)
    qed
  qed
  moreover have "parse_elements (Suc f) d s = parse_elements (Suc (Suc f)) d s"
    if lt: "2 * length s + 1 < Suc f" for d s
  proof -
    have eq: "parse_value f d s = parse_value (Suc f) d s" using that by (intro v) simp
    show ?thesis
    proof (cases "parse_value (Suc f) d s")
      case None
      then show ?thesis
        unfolding parse_elements.simps(2)[of f d s] parse_elements.simps(2)[of "Suc f" d s] eq
        by (simp only: option.case)
    next
      case (Some ws)
      obtain w s1 where ws: "ws = (w, s1)" by force
      show ?thesis
      proof (cases "skip_ws s1")
        case Nil
        then show ?thesis
          unfolding parse_elements.simps(2)[of f d s] parse_elements.simps(2)[of "Suc f" d s] eq
          by (simp only: Some ws option.case prod.case list.case)
      next
        case sk: (Cons x r)
        have "parse_elements f d (skip_ws r) = parse_elements (Suc f) d (skip_ws r)"
          using parse_value_shorter[OF Some[unfolded ws]] skip_ws_ConsD[OF sk] skip_ws_le[of r] lt
          by (intro e) simp
        then show ?thesis
          unfolding parse_elements.simps(2)[of f d s] parse_elements.simps(2)[of "Suc f" d s] eq
          by (simp only: Some ws option.case prod.case list.case sk)
      qed
    qed
  qed
  moreover have "parse_members (Suc f) d s = parse_members (Suc (Suc f)) d s"
    if lt: "2 * length s < Suc f" for d s
  proof -
    have eq: "parse_value f d (skip_ws s3) = parse_value (Suc f) d (skip_ws s3)"
      if "s = q # s1" "lex_string s1 = Some (k, s2)" "skip_ws s2 = y # s3" for q s1 k s2 y s3
      using that lex_string_shorter[OF that(2)] skip_ws_ConsD[OF that(3)] skip_ws_le[of s3] lt
      by (intro v) simp
    show ?thesis
    proof (cases s)
      case (Cons q s1)
      show ?thesis
      proof (cases "lex_string s1")
        case None
        with Cons show ?thesis by simp
      next
        case (Some ks)
        obtain k s2 where ks: "ks = (k, s2)" by force
        show ?thesis
        proof (cases "skip_ws s2")
          case Nil
          with Cons Some ks show ?thesis by simp
        next
          case sk: (Cons y s3)
          note eq' = eq[OF Cons Some[unfolded ks] sk]
          show ?thesis
          proof (cases "parse_value (Suc f) d (skip_ws s3)")
            case None
            show ?thesis
              unfolding parse_members.simps(2)[of f d s] parse_members.simps(2)[of "Suc f" d s]
              by (simp only: Cons list.case Some ks option.case prod.case sk Let_def eq' None)
          next
            case pv: (Some ws)
            obtain w s5 where ws: "ws = (w, s5)" by force
            have mm: "parse_members f d (skip_ws r) = parse_members (Suc f) d (skip_ws r)"
              if "skip_ws s5 = x # r" for x r
              using Cons lex_string_shorter[OF Some[unfolded ks]] skip_ws_ConsD[OF sk] skip_ws_le[of s3]
                parse_value_shorter[OF pv[unfolded ws]] skip_ws_ConsD[OF that] skip_ws_le[of r] lt
              by (intro m) simp
            show ?thesis
              unfolding parse_members.simps(2)[of f d s] parse_members.simps(2)[of "Suc f" d s]
              by (cases "skip_ws s5")
                (simp_all only: Cons list.case Some ks option.case prod.case sk Let_def eq' pv ws mm)
          qed
        qed
      qed
    qed simp
  qed
  ultimately show ?case by blast
qed

lemma parse_fuel_enough:
  "2 * length s < f \<Longrightarrow> f \<le> g \<Longrightarrow> parse_value g d s = parse_value f d s"
proof (induction g)
  case 0
  then show ?case by simp
next
  case (Suc g)
  show ?case
  proof (cases "f = Suc g")
    case False
    with Suc have "f \<le> g" "2 * length s < g" by auto
    with Suc parse_fuel_step[of g] show ?thesis by metis
  qed simp
qed

section \<open>Compaction\<close>

fun compact_text :: "json \<Rightarrow> bytes" where
  "compact_text JNull = lit_null"
| "compact_text (JBool b) = (if b then lit_true else lit_false)"
| "compact_text (JNum n) = n"
| "compact_text (JStr b) = c_quote # b @ [c_quote]"
| "compact_text (JArr vs) = CHR ''['' # join '','' (map compact_text vs) @ '']''"
| "compact_text (JObj ms) =
     CHR ''{'' # join '','' (map (\<lambda>(k, raw, v). c_quote # k @ [c_quote, CHR '':''] @ compact_text v) ms) @ ''}''"

text \<open>\<open>json.Compact\<close>: the tokens of a valid text with no white space between them.\<close>

definition json_compact :: "bytes \<Rightarrow> bytes option" where
  "json_compact s = map_option compact_text (json_parse s)"

definition printable :: "bytes \<Rightarrow> bool" where
  "printable s \<longleftrightarrow> (\<forall>c\<in>set s. 32 \<le> byte c)"

lemma printable_simps [simp]:
  "printable []" "printable (c # s) \<longleftrightarrow> 32 \<le> byte c \<and> printable s"
  "printable (s @ t) \<longleftrightarrow> printable s \<and> printable t"
  by (auto simp: printable_def)

lemma printable_join: "printable sep \<Longrightarrow> (\<And>x. x \<in> set xs \<Longrightarrow> printable x) \<Longrightarrow> printable (join sep xs)"
  by (induction xs) (auto simp: join_Cons)

lemma printable_digits: "(\<And>c. c \<in> set s \<Longrightarrow> is_digit c) \<Longrightarrow> printable s"
  by (fastforce simp: printable_def is_digit_def)

lemma digit_printable: "is_digit c \<Longrightarrow> 32 \<le> byte c"
  by (simp add: is_digit_def)

lemma printable_takeWhile [simp]: "printable (takeWhile is_digit s)"
  by (auto intro: printable_digits dest: set_takeWhileD)

lemma hex_printable: "is_hex c \<Longrightarrow> 32 \<le> byte c"
  by (auto simp: is_hex_def hex_val_def Let_def split: if_splits)

lemma simple_escape_printable: "simple_escape c \<Longrightarrow> 32 \<le> byte c"
  by (auto simp: simple_escape_def)

lemma escape_printable: "printable (take (escape_len cs) cs)"
proof (cases cs)
  case Nil
  then show ?thesis by simp
next
  case (Cons e r)
  have "printable (take 4 r)" if "list_all is_hex (take 4 r)"
    using that hex_printable by (auto simp: printable_def list_all_iff)
  with Cons show ?thesis
    using simple_escape_printable[of e] by (simp add: escape_len_def eval_nat_numeral)
qed

lemma lex_string_printable: "lex_string s = Some (b, t) \<Longrightarrow> printable b"
proof (induction s arbitrary: b t rule: lex_string.induct)
  case 1
  then show ?case by simp
next
  case (2 c cs)
  then show ?case
    using escape_printable[of cs] by (auto split: if_splits nat.splits)
qed

lemma lex_exp_printable: "lex_exp acc s = Some (b, t) \<Longrightarrow> printable acc \<Longrightarrow> printable b"
  by (cases s) (auto simp: lex_exp_def Let_def digit_printable split: if_splits list.splits)

lemma lex_frac_printable: "lex_frac acc s = Some (b, t) \<Longrightarrow> printable acc \<Longrightarrow> printable b"
  by (cases s)
    (auto simp: lex_frac_def Let_def split: if_splits list.splits elim!: lex_exp_printable)

lemma lex_number_printable: "lex_number s = Some (b, t) \<Longrightarrow> printable b"
  by (auto simp: lex_number_def Let_def digit_printable split: if_splits list.splits
      elim!: lex_frac_printable)

lemma compact_members_printable:
  "(\<And>k raw v. (k, raw, v) \<in> set ms \<Longrightarrow> printable k \<and> printable (compact_text v)) \<Longrightarrow>
   printable (compact_text (JObj ms))"
  by (fastforce intro!: printable_join)

lemma compact_elements_printable:
  "(\<And>v. v \<in> set vs \<Longrightarrow> printable (compact_text v)) \<Longrightarrow> printable (compact_text (JArr vs))"
  by (auto intro!: printable_join)

lemma parse_printable:
  "(\<forall>d s v r. parse_value f d s = Some (v, r) \<longrightarrow> printable (compact_text v)) \<and>
   (\<forall>d s vs r. parse_elements f d s = Some (vs, r) \<longrightarrow> (\<forall>v\<in>set vs. printable (compact_text v))) \<and>
   (\<forall>d s ms r. parse_members f d s = Some (ms, r) \<longrightarrow>
      (\<forall>(k, raw, v)\<in>set ms. printable k \<and> printable (compact_text v)))"
proof (induction f)
  case 0
  then show ?case by simp
next
  case (Suc f)
  note v = Suc[THEN conjunct1, rule_format]
    and e = Suc[THEN conjunct2, THEN conjunct1, rule_format]
    and m = Suc[THEN conjunct2, THEN conjunct2, rule_format]
  have "printable (compact_text v)" if a: "parse_value (Suc f) d s = Some (v, r)" for d s v r
  proof -
    from a obtain c cs where s: "s = c # cs" by (cases s) auto
    from a s consider "v = JObj [] \<or> v = JArr []" |
        ms x t where "v = JObj ms" "parse_members f (Suc d) (x # t) = Some (ms, r)" |
        vs x t where "v = JArr vs" "parse_elements f (Suc d) (x # t) = Some (vs, r)" |
        b where "v = JStr b" "lex_string cs = Some (b, r)" |
        b where "v = JBool b" | "v = JNull" |
        b where "v = JNum b" "lex_number s = Some (b, r)"
      by (auto split: if_splits list.splits)
    then show ?thesis
    proof cases
      case 2
      show ?thesis
        unfolding 2(1) using m[OF 2(2)] by (intro compact_members_printable) auto
    next
      case 3
      show ?thesis
        unfolding 3(1) using e[OF 3(2)] by (intro compact_elements_printable) auto
    qed (auto simp: lit_true_def lit_false_def lit_null_def lex_number_printable lex_string_printable)
  qed
  moreover have "\<forall>v\<in>set vs. printable (compact_text v)" if a: "parse_elements (Suc f) d s = Some (vs, r)" for d s vs r
  proof -
    from a obtain w s1 ws where 1: "parse_value f d s = Some (w, s1)"
      "vs = w # ws" "ws = [] \<or> (\<exists>t. parse_elements f d t = Some (ws, r))"
      by (auto split: option.splits list.splits if_splits) blast
    with v[OF 1(1)] e show ?thesis by auto
  qed
  moreover have "\<forall>(k, raw, v)\<in>set ms. printable k \<and> printable (compact_text v)"
    if "parse_members (Suc f) d s = Some (ms, r)" for d s ms r
    by (rule parse_members_inv[OF that]) (use v m lex_string_printable in fastforce)
  ultimately show ?case by blast
qed

text \<open>
  A compacted text has no control character, and so no newline: a raw newline is legal in JSON
  only between tokens.
\<close>

lemma json_parse_printable: "json_parse s = Some v \<Longrightarrow> printable (compact_text v)"
  using parse_printable[THEN conjunct1, rule_format]
  by (auto simp: json_parse_def simp del: parse_value.simps split: option.splits if_splits)

lemma json_compact_printable: "json_compact s = Some t \<Longrightarrow> printable t"
  by (auto simp: json_compact_def json_parse_printable)

section \<open>Strings\<close>

text \<open>The encoder's escapes, with HTML escaping off (\<open>encoding/json\<close>'s \<open>appendString\<close>).\<close>

definition hex_digit :: "nat \<Rightarrow> char" where
  "hex_digit n = char_of (if n < 10 then 48 + n else 87 + n)"

definition escape_byte :: "char \<Rightarrow> bytes" where
  "escape_byte c =
     (let x = byte c in
      if c = c_quote \<or> c = c_backslash then [c_backslash, c]
      else if x = 8 then [c_backslash, CHR ''b'']
      else if x = 12 then [c_backslash, CHR ''f'']
      else if x = 10 then [c_backslash, CHR ''n'']
      else if x = 13 then [c_backslash, CHR ''r'']
      else if x = 9 then [c_backslash, CHR ''t'']
      else if x < 32 then c_backslash # ''u00'' @ [hex_digit (x div 16), hex_digit (x mod 16)]
      else [c])"

definition line_separator :: "bytes \<Rightarrow> bool" where
  "line_separator s \<longleftrightarrow>
     3 \<le> length s \<and> byte (s ! 0) = 226 \<and> byte (s ! 1) = 128 \<and> (byte (s ! 2) = 168 \<or> byte (s ! 2) = 169)"

function escape_text :: "bytes \<Rightarrow> bytes" where
  "escape_text [] = []"
| "escape_text (c # cs) =
     (if byte c < 128 then escape_byte c @ escape_text cs
      else if line_separator (c # cs)
      then c_backslash # ''u202'' @ [hex_digit (byte (cs ! 1) mod 16)] @ escape_text (drop 2 cs)
      else case rune_len (c # cs) of
          0 \<Rightarrow> c_backslash # ''ufffd'' @ escape_text cs
        | Suc n \<Rightarrow> c # take n cs @ escape_text (drop n cs))"
  by pat_completeness auto
termination
  by (relation "measure length") auto

definition json_string :: "bytes \<Rightarrow> bytes" where
  "json_string s = c_quote # escape_text s @ [c_quote]"

text \<open>The decoder's unquoting (\<open>unquoteBytes\<close>): a lone surrogate and an invalid byte become U+FFFD.\<close>

definition unescape_byte :: "char \<Rightarrow> char" where
  "unescape_byte e =
     (if e = CHR ''b'' then char_of (8::nat) else if e = CHR ''f'' then char_of (12::nat)
      else if e = CHR ''n'' then c_nl else if e = CHR ''r'' then c_cr
      else if e = CHR ''t'' then char_of (9::nat) else e)"

definition u4 :: "bytes \<Rightarrow> nat" where
  "u4 s = fold (\<lambda>c acc. 16 * acc + (case hex_val c of Some v \<Rightarrow> v | None \<Rightarrow> 0)) (take 4 s) 0"

definition surrogate_pair :: "nat \<Rightarrow> nat \<Rightarrow> nat option" where
  "surrogate_pair a b =
     (if 55296 \<le> a \<and> a < 56320 \<and> 56320 \<le> b \<and> b < 57344
      then Some (65536 + (a - 55296) * 1024 + (b - 56320)) else None)"

definition next_u4 :: "bytes \<Rightarrow> nat option" where
  "next_u4 s = (if has_prefix s (c_backslash # ''u'') \<and> 6 \<le> length s \<and> list_all is_hex (take 4 (drop 2 s))
                then Some (u4 (drop 2 s)) else None)"

function unquote :: "bytes \<Rightarrow> bytes" where
  "unquote [] = []"
| "unquote (c # cs) =
     (if c = c_backslash then
        (case cs of
           [] \<Rightarrow> []
         | e # r \<Rightarrow>
             if e = CHR ''u'' then
               (let a = u4 r; t = drop 4 r in
                if 55296 \<le> a \<and> a < 57344 then
                  (case Option.bind (next_u4 t) (surrogate_pair a) of
                     Some x \<Rightarrow> utf8_encode x @ unquote (drop 6 t)
                   | None \<Rightarrow> utf8_encode 65533 @ unquote t)
                else utf8_encode a @ unquote t)
             else unescape_byte e # unquote r)
      else if byte c < 128 then c # unquote cs
      else case rune_len (c # cs) of
          0 \<Rightarrow> utf8_encode 65533 @ unquote cs
        | Suc n \<Rightarrow> c # take n cs @ unquote (drop n cs))"
  by pat_completeness auto
termination
  by (relation "measure length") (auto simp: Let_def)

section \<open>Struct fields\<close>

text \<open>
  \<open>json.Unmarshal\<close> matches an object key to a struct field by name, exactly or after folding:
  ASCII letters compare without case, U+017F folds to S and U+212A to K.
\<close>

fun fold_key :: "bytes \<Rightarrow> bytes" where
  "fold_key [] = []"
| "fold_key (a # r) =
     (if byte a = 197 \<and> r \<noteq> [] \<and> byte (hd r) = 191 then CHR ''S'' # fold_key (drop 1 r)
      else if byte a = 226 \<and> 2 \<le> length r \<and> byte (r ! 0) = 132 \<and> byte (r ! 1) = 170
      then CHR ''K'' # fold_key (drop 2 r)
      else (if 97 \<le> byte a \<and> byte a \<le> 122 then char_of (byte a - 32) else a) # fold_key r)"

definition key_matches :: "bytes \<Rightarrow> bytes \<Rightarrow> bool" where
  "key_matches name k \<longleftrightarrow> fold_key (unquote k) = fold_key name"

text \<open>
  A string field: every member whose key matches assigns it in order, \<open>null\<close> leaves it as it
  is, and a value of another type is an error of the whole decoding.
\<close>

fun string_field :: "bytes \<Rightarrow> bytes \<Rightarrow> (bytes \<times> bytes \<times> json) list \<Rightarrow> bytes option" where
  "string_field name acc [] = Some acc"
| "string_field name acc ((k, raw, v) # ms) =
     (if key_matches name k then
        (case v of
           JStr b \<Rightarrow> string_field name (unquote b) ms
         | JNull \<Rightarrow> string_field name acc ms
         | _ \<Rightarrow> None)
      else string_field name acc ms)"

lemma escape_byte_printable: "byte c < 128 \<Longrightarrow> printable (escape_byte c)"
  by (auto simp: escape_byte_def Let_def hex_digit_def)

end
