(* ===== verification/Go_Time.thy ===== *)
theory Go_Time
  imports Go_JSON
begin

text \<open>
  A \<open>time.Time\<close> as the log uses it: the calendar fields of its own zone and the zone's offset
  in seconds east of UTC, written by \<open>Format(time.RFC3339Nano)\<close>.
\<close>

record Time =
  t_year :: nat
  t_month :: nat
  t_day :: nat
  t_hour :: nat
  t_min :: nat
  t_sec :: nat
  t_nano :: nat
  t_off :: int

definition pad :: "nat \<Rightarrow> nat \<Rightarrow> bytes" where
  "pad w n = (let s = show_nat n in replicate (w - length s) (CHR ''0'') @ s)"

text \<open>The fraction of a second: nine digits with the trailing zeros dropped, nothing when it is zero.\<close>

definition format_frac :: "nat \<Rightarrow> bytes" where
  "format_frac ns = (if ns = 0 then [] else CHR ''.'' # trim_right (CHR ''0'') (pad 9 ns))"

definition format_zone :: "int \<Rightarrow> bytes" where
  "format_zone off =
     (if off = 0 then ''Z''
      else (let m = nat (abs off) div 60 in
            (if off < 0 then ''-'' else ''+'') @ pad 2 (m div 60) @ '':'' @ pad 2 (m mod 60)))"

definition format_time :: "Time \<Rightarrow> bytes" where
  "format_time t =
     pad 4 (t_year t) @ ''-'' @ pad 2 (t_month t) @ ''-'' @ pad 2 (t_day t) @ ''T'' @
     pad 2 (t_hour t) @ '':'' @ pad 2 (t_min t) @ '':'' @ pad 2 (t_sec t) @
     format_frac (t_nano t) @ format_zone (t_off t)"

lemma pad_printable [simp]: "printable (pad w n)"
  using show_nat_digits[of n]
  by (auto simp: pad_def Let_def printable_def is_digit_def)

lemma trim_right_set: "set (trim_right c s) \<subseteq> set s"
  by (auto simp: trim_right_def dest: set_dropWhileD)

lemma format_time_printable [simp]: "printable (format_time t)"
proof -
  have "printable (trim_right c (pad 9 n))" for c n
    using trim_right_set[of c "pad 9 n"] pad_printable[of 9 n] unfolding printable_def by blast
  then show ?thesis by (simp add: format_time_def format_frac_def format_zone_def Let_def)
qed

end
