(* ===== verification/Entry.thy ===== *)
theory Entry
  imports Go_Time
begin

text \<open>
  The data of a session log, \<open>internal/session/entry.go\<close>: the string enumerations with their
  \<open>Valid\<close> methods, the blocks a message is made of, the fifteen payloads, and \<open>Validate\<close>, which
  is everything the code checks of a payload on its own. A Go enumeration is a string type with
  named constants, so a value outside the set is representable and has to be refused; the model
  keeps the strings. Error texts are values of \<open>validate_error\<close>, one constructor per text.

  \<open>ulid.ParseStrict\<close> belongs to a third-party package: it is an argument of \<open>Validate\<close>.
\<close>

section \<open>Enumerations\<close>

type_synonym Kind = bytes

definition KindSessionOpened :: Kind where [enum_defs]: "KindSessionOpened = ''session_opened''"
definition KindForkPoint :: Kind where [enum_defs]: "KindForkPoint = ''fork_point''"
definition KindUserMessage :: Kind where [enum_defs]: "KindUserMessage = ''user_message''"
definition KindAssistantMessage :: Kind where [enum_defs]: "KindAssistantMessage = ''assistant_message''"
definition KindPermissionDecision :: Kind where [enum_defs]: "KindPermissionDecision = ''permission_decision''"
definition KindRuntimePermissionDecision :: Kind where [enum_defs]: "KindRuntimePermissionDecision = ''runtime_permission_decision''"
definition KindToolResult :: Kind where [enum_defs]: "KindToolResult = ''tool_result''"
definition KindModelChange :: Kind where [enum_defs]: "KindModelChange = ''model_change''"
definition KindModeChange :: Kind where [enum_defs]: "KindModeChange = ''mode_change''"
definition KindThinkingChange :: Kind where [enum_defs]: "KindThinkingChange = ''thinking_change''"
definition KindTitleChange :: Kind where [enum_defs]: "KindTitleChange = ''title_change''"
definition KindCompaction :: Kind where [enum_defs]: "KindCompaction = ''compaction''"
definition KindTurnInterrupted :: Kind where [enum_defs]: "KindTurnInterrupted = ''turn_interrupted''"
definition KindTurnFailed :: Kind where [enum_defs]: "KindTurnFailed = ''turn_failed''"
definition KindNote :: Kind where [enum_defs]: "KindNote = ''note''"

definition Kind_Valid :: "Kind \<Rightarrow> bool" where
  "Kind_Valid x \<longleftrightarrow> x \<in> {KindSessionOpened, KindForkPoint, KindUserMessage, KindAssistantMessage, KindPermissionDecision, KindRuntimePermissionDecision, KindToolResult, KindModelChange, KindModeChange, KindThinkingChange, KindTitleChange, KindCompaction, KindTurnInterrupted, KindTurnFailed, KindNote}"

type_synonym Mode = bytes

definition ModeStrict :: Mode where [enum_defs]: "ModeStrict = ''strict''"
definition ModePermissive :: Mode where [enum_defs]: "ModePermissive = ''permissive''"
definition ModeOff :: Mode where [enum_defs]: "ModeOff = ''off''"

definition Mode_Valid :: "Mode \<Rightarrow> bool" where
  "Mode_Valid x \<longleftrightarrow> x \<in> {ModeStrict, ModePermissive, ModeOff}"

type_synonym ThinkingLevel = bytes

definition ThinkingOff :: ThinkingLevel where [enum_defs]: "ThinkingOff = ''off''"
definition ThinkingLow :: ThinkingLevel where [enum_defs]: "ThinkingLow = ''low''"
definition ThinkingMedium :: ThinkingLevel where [enum_defs]: "ThinkingMedium = ''medium''"
definition ThinkingHigh :: ThinkingLevel where [enum_defs]: "ThinkingHigh = ''high''"

definition ThinkingLevel_Valid :: "ThinkingLevel \<Rightarrow> bool" where
  "ThinkingLevel_Valid x \<longleftrightarrow> x \<in> {ThinkingOff, ThinkingLow, ThinkingMedium, ThinkingHigh}"

type_synonym Source = bytes

definition SourceTyped :: Source where [enum_defs]: "SourceTyped = ''typed''"
definition SourceQueued :: Source where [enum_defs]: "SourceQueued = ''queued''"
definition SourceSteer :: Source where [enum_defs]: "SourceSteer = ''steer''"
definition SourceShell :: Source where [enum_defs]: "SourceShell = ''shell''"

definition Source_Valid :: "Source \<Rightarrow> bool" where
  "Source_Valid x \<longleftrightarrow> x \<in> {SourceTyped, SourceQueued, SourceSteer, SourceShell}"

type_synonym StopReason = bytes

definition StopEndTurn :: StopReason where [enum_defs]: "StopEndTurn = ''end_turn''"
definition StopToolUse :: StopReason where [enum_defs]: "StopToolUse = ''tool_use''"
definition StopMaxTokens :: StopReason where [enum_defs]: "StopMaxTokens = ''max_tokens''"
definition StopInterrupted :: StopReason where [enum_defs]: "StopInterrupted = ''interrupted''"
definition StopRefused :: StopReason where [enum_defs]: "StopRefused = ''refused''"
definition StopOther :: StopReason where [enum_defs]: "StopOther = ''other''"

definition StopReason_Valid :: "StopReason \<Rightarrow> bool" where
  "StopReason_Valid x \<longleftrightarrow> x \<in> {StopEndTurn, StopToolUse, StopMaxTokens, StopInterrupted, StopRefused, StopOther}"

type_synonym Outcome = bytes

definition OutcomeOK :: Outcome where [enum_defs]: "OutcomeOK = ''ok''"
definition OutcomeError :: Outcome where [enum_defs]: "OutcomeError = ''error''"
definition OutcomeKilled :: Outcome where [enum_defs]: "OutcomeKilled = ''killed''"
definition OutcomeLost :: Outcome where [enum_defs]: "OutcomeLost = ''lost''"

definition Outcome_Valid :: "Outcome \<Rightarrow> bool" where
  "Outcome_Valid x \<longleftrightarrow> x \<in> {OutcomeOK, OutcomeError, OutcomeKilled, OutcomeLost}"

type_synonym Decision = bytes

definition Allow :: Decision where [enum_defs]: "Allow = ''allow''"
definition Deny :: Decision where [enum_defs]: "Deny = ''deny''"

definition Decision_Valid :: "Decision \<Rightarrow> bool" where
  "Decision_Valid x \<longleftrightarrow> x \<in> {Allow, Deny}"

type_synonym DecidedBy = bytes

definition ByClass :: DecidedBy where [enum_defs]: "ByClass = ''class''"
definition ByMode :: DecidedBy where [enum_defs]: "ByMode = ''mode''"
definition ByAllowance :: DecidedBy where [enum_defs]: "ByAllowance = ''allowance''"
definition ByHook :: DecidedBy where [enum_defs]: "ByHook = ''hook''"
definition ByAsker :: DecidedBy where [enum_defs]: "ByAsker = ''asker''"
definition ByNoAsker :: DecidedBy where [enum_defs]: "ByNoAsker = ''no_asker''"

definition DecidedBy_Valid :: "DecidedBy \<Rightarrow> bool" where
  "DecidedBy_Valid x \<longleftrightarrow> x \<in> {ByClass, ByMode, ByAllowance, ByHook, ByAsker, ByNoAsker}"

type_synonym Scope = bytes

definition ScopeOnce :: Scope where [enum_defs]: "ScopeOnce = ''once''"
definition ScopeSession :: Scope where [enum_defs]: "ScopeSession = ''session''"

definition Scope_Valid :: "Scope \<Rightarrow> bool" where
  "Scope_Valid x \<longleftrightarrow> x \<in> {ScopeOnce, ScopeSession}"

type_synonym Interrupt = bytes

definition InterruptSteer :: Interrupt where [enum_defs]: "InterruptSteer = ''steer''"
definition InterruptCancel :: Interrupt where [enum_defs]: "InterruptCancel = ''cancel''"

definition Interrupt_Valid :: "Interrupt \<Rightarrow> bool" where
  "Interrupt_Valid x \<longleftrightarrow> x \<in> {InterruptSteer, InterruptCancel}"

type_synonym ErrorClass = bytes

definition ErrProvider :: ErrorClass where [enum_defs]: "ErrProvider = ''provider''"
definition ErrTransport :: ErrorClass where [enum_defs]: "ErrTransport = ''transport''"
definition ErrPlugin :: ErrorClass where [enum_defs]: "ErrPlugin = ''plugin''"
definition ErrInternal :: ErrorClass where [enum_defs]: "ErrInternal = ''internal''"

definition ErrorClass_Valid :: "ErrorClass \<Rightarrow> bool" where
  "ErrorClass_Valid x \<longleftrightarrow> x \<in> {ErrProvider, ErrTransport, ErrPlugin, ErrInternal}"

type_synonym NoteRole = bytes

definition NoteInfo :: NoteRole where [enum_defs]: "NoteInfo = ''info''"
definition NoteMuted :: NoteRole where [enum_defs]: "NoteMuted = ''muted''"
definition NoteWarn :: NoteRole where [enum_defs]: "NoteWarn = ''warn''"
definition NoteError :: NoteRole where [enum_defs]: "NoteError = ''error''"

definition NoteRole_Valid :: "NoteRole \<Rightarrow> bool" where
  "NoteRole_Valid x \<longleftrightarrow> x \<in> {NoteInfo, NoteMuted, NoteWarn, NoteError}"

type_synonym BlockType = bytes

definition BlockText :: BlockType where [enum_defs]: "BlockText = ''text''"
definition BlockImage :: BlockType where [enum_defs]: "BlockImage = ''image''"
definition BlockThinking :: BlockType where [enum_defs]: "BlockThinking = ''thinking''"
definition BlockToolUse :: BlockType where [enum_defs]: "BlockToolUse = ''tool_use''"

definition BlockType_Valid :: "BlockType \<Rightarrow> bool" where
  "BlockType_Valid x \<longleftrightarrow> x \<in> {BlockText, BlockImage, BlockThinking, BlockToolUse}"

type_synonym ExecutionKind = bytes

definition ExecutionNative :: ExecutionKind where [enum_defs]: "ExecutionNative = ''native''"
definition ExecutionRuntime :: ExecutionKind where [enum_defs]: "ExecutionRuntime = ''runtime''"

type_synonym RuntimeApprovalKind = bytes

definition RuntimeApprovalCommand :: RuntimeApprovalKind where [enum_defs]: "RuntimeApprovalCommand = ''command''"
definition RuntimeApprovalFileChange :: RuntimeApprovalKind where [enum_defs]: "RuntimeApprovalFileChange = ''file_change''"
definition RuntimeApprovalPermissions :: RuntimeApprovalKind where [enum_defs]: "RuntimeApprovalPermissions = ''permissions''"

definition RuntimeApprovalKind_Valid :: "RuntimeApprovalKind \<Rightarrow> bool" where
  "RuntimeApprovalKind_Valid x \<longleftrightarrow> x \<in> {RuntimeApprovalCommand, RuntimeApprovalFileChange, RuntimeApprovalPermissions}"

type_synonym RuntimeDecidedBy = bytes

definition RuntimeByAsker :: RuntimeDecidedBy where [enum_defs]: "RuntimeByAsker = ''asker''"
definition RuntimeByNoAsker :: RuntimeDecidedBy where [enum_defs]: "RuntimeByNoAsker = ''no_asker''"
definition RuntimeByDisconnect :: RuntimeDecidedBy where [enum_defs]: "RuntimeByDisconnect = ''disconnect''"
definition RuntimeByTimeout :: RuntimeDecidedBy where [enum_defs]: "RuntimeByTimeout = ''timeout''"
definition RuntimeByStale :: RuntimeDecidedBy where [enum_defs]: "RuntimeByStale = ''stale''"
definition RuntimeByRuntimeFailure :: RuntimeDecidedBy where [enum_defs]: "RuntimeByRuntimeFailure = ''runtime_failure''"
definition RuntimeByShutdown :: RuntimeDecidedBy where [enum_defs]: "RuntimeByShutdown = ''shutdown''"

definition RuntimeDecidedBy_Valid :: "RuntimeDecidedBy \<Rightarrow> bool" where
  "RuntimeDecidedBy_Valid x \<longleftrightarrow> x \<in> {RuntimeByAsker, RuntimeByNoAsker, RuntimeByDisconnect, RuntimeByTimeout, RuntimeByStale, RuntimeByRuntimeFailure, RuntimeByShutdown}"

section \<open>Values\<close>

record Workspace =
  ws_Root :: bytes
  ws_GitRoot :: bytes
  ws_ProjectID :: bytes

record ModelRef =
  mr_Provider :: bytes
  mr_Model :: bytes

definition zero_ModelRef :: ModelRef where
  "zero_ModelRef = \<lparr>mr_Provider = [], mr_Model = []\<rparr>"

text \<open>\<open>ModelRef.String\<close> and \<open>ParseModelRef\<close>.\<close>

definition ModelRef_String :: "ModelRef \<Rightarrow> bytes" where
  "ModelRef_String m = mr_Provider m @ '':'' @ mr_Model m"

definition ParseModelRef :: "bytes \<Rightarrow> ModelRef option" where
  "ParseModelRef s =
     (case index_of s '':'' of
        None \<Rightarrow> None
      | Some i \<Rightarrow>
          if i = 0 \<or> Suc i = length s then None
          else Some \<lparr>mr_Provider = take i s, mr_Model = drop (Suc i) s\<rparr>)"

record Usage =
  u_Input :: int64
  u_Output :: int64
  u_CacheRead :: int64
  u_CacheWrite :: int64

definition zero_Usage :: Usage where
  "zero_Usage = \<lparr>u_Input = 0, u_Output = 0, u_CacheRead = 0, u_CacheWrite = 0\<rparr>"

definition Usage_Add :: "Usage \<Rightarrow> Usage \<Rightarrow> Usage" where
  "Usage_Add u v =
     \<lparr>u_Input = u_Input u + u_Input v, u_Output = u_Output u + u_Output v,
      u_CacheRead = u_CacheRead u + u_CacheRead v, u_CacheWrite = u_CacheWrite u + u_CacheWrite v\<rparr>"

text \<open>A \<open>Block\<close> is a sum written as a struct: \<open>bl_Type\<close> selects which fields are meaningful.\<close>

record Block =
  bl_Type :: BlockType
  bl_Text :: bytes
  bl_MediaType :: bytes
  bl_SHA256 :: bytes
  bl_Signature :: bytes
  bl_ID :: bytes
  bl_Name :: bytes
  bl_Input :: bytes

definition zero_Block :: Block where
  "zero_Block =
     \<lparr>bl_Type = [], bl_Text = [], bl_MediaType = [], bl_SHA256 = [], bl_Signature = [],
      bl_ID = [], bl_Name = [], bl_Input = []\<rparr>"

definition TextBlock :: "bytes \<Rightarrow> Block" where
  "TextBlock s = zero_Block\<lparr>bl_Type := BlockText, bl_Text := s\<rparr>"

definition TextOf :: "Block list \<Rightarrow> bytes" where
  "TextOf blocks = join [c_nl] (map bl_Text (filter (\<lambda>b. bl_Type b = BlockText) blocks))"

definition ToolUseBlock :: "bytes \<Rightarrow> bytes \<Rightarrow> bytes \<Rightarrow> Block" where
  "ToolUseBlock i n inp = zero_Block\<lparr>bl_Type := BlockToolUse, bl_ID := i, bl_Name := n, bl_Input := inp\<rparr>"

datatype validate_error =
    TextEmpty
  | ImageIncomplete
  | ToolUseIncomplete
  | ToolUseInputNotJSON
  | InvalidBlockType bytes
  | BlockNotAllowed bytes Kind
  | Incomplete Kind
  | ParentPair
  | ParentSessionIDMalformed
  | ExecutionRequired
  | ExecutionInvalid
  | ForkParentRequired
  | InvalidSource bytes
  | NoBlocks
  | DecisionInputNotJSON
  | DenyScopeNotOnce
  | SessionScopeNotAskerAllow
  | ModelRequired
  | InvalidMode bytes
  | InvalidThinking bytes
  | TitleEmpty
  | CompactionIDsRequired
  | CompactionIDsReversed
  | TurnIDRequired
  | InvalidHow bytes
  | NoteIncomplete
  | InvalidRole bytes

definition Block_Validate :: "Block \<Rightarrow> validate_error option" where
  "Block_Validate b =
     (if bl_Type b = BlockText then (if bl_Text b = [] then Some TextEmpty else None)
      else if bl_Type b = BlockImage then
        (if bl_MediaType b = [] \<or> bl_SHA256 b = [] then Some ImageIncomplete else None)
      else if bl_Type b = BlockThinking then None
      else if bl_Type b = BlockToolUse then
        (if bl_ID b = [] \<or> bl_Name b = [] then Some ToolUseIncomplete
         else if bl_Input b \<noteq> [] \<and> \<not> json_valid (bl_Input b) then Some ToolUseInputNotJSON
         else None)
      else Some (InvalidBlockType (bl_Type b)))"

record Matcher =
  ma_Tool :: bytes
  ma_Prefix :: bytes

record Execution =
  ex_Kind :: ExecutionKind
  ex_Provider :: bytes
  ex_Runtime :: bytes

definition zero_Execution :: Execution where
  "zero_Execution = \<lparr>ex_Kind = [], ex_Provider = [], ex_Runtime = []\<rparr>"

definition Execution_Valid :: "Execution \<Rightarrow> bool" where
  "Execution_Valid e \<longleftrightarrow>
     (if ex_Kind e = ExecutionNative then ex_Provider e \<noteq> [] \<and> ex_Runtime e = []
      else if ex_Kind e = ExecutionRuntime then ex_Runtime e \<noteq> [] \<and> ex_Provider e = []
      else False)"

section \<open>Payloads\<close>

record SessionOpened =
  so_SchemaVersion :: int
  so_RudyVersion :: bytes
  so_Workspace :: Workspace
  so_Model :: ModelRef
  so_Thinking :: ThinkingLevel
  so_Mode :: Mode
  so_Agent :: bytes
  so_ParentSessionID :: bytes
  so_ParentToolUseID :: bytes
  so_Tools :: "bytes list option"
  so_Execution :: Execution

record ForkPoint =
  fp_ParentSessionID :: ulid
  fp_ParentEntryID :: ulid

record UserMessage =
  um_Source :: Source
  um_Content :: "Block list"

record AssistantMessage =
  am_Model :: ModelRef
  am_Thinking :: ThinkingLevel
  am_Content :: "Block list"
  am_Usage :: Usage
  am_StopReason :: StopReason
  am_StopReasonRaw :: bytes

record PermissionDecision =
  pd_ToolUseID :: bytes
  pd_Tool :: bytes
  pd_Mode :: Mode
  pd_Matcher :: Matcher
  pd_Decision :: Decision
  pd_DecidedBy :: DecidedBy
  pd_Scope :: Scope
  pd_Reason :: bytes
  pd_Input :: bytes

record RuntimePermissionDecision =
  rd_Runtime :: bytes
  rd_ThreadID :: bytes
  rd_TurnID :: bytes
  rd_ItemID :: bytes
  rd_RequestID :: bytes
  rd_ApprovalKind :: RuntimeApprovalKind
  rd_Decision :: Decision
  rd_DecidedBy :: RuntimeDecidedBy
  rd_Scope :: Scope
  rd_Reason :: bytes

record ToolResult =
  tr_ToolUseID :: bytes
  tr_Outcome :: Outcome
  tr_Content :: "Block list"
  tr_DurationMS :: int

record Compaction =
  co_Summary :: bytes
  co_FirstEntryID :: ulid
  co_LastEntryID :: ulid
  co_Model :: ModelRef
  co_Usage :: Usage

record TurnInterrupted =
  ti_TurnID :: ulid
  ti_How :: Interrupt

record TurnFailed =
  tf_TurnID :: ulid
  tf_Class :: ErrorClass
  tf_Message :: bytes
  tf_Retries :: int

record Note =
  no_Plugin :: bytes
  no_Text :: bytes
  no_Role :: NoteRole

text \<open>The closed set of payloads; the four one-field structs carry their field directly.\<close>

datatype payload =
    SessionOpened SessionOpened
  | ForkPoint ForkPoint
  | UserMessage UserMessage
  | AssistantMessage AssistantMessage
  | PermissionDecision PermissionDecision
  | RuntimePermissionDecision RuntimePermissionDecision
  | ToolResult ToolResult
  | ModelChange ModelRef
  | ModeChange Mode
  | ThinkingChange ThinkingLevel
  | TitleChange bytes
  | Compaction Compaction
  | TurnInterrupted TurnInterrupted
  | TurnFailed TurnFailed
  | Note Note

fun kind_of :: "payload \<Rightarrow> Kind" where
  "kind_of (SessionOpened _) = KindSessionOpened"
| "kind_of (ForkPoint _) = KindForkPoint"
| "kind_of (UserMessage _) = KindUserMessage"
| "kind_of (AssistantMessage _) = KindAssistantMessage"
| "kind_of (PermissionDecision _) = KindPermissionDecision"
| "kind_of (RuntimePermissionDecision _) = KindRuntimePermissionDecision"
| "kind_of (ToolResult _) = KindToolResult"
| "kind_of (ModelChange _) = KindModelChange"
| "kind_of (ModeChange _) = KindModeChange"
| "kind_of (ThinkingChange _) = KindThinkingChange"
| "kind_of (TitleChange _) = KindTitleChange"
| "kind_of (Compaction _) = KindCompaction"
| "kind_of (TurnInterrupted _) = KindTurnInterrupted"
| "kind_of (TurnFailed _) = KindTurnFailed"
| "kind_of (Note _) = KindNote"

section \<open>Validation\<close>

fun validate_blocks :: "Kind \<Rightarrow> BlockType list \<Rightarrow> Block list \<Rightarrow> validate_error option" where
  "validate_blocks k allowed [] = None"
| "validate_blocks k allowed (b # bs) =
     (case Block_Validate b of
        Some err \<Rightarrow> Some err
      | None \<Rightarrow>
          if bl_Type b \<in> set allowed then validate_blocks k allowed bs
          else Some (BlockNotAllowed (bl_Type b) k))"

fun Validate :: "(bytes \<Rightarrow> ulid option) \<Rightarrow> payload \<Rightarrow> validate_error option" where
  "Validate ParseStrict (SessionOpened v) =
     (if so_SchemaVersion v < 1 \<or> so_RudyVersion v = [] \<or> ws_Root (so_Workspace v) = [] \<or>
         so_Model v = zero_ModelRef \<or> \<not> ThinkingLevel_Valid (so_Thinking v) \<or>
         \<not> Mode_Valid (so_Mode v) \<or> so_Agent v = []
      then Some (Incomplete KindSessionOpened)
      else if (so_ParentSessionID v = []) \<noteq> (so_ParentToolUseID v = []) then Some ParentPair
      else if so_ParentSessionID v \<noteq> [] \<and> ParseStrict (so_ParentSessionID v) = None
      then Some ParentSessionIDMalformed
      else if so_SchemaVersion v \<ge> 3 \<and> \<not> Execution_Valid (so_Execution v) then Some ExecutionRequired
      else if so_SchemaVersion v < 3 \<and> ex_Kind (so_Execution v) \<noteq> [] \<and> \<not> Execution_Valid (so_Execution v)
      then Some ExecutionInvalid
      else None)"
| "Validate ParseStrict (ForkPoint v) =
     (if fp_ParentSessionID v = 0 \<or> fp_ParentEntryID v = 0 then Some ForkParentRequired else None)"
| "Validate ParseStrict (UserMessage v) =
     (if \<not> Source_Valid (um_Source v) then Some (InvalidSource (um_Source v))
      else if um_Content v = [] then Some NoBlocks
      else validate_blocks KindUserMessage [BlockText, BlockImage] (um_Content v))"
| "Validate ParseStrict (AssistantMessage v) =
     (if am_Model v = zero_ModelRef \<or> \<not> ThinkingLevel_Valid (am_Thinking v) \<or>
         \<not> StopReason_Valid (am_StopReason v)
      then Some (Incomplete KindAssistantMessage)
      else validate_blocks KindAssistantMessage [BlockText, BlockThinking, BlockToolUse] (am_Content v))"
| "Validate ParseStrict (PermissionDecision v) =
     (if pd_ToolUseID v = [] \<or> pd_Tool v = [] \<or> \<not> Mode_Valid (pd_Mode v) \<or>
         \<not> Decision_Valid (pd_Decision v) \<or> \<not> DecidedBy_Valid (pd_DecidedBy v) \<or>
         \<not> Scope_Valid (pd_Scope v) \<or> pd_Reason v = []
      then Some (Incomplete KindPermissionDecision)
      else if pd_Input v \<noteq> [] \<and> \<not> json_valid (pd_Input v) then Some DecisionInputNotJSON
      else None)"
| "Validate ParseStrict (RuntimePermissionDecision v) =
     (if rd_Runtime v = [] \<or> rd_ThreadID v = [] \<or> rd_TurnID v = [] \<or> rd_ItemID v = [] \<or>
         rd_RequestID v = [] \<or> \<not> RuntimeApprovalKind_Valid (rd_ApprovalKind v) \<or>
         \<not> Decision_Valid (rd_Decision v) \<or> \<not> RuntimeDecidedBy_Valid (rd_DecidedBy v) \<or>
         \<not> Scope_Valid (rd_Scope v) \<or> rd_Reason v = []
      then Some (Incomplete KindRuntimePermissionDecision)
      else if rd_Decision v = Deny \<and> rd_Scope v \<noteq> ScopeOnce then Some DenyScopeNotOnce
      else if rd_Scope v = ScopeSession \<and> (rd_Decision v \<noteq> Allow \<or> rd_DecidedBy v \<noteq> RuntimeByAsker)
      then Some SessionScopeNotAskerAllow
      else None)"
| "Validate ParseStrict (ToolResult v) =
     (if tr_ToolUseID v = [] \<or> \<not> Outcome_Valid (tr_Outcome v) then Some (Incomplete KindToolResult)
      else validate_blocks KindToolResult [BlockText, BlockImage] (tr_Content v))"
| "Validate ParseStrict (ModelChange m) = (if m = zero_ModelRef then Some ModelRequired else None)"
| "Validate ParseStrict (ModeChange m) = (if \<not> Mode_Valid m then Some (InvalidMode m) else None)"
| "Validate ParseStrict (ThinkingChange l) =
     (if \<not> ThinkingLevel_Valid l then Some (InvalidThinking l) else None)"
| "Validate ParseStrict (TitleChange t) = (if t = [] then Some TitleEmpty else None)"
| "Validate ParseStrict (Compaction v) =
     (if co_FirstEntryID v = 0 \<or> co_LastEntryID v = 0 then Some CompactionIDsRequired
      else if co_FirstEntryID v > co_LastEntryID v then Some CompactionIDsReversed
      else if co_Model v = zero_ModelRef then Some ModelRequired
      else None)"
| "Validate ParseStrict (TurnInterrupted v) =
     (if ti_TurnID v = 0 then Some TurnIDRequired
      else if \<not> Interrupt_Valid (ti_How v) then Some (InvalidHow (ti_How v))
      else None)"
| "Validate ParseStrict (TurnFailed v) =
     (if tf_TurnID v = 0 \<or> \<not> ErrorClass_Valid (tf_Class v) \<or> tf_Message v = [] \<or> tf_Retries v < 0
      then Some (Incomplete KindTurnFailed) else None)"
| "Validate ParseStrict (Note v) =
     (if no_Plugin v = [] \<or> no_Text v = [] then Some NoteIncomplete
      else if \<not> NoteRole_Valid (no_Role v) then Some (InvalidRole (no_Role v))
      else None)"

record Entry =
  en_ID :: ulid
  en_At :: Time
  en_Kind :: Kind
  en_Payload :: payload

end
