(* ===== verification/Entry_JSON.thy ===== *)
theory Entry_JSON
  imports Entry
begin

text \<open>
  How an entry becomes a line of \<open>entries.jsonl\<close>: \<open>internal/session/entry_json.go\<close>. The
  scalar fields go through \<open>encoding/json\<close>; a content array and a hook's replacement input are
  written by hand so that the bytes a provider sent are copied as they are, compacted only when
  they carry a raw newline. The theorem of the file is that a marshalled line never holds a
  newline: one entry is one line, whatever a provider or a hook wrote.

  The third-party ULID package is the record \<open>ulid_lib\<close>: its \<open>String\<close>, \<open>ParseStrict\<close> and
  \<open>UnmarshalText\<close>, which \<open>encoding/json\<close> calls for a field of its type.
\<close>

record ulid_lib =
  ulid_String :: "ulid \<Rightarrow> bytes"
  ulid_ParseStrict :: "bytes \<Rightarrow> ulid option"
  ulid_UnmarshalText :: "bytes \<Rightarrow> ulid option"

text \<open>What the code relies on: a ULID's text is 26 characters of Crockford's base 32.\<close>

definition ulid_text_ok :: "ulid_lib \<Rightarrow> bool" where
  "ulid_text_ok U \<longleftrightarrow> (\<forall>u. printable (ulid_String U u))"

section \<open>Struct encoding\<close>

definition json_fields :: "(bytes \<times> bytes) list \<Rightarrow> bytes" where
  "json_fields fs = join '','' (map (\<lambda>(k, v). json_string k @ '':'' @ v) fs)"

definition json_object :: "(bytes \<times> bytes) list \<Rightarrow> bytes" where
  "json_object fs = ''{'' @ json_fields fs @ ''}''"

definition json_strings :: "bytes list option \<Rightarrow> bytes" where
  "json_strings xs =
     (case xs of None \<Rightarrow> lit_null | Some ys \<Rightarrow> ''['' @ join '','' (map json_string ys) @ '']'')"

definition json_int64 :: "int64 \<Rightarrow> bytes" where
  "json_int64 w = show_int (sint w)"

definition json_Workspace :: "Workspace \<Rightarrow> bytes" where
  "json_Workspace w =
     json_object [(''root'', json_string (ws_Root w)), (''git_root'', json_string (ws_GitRoot w)),
                  (''project_id'', json_string (ws_ProjectID w))]"

definition json_ModelRef :: "ModelRef \<Rightarrow> bytes" where
  "json_ModelRef m =
     json_object [(''provider'', json_string (mr_Provider m)), (''model'', json_string (mr_Model m))]"

definition json_Usage :: "Usage \<Rightarrow> bytes" where
  "json_Usage u =
     json_object [(''input'', json_int64 (u_Input u)), (''output'', json_int64 (u_Output u)),
                  (''cache_read'', json_int64 (u_CacheRead u)), (''cache_write'', json_int64 (u_CacheWrite u))]"

definition json_Matcher :: "Matcher \<Rightarrow> bytes" where
  "json_Matcher m = json_object [(''tool'', json_string (ma_Tool m)), (''prefix'', json_string (ma_Prefix m))]"

text \<open>\<open>omitempty\<close>: an empty string is left out.\<close>

definition omitempty :: "bytes \<Rightarrow> bytes \<Rightarrow> (bytes \<times> bytes) list" where
  "omitempty k v = (if v = [] then [] else [(k, json_string v)])"

definition json_Execution :: "Execution \<Rightarrow> bytes" where
  "json_Execution e =
     json_object ((''kind'', json_string (ex_Kind e)) #
       omitempty ''provider'' (ex_Provider e) @ omitempty ''runtime'' (ex_Runtime e))"

text \<open>\<open>SessionOpened.MarshalJSON\<close>: the execution is written from schema 3 on.\<close>

definition SessionOpened_fields :: "SessionOpened \<Rightarrow> (bytes \<times> bytes) list" where
  "SessionOpened_fields s =
     [(''schema_version'', show_int (so_SchemaVersion s)),
      (''rudy_version'', json_string (so_RudyVersion s)),
      (''workspace'', json_Workspace (so_Workspace s)),
      (''model'', json_ModelRef (so_Model s)),
      (''thinking'', json_string (so_Thinking s)),
      (''mode'', json_string (so_Mode s)),
      (''agent'', json_string (so_Agent s)),
      (''parent_session_id'', json_string (so_ParentSessionID s)),
      (''parent_tool_use_id'', json_string (so_ParentToolUseID s)),
      (''tools'', json_strings (so_Tools s))] @
     (if so_SchemaVersion s \<ge> 3 then [(''execution'', json_Execution (so_Execution s))] else [])"

section \<open>Splitting a payload\<close>

text \<open>
  \<open>splitPayload\<close>: the blocks and the input that are written by hand, the fields of the scalar
  view, and whether the payload has a content array.
\<close>

fun splitPayload :: "ulid_lib \<Rightarrow> payload \<Rightarrow> Block list \<times> bytes \<times> (bytes \<times> bytes) list \<times> bool" where
  "splitPayload U (UserMessage v) =
     (um_Content v, [], [(''source'', json_string (um_Source v))], True)"
| "splitPayload U (AssistantMessage v) =
     (am_Content v, [],
      [(''model'', json_ModelRef (am_Model v)), (''thinking'', json_string (am_Thinking v)),
       (''usage'', json_Usage (am_Usage v)), (''stop_reason'', json_string (am_StopReason v)),
       (''stop_reason_raw'', json_string (am_StopReasonRaw v))], True)"
| "splitPayload U (ToolResult v) =
     (tr_Content v, [],
      [(''tool_use_id'', json_string (tr_ToolUseID v)), (''outcome'', json_string (tr_Outcome v)),
       (''duration_ms'', show_int (tr_DurationMS v))], True)"
| "splitPayload U (PermissionDecision v) =
     ([], pd_Input v,
      [(''tool_use_id'', json_string (pd_ToolUseID v)), (''tool'', json_string (pd_Tool v)),
       (''mode'', json_string (pd_Mode v)), (''matcher'', json_Matcher (pd_Matcher v)),
       (''decision'', json_string (pd_Decision v)), (''decided_by'', json_string (pd_DecidedBy v)),
       (''scope'', json_string (pd_Scope v)), (''reason'', json_string (pd_Reason v))], False)"
| "splitPayload U (SessionOpened v) = ([], [], SessionOpened_fields v, False)"
| "splitPayload U (ForkPoint v) =
     ([], [], [(''parent_session_id'', json_string (ulid_String U (fp_ParentSessionID v))),
               (''parent_entry_id'', json_string (ulid_String U (fp_ParentEntryID v)))], False)"
| "splitPayload U (RuntimePermissionDecision v) =
     ([], [],
      [(''runtime'', json_string (rd_Runtime v)), (''thread_id'', json_string (rd_ThreadID v)),
       (''turn_id'', json_string (rd_TurnID v)), (''item_id'', json_string (rd_ItemID v)),
       (''request_id'', json_string (rd_RequestID v)),
       (''approval_kind'', json_string (rd_ApprovalKind v)),
       (''decision'', json_string (rd_Decision v)), (''decided_by'', json_string (rd_DecidedBy v)),
       (''scope'', json_string (rd_Scope v)), (''reason'', json_string (rd_Reason v))], False)"
| "splitPayload U (ModelChange m) = ([], [], [(''model'', json_ModelRef m)], False)"
| "splitPayload U (ModeChange m) = ([], [], [(''mode'', json_string m)], False)"
| "splitPayload U (ThinkingChange l) = ([], [], [(''thinking'', json_string l)], False)"
| "splitPayload U (TitleChange t) = ([], [], [(''title'', json_string t)], False)"
| "splitPayload U (Compaction v) =
     ([], [],
      [(''summary'', json_string (co_Summary v)),
       (''first_entry_id'', json_string (ulid_String U (co_FirstEntryID v))),
       (''last_entry_id'', json_string (ulid_String U (co_LastEntryID v))),
       (''model'', json_ModelRef (co_Model v)), (''usage'', json_Usage (co_Usage v))], False)"
| "splitPayload U (TurnInterrupted v) =
     ([], [], [(''turn_id'', json_string (ulid_String U (ti_TurnID v))), (''how'', json_string (ti_How v))], False)"
| "splitPayload U (TurnFailed v) =
     ([], [],
      [(''turn_id'', json_string (ulid_String U (tf_TurnID v))), (''class'', json_string (tf_Class v)),
       (''message'', json_string (tf_Message v)), (''retries'', show_int (tf_Retries v))], False)"
| "splitPayload U (Note v) =
     ([], [],
      [(''plugin'', json_string (no_Plugin v)), (''text'', json_string (no_Text v)),
       (''role'', json_string (no_Role v))], False)"

section \<open>Lines\<close>

datatype marshal_error =
    KindMismatch Kind Kind
  | InvalidPayload validate_error
  | RawNotJSON
  | BadBlockType bytes

definition appendRawJSON :: "bytes \<Rightarrow> (marshal_error, bytes) result" where
  "appendRawJSON raw =
     (if c_nl \<notin> set raw \<and> c_cr \<notin> set raw then Inr raw
      else case json_compact raw of None \<Rightarrow> Inl RawNotJSON | Some t \<Rightarrow> Inr t)"

definition block_text :: "Block \<Rightarrow> (marshal_error, bytes) result" where
  "block_text b =
     (if bl_Type b = BlockText then
        Inr (''{'' @ json_fields [(''type'', json_string ''text''), (''text'', json_string (bl_Text b))] @ ''}'')
      else if bl_Type b = BlockImage then
        Inr (''{'' @ json_fields [(''type'', json_string ''image''), (''media_type'', json_string (bl_MediaType b)),
                         (''sha256'', json_string (bl_SHA256 b))] @ ''}'')
      else if bl_Type b = BlockThinking then
        Inr (''{'' @ json_fields [(''type'', json_string ''thinking''), (''text'', json_string (bl_Text b)),
                         (''signature'', json_string (bl_Signature b))] @ ''}'')
      else if bl_Type b = BlockToolUse then
        (let pre = [(''type'', json_string ''tool_use''), (''id'', json_string (bl_ID b)), (''name'', json_string (bl_Name b))] in
         if bl_Input b = [] then Inr (''{'' @ json_fields (pre @ [(''input'', ''{}'')]) @ ''}'')
         else if \<not> json_valid (bl_Input b) then Inl RawNotJSON
         else case appendRawJSON (bl_Input b) of
             Inl e \<Rightarrow> Inl e
           | Inr t \<Rightarrow> Inr (''{'' @ json_fields (pre @ [(''input'', t)]) @ ''}''))
      else Inl (BadBlockType (bl_Type b)))"

fun block_texts :: "Block list \<Rightarrow> (marshal_error, bytes list) result" where
  "block_texts [] = Inr []"
| "block_texts (b # bs) =
     (case block_text b of
        Inl e \<Rightarrow> Inl e
      | Inr t \<Rightarrow> (case block_texts bs of Inl e \<Rightarrow> Inl e | Inr ts \<Rightarrow> Inr (t # ts)))"

definition appendBlocks :: "Block list \<Rightarrow> (marshal_error, bytes) result" where
  "appendBlocks bs =
     (case block_texts bs of Inl e \<Rightarrow> Inl e | Inr ts \<Rightarrow> Inr (''['' @ join '','' ts @ '']''))"

definition Entry_MarshalJSON :: "ulid_lib \<Rightarrow> Entry \<Rightarrow> (marshal_error, bytes) result" where
  "Entry_MarshalJSON U e =
     (if en_Kind e \<noteq> kind_of (en_Payload e) then Inl (KindMismatch (en_Kind e) (kind_of (en_Payload e)))
      else case Validate (ulid_ParseStrict U) (en_Payload e) of
          Some err \<Rightarrow> Inl (InvalidPayload err)
        | None \<Rightarrow>
            (case splitPayload U (en_Payload e) of (blocks, input, rest, has) \<Rightarrow>
               let quoted = (\<lambda>s. c_quote # s @ [c_quote]);
                   head = ''{'' @ quoted ''id'' @ '':'' @ quoted (ulid_String U (en_ID e)) @ '','' @
                          quoted ''at'' @ '':'' @ quoted (format_time (en_At e)) @ '','' @
                          quoted ''kind'' @ '':'' @ quoted (en_Kind e);
                   interior = json_fields rest;
                   out1 = head @ (if interior = [] then [] else '','' @ interior) in
               case (if input = [] then Inr out1
                     else case appendRawJSON input of
                         Inl err \<Rightarrow> Inl err
                       | Inr t \<Rightarrow> Inr (out1 @ '','' @ quoted ''input'' @ '':'' @ t)) of
                 Inl err \<Rightarrow> Inl err
               | Inr out2 \<Rightarrow>
                   if has then
                     (case appendBlocks blocks of
                        Inl err \<Rightarrow> Inl err
                      | Inr t \<Rightarrow> Inr (out2 @ '','' @ quoted ''content'' @ '':'' @ t @ ''}''))
                   else Inr (out2 @ ''}'')))"

section \<open>One entry is one line\<close>

definition one_line :: "bytes \<Rightarrow> bool" where
  "one_line s \<longleftrightarrow> c_nl \<notin> set s"

lemma one_line_simps [simp]:
  "one_line []" "one_line (c # s) \<longleftrightarrow> c \<noteq> c_nl \<and> one_line s"
  "one_line (s @ t) \<longleftrightarrow> one_line s \<and> one_line t"
  by (auto simp: one_line_def)

lemma printable_one_line: "printable s \<Longrightarrow> one_line s"
  by (auto simp: printable_def one_line_def)

lemma one_line_join: "one_line sep \<Longrightarrow> (\<And>x. x \<in> set xs \<Longrightarrow> one_line x) \<Longrightarrow> one_line (join sep xs)"
  by (induction xs) (auto simp: join_Cons)

lemma rune_len_cont:
  assumes "rune_len (c # cs) = Suc n" and "128 \<le> byte c" and "i < n"
  shows "128 \<le> byte_at cs i"
proof -
  from assms(3) have "i = 0 \<or> i = 1 \<or> i = 2 \<or> 3 \<le> i" by arith
  then show ?thesis
    using assms by (auto simp: rune_len.simps Let_def split: if_splits)
qed

lemma rune_printable:
  assumes "rune_len (c # cs) = Suc n" and "128 \<le> byte c"
  shows "printable (take n cs)"
  unfolding printable_def
proof
  fix x
  assume "x \<in> set (take n cs)"
  then obtain i where i: "i < n" "i < length cs" "x = cs ! i"
    by (auto simp: in_set_conv_nth)
  with rune_len_cont[OF assms i(1)] show "32 \<le> byte x" by (simp add: byte_at_def)
qed

lemma hex_digit_printable [simp]: "n < 16 \<Longrightarrow> 32 \<le> byte (hex_digit n)"
  by (auto simp: hex_digit_def)

lemma escape_text_printable: "printable (escape_text s)"
proof (induction s rule: escape_text.induct)
  case 1
  then show ?case by simp
next
  case (2 c cs)
  then show ?case
    by (auto simp: escape_byte_printable rune_printable split: nat.split)
qed

lemma json_string_printable [simp]: "printable (json_string s)"
  by (simp add: json_string_def escape_text_printable)

lemma show_int_printable [simp]: "printable (show_int i)"
  using show_nat_digits by (auto simp: show_int_def intro!: printable_digits)

lemma json_int64_printable [simp]: "printable (json_int64 w)"
  by (simp add: json_int64_def)

lemma json_fields_printable [simp]:
  "(\<And>k v. (k, v) \<in> set fs \<Longrightarrow> printable v) \<Longrightarrow> printable (json_fields fs)"
  by (auto simp: json_fields_def intro!: printable_join)

lemma json_fields_one_line:
  "(\<And>k v. (k, v) \<in> set fs \<Longrightarrow> one_line v) \<Longrightarrow> one_line (json_fields fs)"
  by (auto simp: json_fields_def printable_one_line intro!: one_line_join)

lemma json_object_printable [simp]:
  "(\<And>k v. (k, v) \<in> set fs \<Longrightarrow> printable v) \<Longrightarrow> printable (json_object fs)"
  by (auto simp: json_object_def)

lemma json_strings_printable [simp]: "printable (json_strings xs)"
  by (auto simp: json_strings_def lit_null_def intro!: printable_join split: option.split)

lemma json_struct_printable [simp]:
  "printable (json_Workspace w)" "printable (json_ModelRef m)" "printable (json_Usage u)"
  "printable (json_Matcher ma)" "printable (json_Execution e)"
  by (auto simp: json_Workspace_def json_ModelRef_def json_Usage_def json_Matcher_def
      json_Execution_def omitempty_def intro!: json_object_printable)

lemma split_fields_printable:
  "splitPayload U p = (bs, inp, rest, has) \<Longrightarrow> (k, v) \<in> set rest \<Longrightarrow> printable v"
  by (cases p) (auto simp: SessionOpened_fields_def split: if_splits)

lemma appendRawJSON_one_line: "appendRawJSON raw = Inr t \<Longrightarrow> one_line t"
  by (auto simp: appendRawJSON_def one_line_def split: if_splits option.splits
      dest!: json_compact_printable printable_one_line)

lemma block_text_one_line: "block_text b = Inr t \<Longrightarrow> one_line t"
  by (auto simp: block_text_def Let_def appendRawJSON_one_line printable_one_line
      intro!: json_fields_one_line split: if_splits sum.splits)

lemma block_texts_one_line: "block_texts bs = Inr ts \<Longrightarrow> t \<in> set ts \<Longrightarrow> one_line t"
  by (induction bs arbitrary: ts) (auto simp: block_text_one_line split: sum.splits)

lemma appendBlocks_one_line: "appendBlocks bs = Inr t \<Longrightarrow> one_line t"
  by (auto simp: appendBlocks_def block_texts_one_line intro!: one_line_join split: sum.splits)

lemma kind_of_one_line: "one_line (kind_of p)"
  by (cases p) (simp_all add: enum_defs)

lemma marshal_one_line:
  assumes "ulid_text_ok U" and "Entry_MarshalJSON U e = Inr line"
  shows "one_line line"
proof -
  obtain bs inp rest has where sp: "splitPayload U (en_Payload e) = (bs, inp, rest, has)"
    by (metis prod_cases4)
  have rest: "one_line (json_fields rest)"
    using split_fields_printable[OF sp] by (blast intro: json_fields_one_line printable_one_line)
  have id: "one_line (ulid_String U (en_ID e))"
    using assms(1) by (simp add: ulid_text_ok_def printable_one_line)
  from assms(2) sp rest id show ?thesis
    by (auto simp: printable_one_line Entry_MarshalJSON_def Let_def kind_of_one_line appendRawJSON_one_line
        appendBlocks_one_line split: if_splits sum.splits option.splits)
qed

section \<open>A valid payload marshals\<close>

lemma json_valid_compact: "json_valid s \<Longrightarrow> \<exists>t. json_compact s = Some t"
  by (auto simp: json_valid_def json_compact_def)

lemma appendRawJSON_valid: "json_valid s \<Longrightarrow> \<exists>t. appendRawJSON s = Inr t"
  using json_valid_compact[of s] by (auto simp: appendRawJSON_def split: option.splits)

lemma block_text_valid: "Block_Validate b = None \<Longrightarrow> \<exists>t. block_text b = Inr t"
  using appendRawJSON_valid[of "bl_Input b"]
  by (auto simp: Block_Validate_def block_text_def Let_def split: if_splits sum.splits)

lemma block_texts_valid:
  "validate_blocks k allowed bs = None \<Longrightarrow> \<exists>ts. block_texts bs = Inr ts"
proof (induction bs)
  case Nil
  then show ?case by simp
next
  case (Cons b bs)
  then obtain t ts where "block_text b = Inr t" "block_texts bs = Inr ts"
    using block_text_valid[of b] by (auto split: option.splits if_splits)
  then show ?case by simp
qed

lemma splitPayload_valid:
  assumes "Validate P p = None" and "splitPayload U p = (bs, inp, rest, has)"
  shows "(inp = [] \<or> json_valid inp) \<and> (\<exists>ts. block_texts bs = Inr ts)"
  using assms by (cases p) (auto intro: block_texts_valid split: if_splits)

lemma marshal_total:
  assumes "en_Kind e = kind_of (en_Payload e)" and "Validate (ulid_ParseStrict U) (en_Payload e) = None"
  shows "\<exists>line. Entry_MarshalJSON U e = Inr line"
proof -
  obtain bs inp rest has where sp: "splitPayload U (en_Payload e) = (bs, inp, rest, has)"
    by (metis prod_cases4)
  from splitPayload_valid[OF assms(2) sp] obtain ts where
    inp: "inp = [] \<or> (\<exists>t. appendRawJSON inp = Inr t)" and "block_texts bs = Inr ts"
    using appendRawJSON_valid by blast
  then have "\<exists>t. appendBlocks bs = Inr t" by (simp add: appendBlocks_def)
  with inp assms sp show ?thesis
    by (auto simp: Entry_MarshalJSON_def Let_def split: sum.split)
qed

end
