(* ===== verification/Log.thy ===== *)
theory Log
  imports Entry_JSON
begin

text \<open>
  The append-only file of one session, \<open>internal/session/log.go\<close>, at the level of its bytes.
  \<open>lg_written\<close> is every byte the buffered writer accepted, in order; \<open>lg_synced\<close> is how many of
  them the last successful \<open>fsync\<close> covered. What the disk holds after a crash is a prefix of the
  accepted bytes that is at least as long as the synced part: the buffer and the kernel may have
  written any of the rest. The outcome of each write and each sync is an argument, so a failure
  at any byte is a case of the model. An error of the buffered writer is sticky, as in
  \<open>bufio.Writer\<close>.
\<close>

record Log =
  lg_open :: bool
  lg_broken :: bool
  lg_written :: bytes
  lg_synced :: nat

datatype log_error = LogMarshal marshal_error | LogClosed | LogIO

text \<open>A write accepts everything, or fails having accepted the given number of bytes.\<close>

datatype write_io = WriteOK | WriteFails nat

datatype sync_io = SyncOK | FlushFails | FsyncFails

text \<open>\<open>OpenLog\<close> over a file that already holds \<open>file\<close>.\<close>

definition OpenLog :: "bytes \<Rightarrow> Log" where
  "OpenLog file = \<lparr>lg_open = True, lg_broken = False, lg_written = file, lg_synced = length file\<rparr>"

definition Log_Append :: "ulid_lib \<Rightarrow> write_io \<Rightarrow> Log \<Rightarrow> Entry \<Rightarrow> Log \<times> log_error option" where
  "Log_Append U io l e =
     (case Entry_MarshalJSON U e of
        Inl err \<Rightarrow> (l, Some (LogMarshal err))
      | Inr line \<Rightarrow>
          if \<not> lg_open l then (l, Some LogClosed)
          else if lg_broken l then (l, Some LogIO)
          else (case io of
              WriteOK \<Rightarrow> (l\<lparr>lg_written := lg_written l @ line @ [c_nl]\<rparr>, None)
            | WriteFails k \<Rightarrow>
                (l\<lparr>lg_written := lg_written l @ take (min k (length line)) line, lg_broken := True\<rparr>,
                 Some LogIO)))"

definition Log_syncLocked :: "sync_io \<Rightarrow> Log \<Rightarrow> Log \<times> log_error option" where
  "Log_syncLocked io l =
     (if lg_broken l then (l, Some LogIO)
      else (case io of
          SyncOK \<Rightarrow> (l\<lparr>lg_synced := length (lg_written l)\<rparr>, None)
        | FlushFails \<Rightarrow> (l\<lparr>lg_broken := True\<rparr>, Some LogIO)
        | FsyncFails \<Rightarrow> (l, Some LogIO)))"

definition Log_Sync :: "sync_io \<Rightarrow> Log \<Rightarrow> Log \<times> log_error option" where
  "Log_Sync io l = (if \<not> lg_open l then (l, Some LogClosed) else Log_syncLocked io l)"

text \<open>\<open>Close\<close> syncs, closes whatever the sync answered, and reports the first failure.\<close>

definition Log_Close :: "sync_io \<Rightarrow> bool \<Rightarrow> Log \<Rightarrow> Log \<times> log_error option" where
  "Log_Close io close_ok l =
     (if \<not> lg_open l then (l, None)
      else (case Log_syncLocked io l of
          (l', err) \<Rightarrow>
            (l'\<lparr>lg_open := False\<rparr>,
             if err \<noteq> None then err else if close_ok then None else Some LogIO)))"

text \<open>What a crash can leave on disk: the first \<open>n\<close> bytes, for an \<open>n\<close> from the synced length on.\<close>

definition crash_image :: "Log \<Rightarrow> nat \<Rightarrow> bytes" where
  "crash_image l n = take (max n (lg_synced l)) (lg_written l)"

section \<open>The log's invariant\<close>

text \<open>The file of a list of lines.\<close>

definition file_of :: "bytes list \<Rightarrow> bytes" where
  "file_of ls = concat (map (\<lambda>l. l @ [c_nl]) ls)"

lemma file_of_simps [simp]:
  "file_of [] = []" "file_of (l # ls) = l @ c_nl # file_of ls"
  "file_of (ls @ ms) = file_of ls @ file_of ms"
  by (simp_all add: file_of_def)

text \<open>
  The accepted bytes are whole lines, the lines of \<open>ls\<close>, and then nothing, or, once the writer
  is broken, the start of one line with no newline in it. The synced length is within them.
\<close>

definition log_inv :: "bytes list \<Rightarrow> Log \<Rightarrow> bool" where
  "log_inv ls l \<longleftrightarrow>
     (\<exists>part. lg_written l = file_of ls @ part \<and> one_line part \<and> (\<not> lg_broken l \<longrightarrow> part = [])) \<and>
     lg_synced l \<le> length (lg_written l) \<and> (\<forall>x\<in>set ls. one_line x)"

lemma OpenLog_inv: "(\<And>x. x \<in> set ls \<Longrightarrow> one_line x) \<Longrightarrow> log_inv ls (OpenLog (file_of ls))"
  by (auto simp: log_inv_def OpenLog_def)

lemma one_line_take: "one_line s \<Longrightarrow> one_line (take n s)"
  by (auto simp: one_line_def dest: in_set_takeD)

lemma Log_Append_ok:
  assumes "Log_Append U io l e = (l', None)"
  obtains line where "Entry_MarshalJSON U e = Inr line" "lg_open l" "\<not> lg_broken l"
    "l' = l\<lparr>lg_written := lg_written l @ line @ [c_nl]\<rparr>"
  using assms by (auto simp: Log_Append_def split: sum.splits if_splits write_io.splits)

lemma Log_Append_inv:
  assumes "ulid_text_ok U" and "log_inv ls l" and "Log_Append U io l e = (l', r)"
  shows "log_inv (case r of None \<Rightarrow> ls @ [projr (Entry_MarshalJSON U e)] | Some _ \<Rightarrow> ls) l'"
proof (cases "Entry_MarshalJSON U e")
  case (Inl err)
  with assms show ?thesis by (auto simp: Log_Append_def)
next
  case (Inr line)
  with assms(1) have "one_line line" by (rule marshal_one_line)
  with Inr assms(2,3) show ?thesis
    by (fastforce simp: Log_Append_def log_inv_def one_line_take split: if_splits write_io.splits)
qed

lemma Log_syncLocked_written:
  "Log_syncLocked io l = (l', r) \<Longrightarrow> lg_written l' = lg_written l \<and> lg_open l' = lg_open l"
  by (auto simp: Log_syncLocked_def split: if_splits sync_io.splits)

lemma Log_syncLocked_inv: "log_inv ls l \<Longrightarrow> Log_syncLocked io l = (l', r) \<Longrightarrow> log_inv ls l'"
  by (auto simp: Log_syncLocked_def log_inv_def split: if_splits sync_io.splits)

lemma Log_Sync_inv: "log_inv ls l \<Longrightarrow> Log_Sync io l = (l', r) \<Longrightarrow> log_inv ls l'"
  by (auto simp: Log_Sync_def Log_syncLocked_inv split: if_splits)

lemma log_inv_open [simp]: "log_inv ls (l\<lparr>lg_open := b\<rparr>) = log_inv ls l"
  by (simp add: log_inv_def)

lemma Log_Close_inv: "log_inv ls l \<Longrightarrow> Log_Close io c l = (l', r) \<Longrightarrow> log_inv ls l'"
  by (auto simp: Log_Close_def Log_syncLocked_inv split: if_splits prod.splits)

lemma Log_Sync_ok:
  assumes "Log_Sync io l = (l', None)"
  shows "lg_synced l' = length (lg_written l') \<and> lg_written l' = lg_written l"
  using assms by (auto simp: Log_Sync_def Log_syncLocked_def split: if_splits sync_io.splits)

text \<open>Nothing a log does takes a synced byte back.\<close>

lemma Log_Append_synced: "Log_Append U io l e = (l', r) \<Longrightarrow>
  lg_synced l' = lg_synced l \<and> (\<exists>t. lg_written l' = lg_written l @ t)"
  by (auto simp: Log_Append_def split: sum.splits if_splits write_io.splits)

lemma Log_syncLocked_synced:
  "Log_syncLocked io l = (l', r) \<Longrightarrow> lg_synced l \<le> length (lg_written l) \<Longrightarrow>
    lg_synced l \<le> lg_synced l' \<and> lg_synced l' \<le> length (lg_written l')"
  by (auto simp: Log_syncLocked_def split: if_splits sync_io.splits)

section \<open>Durability\<close>

text \<open>
  What a client relies on when it syncs: accepted bytes are only ever added to, and the synced
  length never goes back. Under these two laws the bytes that are synced now start what any later
  crash leaves on disk.
\<close>

locale durable_store =
  fixes step :: "'l \<Rightarrow> 'o \<Rightarrow> 'l"
    and written :: "'l \<Rightarrow> bytes"
    and synced :: "'l \<Rightarrow> nat"
  assumes written_grows: "synced l \<le> length (written l) \<Longrightarrow> prefix (written l) (written (step l x))"
    and synced_grows: "synced l \<le> length (written l) \<Longrightarrow>
      synced l \<le> synced (step l x) \<and> synced (step l x) \<le> length (written (step l x))"
begin

lemma run_grows:
  "synced l \<le> length (written l) \<Longrightarrow>
    prefix (written l) (written (run_ops step l xs)) \<and> synced l \<le> synced (run_ops step l xs)"
proof (induction xs arbitrary: l)
  case Nil
  then show ?case by simp
next
  case (Cons x xs)
  note 1 = written_grows[OF Cons.prems, of x] and 2 = synced_grows[OF Cons.prems, of x]
  from Cons.IH[of "step l x"] 2 have
    "prefix (written (step l x)) (written (run_ops step (step l x) xs))"
    "synced (step l x) \<le> synced (run_ops step (step l x) xs)" by auto
  with 1 2 show ?case by (auto intro: prefix_order.trans)
qed

lemma synced_survives:
  assumes "synced l = length (written l)" and "n \<ge> synced (run_ops step l xs)"
  shows "prefix (written l) (take n (written (run_ops step l xs)))"
proof -
  from run_grows[of l xs] assms(1) obtain t where
    t: "written (run_ops step l xs) = written l @ t" "length (written l) \<le> synced (run_ops step l xs)"
    by (auto simp: prefix_def)
  with assms(2) show ?thesis by (simp add: take_append)
qed

end

datatype log_op = LAppend write_io Entry | LSync sync_io | LClose sync_io bool

definition log_step :: "ulid_lib \<Rightarrow> Log \<Rightarrow> log_op \<Rightarrow> Log" where
  "log_step U l x =
     (case x of
        LAppend io e \<Rightarrow> fst (Log_Append U io l e)
      | LSync io \<Rightarrow> fst (Log_Sync io l)
      | LClose io c \<Rightarrow> fst (Log_Close io c l))"

lemma log_step_written: "prefix (lg_written l) (lg_written (log_step U l x))"
  by (cases x)
    (auto simp: log_step_def Log_Append_def Log_Sync_def Log_Close_def Log_syncLocked_def
      split: sum.splits write_io.splits sync_io.splits)

lemma log_step_synced:
  assumes "lg_synced l \<le> length (lg_written l)"
  shows "lg_synced l \<le> lg_synced (log_step U l x) \<and>
    lg_synced (log_step U l x) \<le> length (lg_written (log_step U l x))"
  using assms
  by (cases x)
    (auto simp: log_step_def Log_Append_def Log_Sync_def Log_Close_def Log_syncLocked_def
      split: sum.splits write_io.splits sync_io.splits)

interpretation durable: durable_store "log_step U" lg_written lg_synced for U
  by unfold_locales (simp_all add: log_step_written log_step_synced)

lemma synced_in_crash_image:
  assumes "lg_synced l = length (lg_written l)"
  shows "prefix (lg_written l) (crash_image (run_ops (log_step U) l xs) n)"
  unfolding crash_image_def by (rule durable.synced_survives[OF assms]) simp

section \<open>The log as a machine\<close>

text \<open>
  Every sequence of operations keeps the accepted bytes a file of whole lines with at most one
  partial line, at the end of a broken log.
\<close>

definition log_shape :: "Log \<Rightarrow> bool" where
  "log_shape l \<longleftrightarrow> (\<exists>ls. log_inv ls l)"

lemma log_step_shape: "ulid_text_ok U \<Longrightarrow> log_shape l \<Longrightarrow> log_shape (log_step U l x)"
proof (cases x)
  case (LAppend io e)
  moreover assume "ulid_text_ok U" "log_shape l"
  ultimately show ?thesis
    using Log_Append_inv[of U _ l io e] by (auto simp: log_shape_def log_step_def) (metis prod.collapse)
next
  case (LSync io)
  moreover assume "log_shape l"
  ultimately show ?thesis
    using Log_Sync_inv[of _ l io] by (auto simp: log_shape_def log_step_def) (metis prod.collapse)
next
  case (LClose io c)
  moreover assume "log_shape l"
  ultimately show ?thesis
    using Log_Close_inv[of _ l io c] by (auto simp: log_shape_def log_step_def) (metis prod.collapse)
qed

interpretation log_machine: guarded_machine "log_step U" "\<lambda>_ _. ulid_text_ok U" log_shape for U
  by unfold_locales (rule log_step_shape)

lemma run_log_shape:
  assumes "ulid_text_ok U" and "log_shape l"
  shows "log_shape (run_ops (log_step U) l xs)"
  by (rule log_machine.run_inv[OF assms(2) log_machine.admitted_all[OF assms(1)]])

end
