(* ===== verification/Session.thy ===== *)
theory Session
  imports Log
begin

text \<open>
  The aggregate over one log, \<open>internal/session/session.go\<close>: the queries that are derived by
  scanning the entries, \<open>Append\<close> with its refusals, \<open>Sync\<close>, \<open>Fork\<close> and \<open>Close\<close>. Every
  exported method holds the session's mutex from its first line to its last, so a method is one
  atomic step on the record \<open>Session\<close>. What a call takes from outside is its \<open>call_env\<close>: the
  id \<open>NewID\<close> returns, the clock, and the outcomes of the log's write and sync.

  \<open>wf_entries\<close> is what the log promises, stated without reference to the code's checks: ids
  increase, every decision answers a tool use that is still pending and undecided, every result
  follows its decision, a compaction names two earlier entries in order, and so on. The lemmas
  show that \<open>Append\<close> and \<open>Fork\<close> keep it and what the queries answer under it.
\<close>

record Session =
  s_id :: ulid
  s_log :: Log
  s_inherited :: "Entry list"
  s_own :: "Entry list"
  s_locked :: bool

datatype invariant_error =
    PayloadInvalid validate_error
  | OpenedNotFirst
  | ForkNotFirst
  | DecisionNotPending bytes
  | SecondDecision bytes
  | SecondRuntimeDecision bytes
  | ResultNotPending bytes
  | ResultBeforeDecision bytes
  | CompactionRange
  | FirstEntryKind Kind
  | ForkAtUnknown ulid

datatype session_error = ErrInvariant invariant_error | ErrLog log_error | ErrCreate

record call_env =
  ce_id :: ulid
  ce_now :: Time
  ce_write :: write_io
  ce_sync :: sync_io

section \<open>Queries\<close>

definition Entries :: "Session \<Rightarrow> Entry list" where
  "Entries s = s_inherited s @ s_own s"

definition has_id :: "Entry list \<Rightarrow> ulid \<Rightarrow> bool" where
  "has_id es i \<longleftrightarrow> (\<exists>e\<in>set es. en_ID e = i)"

definition opened_payload :: "Entry \<Rightarrow> SessionOpened option" where
  "opened_payload e = (case en_Payload e of SessionOpened o' \<Rightarrow> Some o' | _ \<Rightarrow> None)"

definition zero_SessionOpened :: SessionOpened where
  "zero_SessionOpened =
     \<lparr>so_SchemaVersion = 0, so_RudyVersion = [],
      so_Workspace = \<lparr>ws_Root = [], ws_GitRoot = [], ws_ProjectID = []\<rparr>,
      so_Model = zero_ModelRef, so_Thinking = [], so_Mode = [], so_Agent = [],
      so_ParentSessionID = [], so_ParentToolUseID = [], so_Tools = None, so_Execution = zero_Execution\<rparr>"

text \<open>\<open>openedLocked\<close>: the first session_opened, or the zero value.\<close>

definition opened_in :: "Entry list \<Rightarrow> SessionOpened" where
  "opened_in es =
     (case first_some opened_payload es of Some o' \<Rightarrow> o' | None \<Rightarrow> zero_SessionOpened)"

definition Session_Workspace :: "Session \<Rightarrow> Workspace" where
  "Session_Workspace s = so_Workspace (opened_in (Entries s))"

definition Session_Agent :: "Session \<Rightarrow> bytes" where
  "Session_Agent s = so_Agent (opened_in (Entries s))"

definition Session_Tools :: "Session \<Rightarrow> bytes list option" where
  "Session_Tools s = so_Tools (opened_in (Entries s))"

definition Session_SchemaVersion :: "Session \<Rightarrow> int" where
  "Session_SchemaVersion s = so_SchemaVersion (opened_in (Entries s))"

definition Session_Execution :: "Session \<Rightarrow> Execution" where
  "Session_Execution s =
     (let o' = opened_in (Entries s) in
      if ex_Kind (so_Execution o') = []
      then \<lparr>ex_Kind = ExecutionNative, ex_Provider = mr_Provider (so_Model o'), ex_Runtime = []\<rparr>
      else so_Execution o')"

definition model_change :: "Entry \<Rightarrow> ModelRef option" where
  "model_change e = (case en_Payload e of ModelChange m \<Rightarrow> Some m | _ \<Rightarrow> None)"

definition mode_change :: "Entry \<Rightarrow> Mode option" where
  "mode_change e = (case en_Payload e of ModeChange m \<Rightarrow> Some m | _ \<Rightarrow> None)"

definition thinking_change :: "Entry \<Rightarrow> ThinkingLevel option" where
  "thinking_change e = (case en_Payload e of ThinkingChange l \<Rightarrow> Some l | _ \<Rightarrow> None)"

definition title_change :: "Entry \<Rightarrow> bytes option" where
  "title_change e = (case en_Payload e of TitleChange t \<Rightarrow> Some t | _ \<Rightarrow> None)"

definition model_in :: "Entry list \<Rightarrow> ModelRef" where
  "model_in es = last_some model_change (so_Model (opened_in es)) es"

definition mode_in :: "Entry list \<Rightarrow> Mode" where
  "mode_in es = last_some mode_change (so_Mode (opened_in es)) es"

definition thinking_in :: "Entry list \<Rightarrow> ThinkingLevel" where
  "thinking_in es = last_some thinking_change (so_Thinking (opened_in es)) es"

definition title_in :: "Entry list \<Rightarrow> bytes" where
  "title_in es = last_some title_change [] es"

definition Session_Model :: "Session \<Rightarrow> ModelRef" where
  "Session_Model s = model_in (Entries s)"

definition Session_Mode :: "Session \<Rightarrow> Mode" where
  "Session_Mode s = mode_in (Entries s)"

definition Session_Thinking :: "Session \<Rightarrow> ThinkingLevel" where
  "Session_Thinking s = thinking_in (Entries s)"

definition Session_Title :: "Session \<Rightarrow> bytes" where
  "Session_Title s = title_in (Entries s)"

fun usage_loop :: "Usage \<Rightarrow> Entry list \<Rightarrow> Usage" where
  "usage_loop u [] = u"
| "usage_loop u (e # es) =
     usage_loop
       (case en_Payload e of
          AssistantMessage m \<Rightarrow> Usage_Add u (am_Usage m)
        | Compaction c \<Rightarrow> Usage_Add u (co_Usage c)
        | _ \<Rightarrow> u) es"

definition Session_Usage :: "Session \<Rightarrow> Usage" where
  "Session_Usage s = usage_loop zero_Usage (Entries s)"

definition session_allowance :: "Entry \<Rightarrow> Matcher option" where
  "session_allowance e =
     (case en_Payload e of
        PermissionDecision d \<Rightarrow>
          if pd_Decision d = Allow \<and> pd_Scope d = ScopeSession then Some (pd_Matcher d) else None
      | _ \<Rightarrow> None)"

definition Session_Allowances :: "Session \<Rightarrow> Matcher list" where
  "Session_Allowances s = List.map_filter session_allowance (Entries s)"

text \<open>\<open>requestContextLocked\<close>: backwards to the newest compaction, then every entry it does not cover.\<close>

definition compaction_of :: "Entry \<Rightarrow> Compaction option" where
  "compaction_of e = (case en_Payload e of Compaction c \<Rightarrow> Some c | _ \<Rightarrow> None)"

fun request_context_from :: "Entry list \<Rightarrow> Entry list \<Rightarrow> Entry list" where
  "request_context_from all [] = all"
| "request_context_from all (e # backward) =
     (case compaction_of e of
        None \<Rightarrow> request_context_from all backward
      | Some c \<Rightarrow>
          e # filter (\<lambda>x. co_LastEntryID c < en_ID x \<and> en_Kind x \<noteq> KindCompaction) all)"

definition request_context :: "Entry list \<Rightarrow> Entry list" where
  "request_context all = request_context_from all (rev all)"

definition RequestContext :: "Session \<Rightarrow> Entry list" where
  "RequestContext s = request_context (Entries s)"

text \<open>\<open>PendingToolUsesIn\<close>: one pass collects the tool uses and the ids that have a result.\<close>

definition tool_uses_of :: "payload \<Rightarrow> Block list" where
  "tool_uses_of p =
     (case p of
        AssistantMessage v \<Rightarrow> filter (\<lambda>b. bl_Type b = BlockToolUse) (am_Content v)
      | _ \<Rightarrow> [])"

fun pending_scan :: "bytes set \<Rightarrow> Block list \<Rightarrow> Entry list \<Rightarrow> bytes set \<times> Block list" where
  "pending_scan finished uses [] = (finished, uses)"
| "pending_scan finished uses (e # es) =
     (case en_Payload e of
        AssistantMessage v \<Rightarrow> pending_scan finished (uses @ tool_uses_of (en_Payload e)) es
      | ToolResult v \<Rightarrow> pending_scan (insert (tr_ToolUseID v) finished) uses es
      | _ \<Rightarrow> pending_scan finished uses es)"

definition PendingToolUsesIn :: "Entry list \<Rightarrow> Block list" where
  "PendingToolUsesIn es =
     (case pending_scan {} [] es of (finished, uses) \<Rightarrow> filter (\<lambda>b. bl_ID b \<notin> finished) uses)"

definition PendingToolUses :: "Session \<Rightarrow> Block list" where
  "PendingToolUses s = PendingToolUsesIn (Entries s)"

definition is_pending :: "Entry list \<Rightarrow> bytes \<Rightarrow> bool" where
  "is_pending es i \<longleftrightarrow> (\<exists>b\<in>set (PendingToolUsesIn es). bl_ID b = i)"

definition decision_of :: "bytes \<Rightarrow> Entry \<Rightarrow> PermissionDecision option" where
  "decision_of i e =
     (case en_Payload e of
        PermissionDecision d \<Rightarrow> if pd_ToolUseID d = i then Some d else None
      | _ \<Rightarrow> None)"

definition decision_for :: "Entry list \<Rightarrow> bytes \<Rightarrow> PermissionDecision option" where
  "decision_for es i = first_some (decision_of i) es"

section \<open>Appending\<close>

definition same_runtime_request :: "RuntimePermissionDecision \<Rightarrow> RuntimePermissionDecision \<Rightarrow> bool" where
  "same_runtime_request a b \<longleftrightarrow>
     rd_Runtime a = rd_Runtime b \<and> rd_ThreadID a = rd_ThreadID b \<and> rd_TurnID a = rd_TurnID b \<and>
     rd_ItemID a = rd_ItemID b \<and> rd_RequestID a = rd_RequestID b"

definition prior_runtime_decision :: "Entry list \<Rightarrow> RuntimePermissionDecision \<Rightarrow> bool" where
  "prior_runtime_decision es v \<longleftrightarrow>
     (\<exists>e\<in>set es. case en_Payload e of
        RuntimePermissionDecision prior \<Rightarrow> same_runtime_request prior v | _ \<Rightarrow> False)"

text \<open>The refusals of \<open>Append\<close>, in the order of the code, for the inherited and the own entries.\<close>

definition append_guard ::
  "(bytes \<Rightarrow> ulid option) \<Rightarrow> Entry list \<Rightarrow> Entry list \<Rightarrow> payload \<Rightarrow> invariant_error option" where
  "append_guard P inherited own p =
     (case Validate P p of
        Some err \<Rightarrow> Some (PayloadInvalid err)
      | None \<Rightarrow>
          (let es = inherited @ own in
           case p of
             SessionOpened _ \<Rightarrow> if own \<noteq> [] \<or> inherited \<noteq> [] then Some OpenedNotFirst else None
           | ForkPoint _ \<Rightarrow> if own \<noteq> [] then Some ForkNotFirst else None
           | PermissionDecision v \<Rightarrow>
               if \<not> is_pending es (pd_ToolUseID v) then Some (DecisionNotPending (pd_ToolUseID v))
               else if decision_for es (pd_ToolUseID v) \<noteq> None then Some (SecondDecision (pd_ToolUseID v))
               else None
           | RuntimePermissionDecision v \<Rightarrow>
               if prior_runtime_decision es v then Some (SecondRuntimeDecision (rd_RequestID v)) else None
           | ToolResult v \<Rightarrow>
               if \<not> is_pending es (tr_ToolUseID v) then Some (ResultNotPending (tr_ToolUseID v))
               else if decision_for es (tr_ToolUseID v) = None
               then Some (ResultBeforeDecision (tr_ToolUseID v))
               else None
           | Compaction v \<Rightarrow>
               if \<not> has_id es (co_FirstEntryID v) \<or> \<not> has_id es (co_LastEntryID v) \<or>
                  co_FirstEntryID v > co_LastEntryID v
               then Some CompactionRange else None
           | _ \<Rightarrow> if own = [] \<and> inherited = [] then Some (FirstEntryKind (kind_of p)) else None))"

definition durableAllow :: "payload \<Rightarrow> bool" where
  "durableAllow p =
     (case p of
        PermissionDecision d \<Rightarrow> pd_Decision d = Allow
      | RuntimePermissionDecision d \<Rightarrow> rd_Decision d = Allow
      | _ \<Rightarrow> False)"

definition new_entry :: "call_env \<Rightarrow> payload \<Rightarrow> Entry" where
  "new_entry env p = \<lparr>en_ID = ce_id env, en_At = ce_now env, en_Kind = kind_of p, en_Payload = p\<rparr>"

definition Session_Append ::
  "ulid_lib \<Rightarrow> call_env \<Rightarrow> Session \<Rightarrow> payload \<Rightarrow> Session \<times> (session_error, Entry) result" where
  "Session_Append U env s p =
     (case append_guard (ulid_ParseStrict U) (s_inherited s) (s_own s) p of
        Some err \<Rightarrow> (s, Inl (ErrInvariant err))
      | None \<Rightarrow>
          (let e = new_entry env p in
           case Log_Append U (ce_write env) (s_log s) e of
             (l, Some err) \<Rightarrow> (s\<lparr>s_log := l\<rparr>, Inl (ErrLog err))
           | (l, None) \<Rightarrow>
               if durableAllow p then
                 (case Log_Sync (ce_sync env) l of
                    (l', Some err) \<Rightarrow> (s\<lparr>s_log := l'\<rparr>, Inl (ErrLog err))
                  | (l', None) \<Rightarrow> (s\<lparr>s_log := l', s_own := s_own s @ [e]\<rparr>, Inr e))
               else (s\<lparr>s_log := l, s_own := s_own s @ [e]\<rparr>, Inr e)))"

definition Session_Sync :: "sync_io \<Rightarrow> Session \<Rightarrow> Session \<times> session_error option" where
  "Session_Sync io s =
     (case Log_Sync io (s_log s) of (l, r) \<Rightarrow> (s\<lparr>s_log := l\<rparr>, map_option ErrLog r))"

text \<open>\<open>Close\<close>: the lock is released whatever the log's close answered.\<close>

definition Session_Close :: "sync_io \<Rightarrow> bool \<Rightarrow> Session \<Rightarrow> Session \<times> session_error option" where
  "Session_Close io close_ok s =
     (case Log_Close io close_ok (s_log s) of
        (l, r) \<Rightarrow> (s\<lparr>s_log := l, s_locked := False\<rparr>, map_option ErrLog r))"

text \<open>
  \<open>create\<close> on a directory whose entries file holds \<open>file\<close>; taking the lock, opening the log and
  opening the blobs may each fail, in which case whatever was taken is released.
\<close>

definition create :: "bool \<Rightarrow> ulid \<Rightarrow> bytes \<Rightarrow> (session_error, Session) result" where
  "create ok i file =
     (if ok then Inr \<lparr>s_id = i, s_log = OpenLog file, s_inherited = [], s_own = [], s_locked = True\<rparr>
      else Inl ErrCreate)"

definition Session_Open ::
  "ulid_lib \<Rightarrow> bool \<Rightarrow> ulid \<Rightarrow> call_env \<Rightarrow> sync_io \<Rightarrow> SessionOpened \<Rightarrow> (session_error, Session) result" where
  "Session_Open U created i env io opened =
     (case create created i [] of
        Inl err \<Rightarrow> Inl err
      | Inr s \<Rightarrow>
          (case Session_Append U env s (SessionOpened opened) of
             (_, Inl err) \<Rightarrow> Inl err
           | (s', Inr _) \<Rightarrow>
               (case Session_Sync io s' of
                  (_, Some err) \<Rightarrow> Inl err
                | (s'', None) \<Rightarrow> Inr s'')))"

text \<open>The loop of \<open>Fork\<close> that looks for the cut: the last entry with the id.\<close>

fun last_index :: "ulid \<Rightarrow> nat \<Rightarrow> nat option \<Rightarrow> Entry list \<Rightarrow> nat option" where
  "last_index at i found [] = found"
| "last_index at i found (e # es) = last_index at (Suc i) (if en_ID e = at then Some i else found) es"

definition Session_Fork ::
  "ulid_lib \<Rightarrow> sync_io \<Rightarrow> bool \<Rightarrow> ulid \<Rightarrow> call_env \<Rightarrow> sync_io \<Rightarrow> Session \<Rightarrow> ulid \<Rightarrow>
     Session \<times> (session_error, Session) result" where
  "Session_Fork U pio created i env cio s at =
     (case Session_Sync pio s of
        (s1, Some err) \<Rightarrow> (s1, Inl err)
      | (s1, None) \<Rightarrow>
          (case last_index at 0 None (Entries s1) of
             None \<Rightarrow> (s1, Inl (ErrInvariant (ForkAtUnknown at)))
           | Some j \<Rightarrow>
               (case create created i [] of
                  Inl err \<Rightarrow> (s1, Inl err)
                | Inr child \<Rightarrow>
                    (let child1 = child\<lparr>s_inherited := take (Suc j) (Entries s1)\<rparr> in
                     case Session_Append U env child1
                            (ForkPoint \<lparr>fp_ParentSessionID = s_id s1, fp_ParentEntryID = at\<rparr>) of
                       (_, Inl err) \<Rightarrow> (s1, Inl err)
                     | (child2, Inr _) \<Rightarrow>
                         (case Session_Sync cio child2 of
                            (_, Some err) \<Rightarrow> (s1, Inl err)
                          | (child3, None) \<Rightarrow> (s1, Inr child3))))))"

section \<open>What the log promises\<close>

definition tool_uses :: "Entry list \<Rightarrow> Block list" where
  "tool_uses es = concat (map (tool_uses_of \<circ> en_Payload) es)"

definition result_ids :: "Entry list \<Rightarrow> bytes set" where
  "result_ids es = {tr_ToolUseID r |r e. e \<in> set es \<and> en_Payload e = ToolResult r}"

definition decided_ids :: "Entry list \<Rightarrow> bytes set" where
  "decided_ids es = {pd_ToolUseID d |d e. e \<in> set es \<and> en_Payload e = PermissionDecision d}"

text \<open>What must hold of a payload for the entries that precede it.\<close>

definition follows :: "Entry list \<Rightarrow> payload \<Rightarrow> bool" where
  "follows pre p \<longleftrightarrow>
     (case p of
        SessionOpened _ \<Rightarrow> pre = []
      | PermissionDecision d \<Rightarrow>
          pd_ToolUseID d \<in> bl_ID ` set (tool_uses pre) \<and>
          pd_ToolUseID d \<notin> result_ids pre \<and> pd_ToolUseID d \<notin> decided_ids pre
      | ToolResult r \<Rightarrow>
          tr_ToolUseID r \<in> bl_ID ` set (tool_uses pre) \<and>
          tr_ToolUseID r \<notin> result_ids pre \<and> tr_ToolUseID r \<in> decided_ids pre
      | RuntimePermissionDecision v \<Rightarrow> pre \<noteq> [] \<and> \<not> prior_runtime_decision pre v
      | Compaction c \<Rightarrow>
          has_id pre (co_FirstEntryID c) \<and> has_id pre (co_LastEntryID c) \<and>
          co_FirstEntryID c \<le> co_LastEntryID c
      | _ \<Rightarrow> pre \<noteq> [])"

definition entry_ok :: "(bytes \<Rightarrow> ulid option) \<Rightarrow> Entry \<Rightarrow> bool" where
  "entry_ok P e \<longleftrightarrow> en_ID e \<noteq> 0 \<and> en_Kind e = kind_of (en_Payload e) \<and> Validate P (en_Payload e) = None"

definition wf_entries :: "(bytes \<Rightarrow> ulid option) \<Rightarrow> Entry list \<Rightarrow> bool" where
  "wf_entries P es \<longleftrightarrow>
     strict_sorted (map en_ID es) \<and> (\<forall>e\<in>set es. entry_ok P e) \<and>
     (\<forall>pre e post. es = pre @ e # post \<longrightarrow> follows pre (en_Payload e))"

lemma wf_entries_Nil [simp]: "wf_entries P []"
  by (simp add: wf_entries_def)

lemma wf_entries_snoc:
  "wf_entries P (es @ [e]) \<longleftrightarrow>
     wf_entries P es \<and> entry_ok P e \<and> (\<forall>x\<in>set es. en_ID x < en_ID e) \<and> follows es (en_Payload e)"
  (is "?L \<longleftrightarrow> ?R")
proof
  assume ?L
  then show ?R by (auto simp: wf_entries_def)
next
  assume R: ?R
  have "follows pre (en_Payload x)" if "es @ [e] = pre @ x # post" for pre x post
  proof (cases post rule: rev_cases)
    case Nil
    with that R show ?thesis by simp
  next
    case (snoc q y)
    with that have "es = pre @ x # q" by simp
    with R show ?thesis by (auto simp: wf_entries_def)
  qed
  with R show ?L by (auto simp: wf_entries_def)
qed

lemma wf_entries_prefix: "wf_entries P (xs @ ys) \<Longrightarrow> wf_entries P xs"
  by (induction ys rule: rev_induct) (auto simp: wf_entries_snoc simp flip: append_assoc)

lemma wf_entries_distinct: "wf_entries P es \<Longrightarrow> distinct (map en_ID es)"
  by (simp add: wf_entries_def strict_sorted_distinct)

subsection \<open>The queries in terms of it\<close>

lemma tool_uses_simps [simp]:
  "tool_uses [] = []" "tool_uses (e # es) = tool_uses_of (en_Payload e) @ tool_uses es"
  "tool_uses (es @ fs) = tool_uses es @ tool_uses fs"
  by (simp_all add: tool_uses_def)

lemma result_ids_simps [simp]:
  "result_ids [] = {}" "result_ids (es @ fs) = result_ids es \<union> result_ids fs"
  "result_ids (e # es) =
     (case en_Payload e of ToolResult r \<Rightarrow> insert (tr_ToolUseID r) (result_ids es) | _ \<Rightarrow> result_ids es)"
  by (auto simp: result_ids_def split: payload.split)

lemma decided_ids_simps [simp]:
  "decided_ids [] = {}" "decided_ids (es @ fs) = decided_ids es \<union> decided_ids fs"
  "decided_ids (e # es) =
     (case en_Payload e of
        PermissionDecision d \<Rightarrow> insert (pd_ToolUseID d) (decided_ids es) | _ \<Rightarrow> decided_ids es)"
  by (auto simp: decided_ids_def split: payload.split)

lemma tool_uses_of_cases:
  "tool_uses_of p \<noteq> [] \<Longrightarrow> \<exists>v. p = AssistantMessage v"
  by (cases p) (auto simp: tool_uses_of_def)

lemma pending_scan_eq:
  "pending_scan finished uses es = (finished \<union> result_ids es, uses @ tool_uses es)"
  by (induction es arbitrary: finished uses)
    (auto simp: tool_uses_of_def split: payload.split)

lemma PendingToolUsesIn_eq:
  "PendingToolUsesIn es = filter (\<lambda>b. bl_ID b \<notin> result_ids es) (tool_uses es)"
  by (simp add: PendingToolUsesIn_def pending_scan_eq)

lemma is_pending_iff:
  "is_pending es i \<longleftrightarrow> i \<in> bl_ID ` set (tool_uses es) \<and> i \<notin> result_ids es"
  by (auto simp: is_pending_def PendingToolUsesIn_eq)

lemma decision_for_None: "decision_for es i = None \<longleftrightarrow> i \<notin> decided_ids es"
  by (induction es) (auto simp: decision_for_def decision_of_def split: payload.splits if_splits)

lemma has_id_Nil [simp]: "\<not> has_id [] i"
  by (simp add: has_id_def)

lemma has_id_append [simp]: "has_id (es @ fs) i \<longleftrightarrow> has_id es i \<or> has_id fs i"
  by (auto simp: has_id_def)

text \<open>The code's checks admit exactly what the log's promise allows, once there is a first entry.\<close>

lemma append_guard_iff:
  assumes "inherited @ own \<noteq> []" and "own \<noteq> [] \<or> (\<forall>f. p \<noteq> ForkPoint f)"
  shows "append_guard P inherited own p = None \<longleftrightarrow>
    Validate P p = None \<and> follows (inherited @ own) p \<and> (\<forall>f. p \<noteq> ForkPoint f)"
proof -
  have ne: "\<not> (own = [] \<and> inherited = [])" using assms(1) by auto
  show ?thesis
    using assms ne
    by (cases "Validate P p"; cases p)
      (auto simp: append_guard_def follows_def Let_def is_pending_iff decision_for_None
        simp del: tool_uses_simps result_ids_simps decided_ids_simps Validate.simps)
qed

lemma wf_entries_hd:
  assumes "wf_entries P es" and "es \<noteq> []"
  shows "\<exists>o'. en_Payload (hd es) = SessionOpened o' \<and> Validate P (SessionOpened o') = None"
proof -
  from assms(2) have es: "es = [] @ hd es # tl es" by simp
  with assms(1) have "follows [] (en_Payload (hd es))" unfolding wf_entries_def by blast
  then obtain o' where "en_Payload (hd es) = SessionOpened o'"
    by (cases "en_Payload (hd es)") (auto simp: follows_def)
  moreover have "entry_ok P (hd es)" using assms by (auto simp: wf_entries_def)
  ultimately show ?thesis by (auto simp: entry_ok_def simp del: Validate.simps)
qed

section \<open>Reachable sessions\<close>

text \<open>
  \<open>NewID\<close> returns an id greater than every earlier one of the process, and never zero: the
  hypothesis on the third-party generator, stated for the entries of the session.
\<close>

definition fresh :: "call_env \<Rightarrow> Session \<Rightarrow> bool" where
  "fresh env s \<longleftrightarrow> ce_id env \<noteq> 0 \<and> (\<forall>e\<in>set (Entries s). en_ID e < ce_id env)"

inductive reachable :: "ulid_lib \<Rightarrow> Session \<Rightarrow> bool" for U where
  opened: "Session_Open U created i env io o' = Inr s \<Longrightarrow> ce_id env \<noteq> 0 \<Longrightarrow> reachable U s"
| append: "reachable U s \<Longrightarrow> fresh env s \<Longrightarrow> Session_Append U env s p = (s', r) \<Longrightarrow> reachable U s'"
| sync: "reachable U s \<Longrightarrow> Session_Sync io s = (s', r) \<Longrightarrow> reachable U s'"
| close: "reachable U s \<Longrightarrow> Session_Close io c s = (s', r) \<Longrightarrow> reachable U s'"
| forked: "reachable U s \<Longrightarrow> fresh env s \<Longrightarrow>
     Session_Fork U pio created i env cio s at = (s', Inr child) \<Longrightarrow> reachable U child"

definition wf_session :: "ulid_lib \<Rightarrow> Session \<Rightarrow> bool" where
  "wf_session U s \<longleftrightarrow> wf_entries (ulid_ParseStrict U) (Entries s) \<and> s_own s \<noteq> []"

lemma Session_Append_cases:
  assumes "Session_Append U env s p = (s', r)"
  obtains (refused) err where "append_guard (ulid_ParseStrict U) (s_inherited s) (s_own s) p = Some err"
      "s' = s" "r = Inl (ErrInvariant err)"
  | (log_failed) l err where "append_guard (ulid_ParseStrict U) (s_inherited s) (s_own s) p = None"
      "s' = s\<lparr>s_log := l\<rparr>" "r = Inl (ErrLog err)"
  | (appended) l where "append_guard (ulid_ParseStrict U) (s_inherited s) (s_own s) p = None"
      "s' = s\<lparr>s_log := l, s_own := s_own s @ [new_entry env p]\<rparr>" "r = Inr (new_entry env p)"
  using assms
  by (auto simp: Session_Append_def Let_def split: option.splits prod.splits if_splits)

lemma Entries_update [simp]:
  "Entries (s\<lparr>s_log := l\<rparr>) = Entries s"
  "Entries (s\<lparr>s_log := l, s_own := xs\<rparr>) = s_inherited s @ xs"
  "Entries (s\<lparr>s_log := l, s_locked := b\<rparr>) = Entries s"
  by (simp_all add: Entries_def)

lemma entry_ok_new:
  "ce_id env \<noteq> 0 \<Longrightarrow> Validate P p = None \<Longrightarrow> entry_ok P (new_entry env p)"
  by (simp add: entry_ok_def new_entry_def)

lemma append_guard_Validate: "append_guard P inh own p = None \<Longrightarrow> Validate P p = None"
  by (simp add: append_guard_def split: option.splits)

lemma Session_Append_wf:
  assumes "wf_session U s" and "fresh env s" and "Session_Append U env s p = (s', r)"
  shows "wf_session U s'"
  using assms(3)
proof (cases rule: Session_Append_cases)
  case refused
  with assms show ?thesis by simp
next
  case log_failed
  with assms show ?thesis by (simp add: wf_session_def)
next
  case (appended l)
  have ne: "s_own s \<noteq> []" and wf: "wf_entries (ulid_ParseStrict U) (Entries s)"
    using assms(1) by (auto simp: wf_session_def)
  from appended(1) ne have "follows (Entries s) p"
    by (subst (asm) append_guard_iff) (auto simp: Entries_def)
  then have "wf_entries (ulid_ParseStrict U) (Entries s @ [new_entry env p])"
    using wf assms(2) append_guard_Validate[OF appended(1)]
    by (auto simp: wf_entries_snoc fresh_def entry_ok_new) (simp_all add: new_entry_def)
  with appended(2) show ?thesis by (simp add: wf_session_def Entries_def)
qed

lemma Session_Sync_entries: "Session_Sync io s = (s', r) \<Longrightarrow> Entries s' = Entries s \<and> s_own s' = s_own s \<and> s_id s' = s_id s"
  by (auto simp: Session_Sync_def split: prod.splits)

lemma Session_Close_entries: "Session_Close io c s = (s', r) \<Longrightarrow> Entries s' = Entries s \<and> s_own s' = s_own s"
  by (auto simp: Session_Close_def split: prod.splits)

lemma Session_Open_shape:
  assumes "Session_Open U created i env io o' = Inr s"
  shows "Entries s = [new_entry env (SessionOpened o')] \<and> s_own s = Entries s \<and>
    Validate (ulid_ParseStrict U) (SessionOpened o') = None"
proof -
  from assms obtain s0 s1 e where s0: "create created i [] = Inr s0"
    and s1: "Session_Append U env s0 (SessionOpened o') = (s1, Inr e)"
    and s: "Session_Sync io s1 = (s, None)"
    by (auto simp: Session_Open_def split: sum.splits prod.splits option.splits)
  from s0 have "s_inherited s0 = [] \<and> s_own s0 = []" by (auto simp: create_def split: if_splits)
  with s1 Session_Sync_entries[OF s] show ?thesis
    by (auto elim!: Session_Append_cases dest!: append_guard_Validate simp: Entries_def simp del: Validate.simps)
qed

lemma last_index_Some:
  "last_index at i found es = Some j \<Longrightarrow> found = Some j \<or> (i \<le> j \<and> j - i < length es \<and> en_ID (es ! (j - i)) = at)"
proof (induction es arbitrary: i found)
  case Nil
  then show ?case by simp
next
  case (Cons e es)
  have "(e # es) ! (j - i) = es ! (j - Suc i)" if "Suc i \<le> j"
    using that by (simp add: Suc_diff_le flip: Suc_diff_Suc)
  with Cons.IH[of "Suc i" "if en_ID e = at then Some i else found"] Cons.prems show ?case
    by (auto split: if_splits)
qed

lemma Session_Fork_shape:
  assumes "Session_Fork U pio created i env cio s at = (s', Inr child)"
  obtains j where "j < length (Entries s)" "en_ID (Entries s ! j) = at"
    "s_inherited child = take (Suc j) (Entries s)"
    "s_own child = [new_entry env (ForkPoint \<lparr>fp_ParentSessionID = s_id s, fp_ParentEntryID = at\<rparr>)]"
    "Validate (ulid_ParseStrict U) (ForkPoint \<lparr>fp_ParentSessionID = s_id s, fp_ParentEntryID = at\<rparr>) = None"
    "Entries s' = Entries s"
proof -
  from assms obtain j c c2 e where 1: "Session_Sync pio s = (s', None)"
    "last_index at 0 None (Entries s') = Some j" "create created i [] = Inr c"
    "Session_Append U env (c\<lparr>s_inherited := take (Suc j) (Entries s')\<rparr>)
       (ForkPoint \<lparr>fp_ParentSessionID = s_id s', fp_ParentEntryID = at\<rparr>) = (c2, Inr e)"
    "Session_Sync cio c2 = (child, None)"
    by (auto simp: Session_Fork_def Let_def split: sum.splits prod.splits option.splits)
  note same = Session_Sync_entries[OF 1(1)]
  from last_index_Some[OF 1(2)] same have j: "j < length (Entries s)" "en_ID (Entries s ! j) = at" by auto
  from 1(3) have c: "s_own c = []" by (auto simp: create_def split: if_splits)
  have child: "s_inherited child = s_inherited c2 \<and> s_own child = s_own c2"
    using 1(5) by (auto simp: Session_Sync_def split: prod.splits)
  show ?thesis
    by (rule that[OF j])
      (use 1(4) same c child in
        \<open>auto elim!: Session_Append_cases dest!: append_guard_Validate simp del: Validate.simps\<close>)
qed

lemma Session_Fork_wf:
  assumes "wf_session U s" and "fresh env s" and "Session_Fork U pio created i env cio s at = (s', Inr child)"
  shows "wf_session U child"
proof (rule Session_Fork_shape[OF assms(3)])
  fix j
  let ?fp = "ForkPoint \<lparr>fp_ParentSessionID = s_id s, fp_ParentEntryID = at\<rparr>"
  assume j: "j < length (Entries s)"
    and inh: "s_inherited child = take (Suc j) (Entries s)" and own: "s_own child = [new_entry env ?fp]"
    and v: "Validate (ulid_ParseStrict U) ?fp = None"
  have "wf_entries (ulid_ParseStrict U) (take (Suc j) (Entries s))"
    using assms(1) wf_entries_prefix[of _ "take (Suc j) (Entries s)" "drop (Suc j) (Entries s)"]
    by (simp add: wf_session_def)
  moreover have "take (Suc j) (Entries s) \<noteq> []" using j by auto
  ultimately have "wf_entries (ulid_ParseStrict U) (take (Suc j) (Entries s) @ [new_entry env ?fp])"
    using assms(2) v
    by (auto simp: wf_entries_snoc entry_ok_new fresh_def simp del: Validate.simps dest!: in_set_takeD)
      (simp_all add: new_entry_def follows_def)
  with inh own show ?thesis by (simp add: wf_session_def Entries_def)
qed

lemma reachable_wf: "reachable U s \<Longrightarrow> wf_session U s"
proof (induction rule: reachable.induct)
  case (opened created i env io o' s)
  from Session_Open_shape[OF opened(1)] opened(2) show ?case
    using wf_entries_snoc[of "ulid_ParseStrict U" "[]" "new_entry env (SessionOpened o')"]
    by (auto simp: wf_session_def entry_ok_new simp del: Validate.simps)
      (simp_all add: new_entry_def follows_def)
next
  case (append s env p s' r)
  then show ?case by (blast intro: Session_Append_wf)
next
  case (sync s io s' r)
  from Session_Sync_entries[OF sync(2)] sync(3) show ?case by (simp add: wf_session_def)
next
  case (close s io c s' r)
  from Session_Close_entries[OF close(2)] close(3) show ?case by (simp add: wf_session_def)
next
  case (forked s env pio created i cio at s' child)
  then show ?case by (blast intro: Session_Fork_wf)
qed

end
