(* ===== verification/Recovery.thy ===== *)
theory Recovery
  imports Session
begin

text \<open>
  \<open>internal/session/recovery.go\<close>: what \<open>Load\<close> appends so that a log a crash cut short has no
  tool use left unanswered. \<open>envs k\<close> is the environment of the \<open>k\<close>-th append. When the pending
  ids are distinct and the log takes writes, recovery succeeds and nothing is pending after it;
  when two pending blocks share an id it always fails.
\<close>

definition recovery_deny :: "Block \<Rightarrow> Mode \<Rightarrow> PermissionDecision" where
  "recovery_deny b m =
     \<lparr>pd_ToolUseID = bl_ID b, pd_Tool = bl_Name b, pd_Mode = m,
      pd_Matcher = \<lparr>ma_Tool = bl_Name b, ma_Prefix = []\<rparr>,
      pd_Decision = Deny, pd_DecidedBy = ByNoAsker, pd_Scope = ScopeOnce,
      pd_Reason = ''recovery: process ended before a decision'', pd_Input = []\<rparr>"

definition lost_result :: "Block \<Rightarrow> ToolResult" where
  "lost_result b = \<lparr>tr_ToolUseID = bl_ID b, tr_Outcome = OutcomeLost, tr_Content = [], tr_DurationMS = 0\<rparr>"

fun recover_loop ::
  "ulid_lib \<Rightarrow> (nat \<Rightarrow> call_env) \<Rightarrow> Session \<Rightarrow> Block list \<Rightarrow> nat \<Rightarrow> Session \<times> nat \<times> session_error option" where
  "recover_loop U envs s [] n = (s, n, None)"
| "recover_loop U envs s (b # bs) n =
     (case (if decision_for (Entries s) (bl_ID b) = None
            then (case Session_Append U (envs n) s (PermissionDecision (recovery_deny b (Session_Mode s))) of
                    (s1, Inl err) \<Rightarrow> (s1, n, Some err)
                  | (s1, Inr _) \<Rightarrow> (s1, Suc n, None))
            else (s, n, None)) of
        (s1, n1, Some err) \<Rightarrow> (s1, n1, Some err)
      | (s1, n1, None) \<Rightarrow>
          (case Session_Append U (envs n1) s1 (ToolResult (lost_result b)) of
             (s2, Inl err) \<Rightarrow> (s2, n1, Some err)
           | (s2, Inr _) \<Rightarrow> recover_loop U envs s2 bs (Suc n1)))"

definition Recover ::
  "ulid_lib \<Rightarrow> (nat \<Rightarrow> call_env) \<Rightarrow> sync_io \<Rightarrow> Session \<Rightarrow> Session \<times> nat \<times> session_error option" where
  "Recover U envs io s =
     (case recover_loop U envs s (PendingToolUses s) 0 of
        (s1, n, Some err) \<Rightarrow> (s1, n, Some err)
      | (s1, n, None) \<Rightarrow>
          if n > 0 then (case Session_Sync io s1 of (s2, r) \<Rightarrow> (s2, n, r)) else (s1, n, None))"

section \<open>When an append succeeds\<close>

definition log_ready :: "Session \<Rightarrow> bool" where
  "log_ready s \<longleftrightarrow> lg_open (s_log s) \<and> \<not> lg_broken (s_log s)"

definition good_env :: "call_env \<Rightarrow> bool" where
  "good_env env \<longleftrightarrow> ce_write env = WriteOK \<and> ce_sync env = SyncOK"

lemma Log_Append_WriteOK:
  assumes "en_Kind e = kind_of (en_Payload e)" and "Validate (ulid_ParseStrict U) (en_Payload e) = None"
    and "lg_open l" and "\<not> lg_broken l"
  shows "\<exists>line. Log_Append U WriteOK l e = (l\<lparr>lg_written := lg_written l @ line @ [c_nl]\<rparr>, None)"
  using marshal_total[OF assms(1,2)] assms(3,4) by (auto simp: Log_Append_def)

lemma Session_Append_succeeds:
  assumes "append_guard (ulid_ParseStrict U) (s_inherited s) (s_own s) p = None"
    and "log_ready s" and "good_env env"
  obtains s' where "Session_Append U env s p = (s', Inr (new_entry env p))"
    "Entries s' = Entries s @ [new_entry env p]" "s_own s' \<noteq> []" "log_ready s'"
proof -
  have "Validate (ulid_ParseStrict U) (en_Payload (new_entry env p)) = None"
    "en_Kind (new_entry env p) = kind_of (en_Payload (new_entry env p))"
    using append_guard_Validate[OF assms(1)] by (simp_all add: new_entry_def)
  with assms(2) Log_Append_WriteOK[of "new_entry env p" U "s_log s"] obtain line where
    "Log_Append U WriteOK (s_log s) (new_entry env p) =
       ((s_log s)\<lparr>lg_written := lg_written (s_log s) @ line @ [c_nl]\<rparr>, None)"
    by (auto simp: log_ready_def)
  with assms show ?thesis
    by (intro that[of "fst (Session_Append U env s p)"])
      (auto simp: Session_Append_def good_env_def log_ready_def Log_Sync_def Log_syncLocked_def
        Let_def Entries_def)
qed

lemma Session_Sync_ready:
  assumes "log_ready s"
  obtains s' where "Session_Sync SyncOK s = (s', None)" "Entries s' = Entries s" "s_own s' = s_own s"
    "s_inherited s' = s_inherited s" "log_ready s'" "s_id s' = s_id s"
  using assms
  by (intro that[of "fst (Session_Sync SyncOK s)"])
    (auto simp: Session_Sync_def Log_Sync_def Log_syncLocked_def log_ready_def Entries_def)

lemma create_succeeds:
  obtains c where "create True i [] = Inr c" "s_inherited c = []" "s_own c = []" "log_ready c" "s_id c = i"
  by (auto simp: create_def log_ready_def OpenLog_def)

lemma Session_Append_inherited: "Session_Append U env s p = (s', r) \<Longrightarrow> s_inherited s' = s_inherited s \<and> s_id s' = s_id s"
  by (auto elim!: Session_Append_cases)

lemma Session_Open_succeeds:
  assumes "Validate (ulid_ParseStrict U) (SessionOpened o') = None" and "good_env env"
  obtains s where "Session_Open U True i env SyncOK o' = Inr s" "log_ready s" "s_inherited s = []"
proof -
  obtain c where c: "create True i [] = Inr c" "s_inherited c = []" "s_own c = []" "log_ready c"
    by (rule create_succeeds)
  have "append_guard (ulid_ParseStrict U) (s_inherited c) (s_own c) (SessionOpened o') = None"
    using assms(1) c(2,3) by (simp add: append_guard_def del: Validate.simps)
  then obtain s1 where 1: "Session_Append U env c (SessionOpened o') = (s1, Inr (new_entry env (SessionOpened o')))"
    "log_ready s1" using Session_Append_succeeds[OF _ c(4) assms(2)] by metis
  obtain s2 where "Session_Sync SyncOK s1 = (s2, None)" "log_ready s2" "s_inherited s2 = s_inherited s1"
    by (rule Session_Sync_ready[OF 1(2)])
  with c 1 Session_Append_inherited[OF 1(1)] show ?thesis
    by (intro that[of s2]) (simp_all add: Session_Open_def)
qed

section \<open>Facts of a well-formed log recovery relies on\<close>

lemma opened_in_wf:
  assumes "wf_entries P es" and "es \<noteq> []"
  shows "Validate P (SessionOpened (opened_in es)) = None"
proof -
  from wf_entries_hd[OF assms] obtain o' where
    "en_Payload (hd es) = SessionOpened o'" "Validate P (SessionOpened o') = None" by blast
  with assms(2) show ?thesis
    by (cases es) (auto simp: opened_in_def opened_payload_def simp del: Validate.simps)
qed

lemma mode_in_valid:
  assumes "wf_entries P es" and "es \<noteq> []"
  shows "Mode_Valid (mode_in es)"
proof -
  have o: "Mode_Valid (so_Mode (opened_in es))"
    using opened_in_wf[OF assms] by (auto split: if_splits)
  consider "mode_in es = so_Mode (opened_in es)" | e where "e \<in> set es" "mode_change e = Some (mode_in es)"
    using last_some_cases[of mode_change "so_Mode (opened_in es)" es] by (auto simp: mode_in_def)
  then show ?thesis
  proof cases
    case 1
    with o show ?thesis by simp
  next
    case 2
    then have "en_Payload e = ModeChange (mode_in es)"
      by (auto simp: mode_change_def split: payload.splits)
    with 2 assms(1) show ?thesis by (auto simp: wf_entries_def entry_ok_def split: if_splits)
  qed
qed

lemma validate_blocks_mem: "validate_blocks k al bs = None \<Longrightarrow> b \<in> set bs \<Longrightarrow> Block_Validate b = None"
  by (induction bs) (auto split: option.splits if_splits)

lemma tool_use_named:
  assumes "wf_entries P es" and "b \<in> set (tool_uses es)"
  shows "bl_ID b \<noteq> [] \<and> bl_Name b \<noteq> []"
proof -
  from assms(2) obtain e where e: "e \<in> set es" "b \<in> set (tool_uses_of (en_Payload e))"
    by (auto simp: tool_uses_def)
  then obtain v where v: "en_Payload e = AssistantMessage v" "b \<in> set (am_Content v)" "bl_Type b = BlockToolUse"
    by (cases "en_Payload e") (auto simp: tool_uses_of_def)
  from assms(1) e(1) have "Validate P (en_Payload e) = None" by (auto simp: wf_entries_def entry_ok_def)
  with v have "validate_blocks KindAssistantMessage [BlockText, BlockThinking, BlockToolUse] (am_Content v) = None"
    by (auto split: if_splits)
  from validate_blocks_mem[OF this v(2)] v(3) show ?thesis
    by (auto simp: Block_Validate_def enum_defs split: if_splits)
qed

section \<open>Recovery succeeds\<close>

definition increasing_envs :: "(nat \<Rightarrow> call_env) \<Rightarrow> bool" where
  "increasing_envs envs \<longleftrightarrow> (\<forall>k. good_env (envs k) \<and> ce_id (envs k) < ce_id (envs (Suc k)))"

definition recovery_entry :: "Entry \<Rightarrow> bool" where
  "recovery_entry e \<longleftrightarrow>
     (case en_Payload e of
        PermissionDecision d \<Rightarrow> pd_Decision d = Deny \<and> pd_DecidedBy d = ByNoAsker \<and> pd_Scope d = ScopeOnce
      | ToolResult r \<Rightarrow> tr_Outcome r = OutcomeLost \<and> tr_Content r = []
      | _ \<Rightarrow> False)"

lemma fresh_next:
  assumes "fresh (envs n) s" and "increasing_envs envs" and "Entries s' = Entries s @ [new_entry (envs n) p]"
  shows "fresh (envs (Suc n)) s'"
proof -
  have "ce_id (envs n) < ce_id (envs (Suc n))" using assms(2) by (simp add: increasing_envs_def)
  then show ?thesis using assms(1,3) by (auto simp: fresh_def new_entry_def intro: less_trans)
qed

lemma recover_step:
  assumes "wf_session U s" and "log_ready s" and "increasing_envs envs" and "fresh (envs n) s"
    and "is_pending (Entries s) (bl_ID b)" and "bl_ID b \<noteq> []" "bl_Name b \<noteq> []"
  obtains s2 m added where
    "recover_loop U envs s (b # bs) n = recover_loop U envs s2 bs (n + m)"
    "m = length added" "Entries s2 = Entries s @ added" "wf_session U s2" "log_ready s2" "fresh (envs (n + m)) s2"
    "result_ids added = {bl_ID b}" "tool_uses added = []" "\<forall>e\<in>set added. recovery_entry e"
proof -
  note finish = that
  have good: "good_env (envs k)" for k using assms(3) by (simp add: increasing_envs_def)
  let ?d = "PermissionDecision (recovery_deny b (Session_Mode s))" and ?r = "ToolResult (lost_result b)"
  have ne: "Entries s \<noteq> []" using assms(1) by (auto simp: wf_session_def Entries_def)
  have vr: "Validate P ?r = None" for P
    using assms(6) by (simp add: lost_result_def Outcome_Valid_def)
  have vd: "Validate (ulid_ParseStrict U) ?d = None"
    using assms(1,6,7) mode_in_valid[OF _ ne]
    by (auto simp: recovery_deny_def Session_Mode_def wf_session_def Decision_Valid_def
        DecidedBy_Valid_def Scope_Valid_def)
  have result: ?thesis
    if mid: "wf_session U mid" "log_ready mid" "fresh (envs (n + k)) mid" "Entries mid = Entries s @ pre"
      and pre: "k = length pre" "result_ids pre = {}" "tool_uses pre = []" "\<forall>e\<in>set pre. recovery_entry e"
      and dec: "bl_ID b \<in> decided_ids (Entries mid)"
      and eq: "recover_loop U envs s (b # bs) n =
        (case Session_Append U (envs (n + k)) mid ?r of
           (s2, Inl err) \<Rightarrow> (s2, n + k, Some err)
         | (s2, Inr _) \<Rightarrow> recover_loop U envs s2 bs (Suc (n + k)))" for mid pre k
  proof -
    have "append_guard (ulid_ParseStrict U) (s_inherited mid) (s_own mid) ?r = None"
      using vr mid pre dec assms(5)
      by (auto simp: append_guard_def is_pending_iff decision_for_None Let_def lost_result_def
          simp flip: Entries_def simp del: Validate.simps)
    then obtain s2 where s2: "Session_Append U (envs (n + k)) mid ?r = (s2, Inr (new_entry (envs (n + k)) ?r))"
      "Entries s2 = Entries mid @ [new_entry (envs (n + k)) ?r]" "s_own s2 \<noteq> []" "log_ready s2"
      by (rule Session_Append_succeeds[OF _ mid(2) good])
    show ?thesis
      by (rule finish[of s2 "Suc k" "pre @ [new_entry (envs (n + k)) ?r]"])
        (use mid s2 pre eq Session_Append_wf[OF mid(1,3) s2(1)] fresh_next[OF mid(3) assms(3) s2(2)] in
          \<open>auto simp: new_entry_def lost_result_def tool_uses_of_def recovery_entry_def\<close>)
  qed
  show ?thesis
  proof (cases "bl_ID b \<in> decided_ids (Entries s)")
    case True
    show ?thesis
      by (rule result[where mid = s and k = 0 and pre = "[]", unfolded add_0_right]) (use assms True in \<open>auto simp: decision_for_None\<close>)
  next
    case False
    then have "append_guard (ulid_ParseStrict U) (s_inherited s) (s_own s) ?d = None"
      using vd assms(5)
      by (auto simp: append_guard_def decision_for_None Let_def recovery_deny_def
          simp flip: Entries_def simp del: Validate.simps)
    then obtain s1 where s1: "Session_Append U (envs n) s ?d = (s1, Inr (new_entry (envs n) ?d))"
      "Entries s1 = Entries s @ [new_entry (envs n) ?d]" "s_own s1 \<noteq> []" "log_ready s1"
      by (rule Session_Append_succeeds[OF _ assms(2) good])
    show ?thesis
      by (rule result[where mid = s1 and k = 1 and pre = "[new_entry (envs n) ?d]", unfolded add_Suc_right add_0_right One_nat_def])
        (use s1 False Session_Append_wf[OF assms(1,4) s1(1)] fresh_next[OF assms(4,3) s1(2)] in
          \<open>auto simp: new_entry_def recovery_deny_def tool_uses_of_def recovery_entry_def decision_for_None\<close>)
  qed
qed

lemma recover_loop_ok:
  assumes "wf_session U s" and "log_ready s" and "increasing_envs envs" and "fresh (envs n) s"
    and "distinct (map bl_ID bs)" and "\<forall>b\<in>set bs. is_pending (Entries s) (bl_ID b) \<and> bl_ID b \<noteq> [] \<and> bl_Name b \<noteq> []"
  shows "\<exists>s' added. recover_loop U envs s bs n = (s', n + length added, None) \<and>
    Entries s' = Entries s @ added \<and> wf_session U s' \<and> log_ready s' \<and>
    result_ids added = bl_ID ` set bs \<and> tool_uses added = [] \<and> (\<forall>e\<in>set added. recovery_entry e)"
  using assms
proof (induction bs arbitrary: s n)
  case Nil
  then show ?case by (intro exI[of _ s] exI[of _ "[]"]) simp
next
  case (Cons b bs)
  from Cons.prems obtain s2 m a where step:
    "recover_loop U envs s (b # bs) n = recover_loop U envs s2 bs (n + m)"
    "m = length a" "Entries s2 = Entries s @ a" "wf_session U s2" "log_ready s2" "fresh (envs (n + m)) s2"
    "result_ids a = {bl_ID b}" "tool_uses a = []" "\<forall>e\<in>set a. recovery_entry e"
    by (auto elim: recover_step[of U s envs n b bs])
  have "\<forall>x\<in>set bs. is_pending (Entries s2) (bl_ID x) \<and> bl_ID x \<noteq> [] \<and> bl_Name x \<noteq> []"
  proof
    fix x
    assume x: "x \<in> set bs"
    with Cons.prems(5) have "bl_ID x \<noteq> bl_ID b"
      by (metis distinct.simps(2) imageI list.set_map list.simps(9))
    with x Cons.prems(6) step(3,7,8)
    show "is_pending (Entries s2) (bl_ID x) \<and> bl_ID x \<noteq> [] \<and> bl_Name x \<noteq> []"
      by (simp add: is_pending_iff)
  qed
  with Cons.IH[OF step(4,5) Cons.prems(3) step(6)] Cons.prems(5) obtain s' a' where
    "recover_loop U envs s2 bs (n + m) = (s', n + m + length a', None)" "Entries s' = Entries s2 @ a'"
    "wf_session U s'" "log_ready s'" "result_ids a' = bl_ID ` set bs" "tool_uses a' = []"
    "\<forall>e\<in>set a'. recovery_entry e"
    by auto
  with step show ?case by (intro exI[of _ s'] exI[of _ "a @ a'"]) auto
qed

section \<open>Recovery with a repeated id\<close>

lemma Session_Append_result_ids:
  "Session_Append U env s p = (s', r) \<Longrightarrow> result_ids (Entries s) \<subseteq> result_ids (Entries s')"
  by (auto elim!: Session_Append_cases simp: Entries_def simp del: result_ids_simps(3))

lemma Append_result_recorded:
  "Session_Append U env s (ToolResult (lost_result b)) = (s', Inr e) \<Longrightarrow>
    bl_ID b \<in> result_ids (Entries s') \<and> bl_ID b \<notin> result_ids (Entries s)"
  by (erule Session_Append_cases)
    (auto simp: append_guard_def Let_def is_pending_iff Entries_def lost_result_def new_entry_def
      split: option.splits if_splits)

lemma recover_loop_step_inv:
  assumes "recover_loop U envs s (b # bs) n = (s', m, None)"
  obtains s2 n2 where "recover_loop U envs s2 bs n2 = (s', m, None)"
    "result_ids (Entries s) \<subseteq> result_ids (Entries s2)" "bl_ID b \<in> result_ids (Entries s2)"
    "bl_ID b \<notin> result_ids (Entries s)"
proof -
  from assms obtain s1 n1 s2 e where 0: "s1 = s \<or> (\<exists>env p r. Session_Append U env s p = (s1, r))"
    and 1: "Session_Append U (envs n1) s1 (ToolResult (lost_result b)) = (s2, Inr e)"
    "recover_loop U envs s2 bs (Suc n1) = (s', m, None)"
    by (auto split: if_splits prod.splits sum.splits) blast+
  from 0 have "result_ids (Entries s) \<subseteq> result_ids (Entries s1)"
    using Session_Append_result_ids by blast
  with 1 that Append_result_recorded[OF 1(1)] Session_Append_result_ids[OF 1(1)] show ?thesis by blast
qed

lemma recover_loop_distinct:
  assumes "recover_loop U envs s bs n = (s', m, None)"
  shows "distinct (map bl_ID bs) \<and> (\<forall>b\<in>set bs. bl_ID b \<notin> result_ids (Entries s))"
  using assms
proof (induction bs arbitrary: s n)
  case Nil
  then show ?case by simp
next
  case (Cons b bs)
  from Cons.prems obtain s2 n2 where 1: "recover_loop U envs s2 bs n2 = (s', m, None)"
    "result_ids (Entries s) \<subseteq> result_ids (Entries s2)" "bl_ID b \<in> result_ids (Entries s2)"
    "bl_ID b \<notin> result_ids (Entries s)"
    by (rule recover_loop_step_inv)
  from Cons.IH[OF 1(1)] 1(2-4) show ?case by force
qed

end
