(* ===== verification/Samples.thy ===== *)
theory Samples
  imports Recovery
begin

text \<open>
  Concrete values for the witnesses: an instance of the third-party ULID package (decimal text of
  26 digits), environments whose ids increase and whose writes succeed, and a session that was
  opened, prompted and answered with a tool use.
\<close>

definition ulid0 :: ulid_lib where
  "ulid0 = \<lparr>ulid_String = (\<lambda>n. pad 26 n),
            ulid_ParseStrict = (\<lambda>s. if length s = 26 then Some (nat_of_digits 0 s) else None),
            ulid_UnmarshalText = (\<lambda>s. if length s = 26 then Some (nat_of_digits 0 s) else None)\<rparr>"

definition time0 :: Time where
  "time0 = \<lparr>t_year = 2026, t_month = 9, t_day = 7, t_hour = 12, t_min = 30, t_sec = 1, t_nano = 500, t_off = 0\<rparr>"

definition env0 :: "nat \<Rightarrow> call_env" where
  "env0 k = \<lparr>ce_id = Suc k, ce_now = time0, ce_write = WriteOK, ce_sync = SyncOK\<rparr>"

definition model0 :: ModelRef where
  "model0 = \<lparr>mr_Provider = ''anthropic'', mr_Model = ''opus''\<rparr>"

definition opened0 :: SessionOpened where
  "opened0 = \<lparr>so_SchemaVersion = 2, so_RudyVersion = ''1'',
     so_Workspace = \<lparr>ws_Root = ''/w'', ws_GitRoot = [], ws_ProjectID = []\<rparr>,
     so_Model = model0, so_Thinking = ThinkingOff, so_Mode = ModeStrict, so_Agent = ''default'',
     so_ParentSessionID = [], so_ParentToolUseID = [], so_Tools = None, so_Execution = zero_Execution\<rparr>"

definition prompt0 :: payload where
  "prompt0 = UserMessage \<lparr>um_Source = SourceTyped, um_Content = [TextBlock ''hi'']\<rparr>"

definition answer0 :: "Block list \<Rightarrow> payload" where
  "answer0 bs = AssistantMessage \<lparr>am_Model = model0, am_Thinking = ThinkingOff, am_Content = bs,
     am_Usage = zero_Usage, am_StopReason = StopToolUse, am_StopReasonRaw = []\<rparr>"

definition use0 :: "bytes \<Rightarrow> Block" where
  "use0 i = ToolUseBlock i ''bash'' ''{}''"

definition append_all :: "nat \<Rightarrow> payload list \<Rightarrow> Session \<Rightarrow> Session" where
  "append_all k ps s = fst (fold (\<lambda>p (s, i). (fst (Session_Append ulid0 (env0 i) s p), Suc i)) ps (s, k))"

definition root0 :: Session where
  "root0 = projr (Session_Open ulid0 True 7 (env0 0) SyncOK opened0)"

definition pending0 :: "bytes list \<Rightarrow> Session" where
  "pending0 ids = append_all 1 [prompt0, answer0 (map use0 ids)] root0"

definition allow0 :: "bytes \<Rightarrow> payload" where
  "allow0 i = PermissionDecision \<lparr>pd_ToolUseID = i, pd_Tool = ''bash'', pd_Mode = ModeStrict,
     pd_Matcher = \<lparr>ma_Tool = ''bash'', ma_Prefix = []\<rparr>, pd_Decision = Allow, pd_DecidedBy = ByAsker,
     pd_Scope = ScopeSession, pd_Reason = ''user allowed'', pd_Input = []\<rparr>"

definition result0 :: "bytes \<Rightarrow> payload" where
  "result0 i = ToolResult \<lparr>tr_ToolUseID = i, tr_Outcome = OutcomeOK,
     tr_Content = [TextBlock ''done''], tr_DurationMS = 3\<rparr>"

definition compaction0 :: "ulid \<Rightarrow> ulid \<Rightarrow> payload" where
  "compaction0 a b = Compaction \<lparr>co_Summary = ''so far'', co_FirstEntryID = a, co_LastEntryID = b,
     co_Model = model0, co_Usage = zero_Usage\<rparr>"

definition answered0 :: Session where
  "answered0 = append_all 1 [prompt0, answer0 [use0 ''t1''], allow0 ''t1'', result0 ''t1''] root0"

definition compacted0 :: Session where
  "compacted0 = append_all 1 [prompt0, answer0 [use0 ''t1''], allow0 ''t1'', result0 ''t1'',
     compaction0 1 3, prompt0] root0"

lemmas payload0_defs = prompt0_def answer0_def allow0_def result0_def compaction0_def

section \<open>The entries of the samples\<close>

fun entries0 :: "nat \<Rightarrow> payload list \<Rightarrow> Entry list" where
  "entries0 k [] = []"
| "entries0 k (p # ps) = new_entry (env0 k) p # entries0 (Suc k) ps"

fun admitted0 :: "nat \<Rightarrow> payload list \<Rightarrow> Entry list \<Rightarrow> bool" where
  "admitted0 k [] own = True"
| "admitted0 k (p # ps) own =
     (append_guard (ulid_ParseStrict ulid0) [] own p = None \<and>
      admitted0 (Suc k) ps (own @ [new_entry (env0 k) p]))"

lemma good_env0 [simp]: "good_env (env0 k)"
  by (simp add: good_env_def env0_def)

lemma root0_open: "Session_Open ulid0 True 7 (env0 0) SyncOK opened0 = Inr root0"
  and root0_shape: "log_ready root0 \<and> s_inherited root0 = [] \<and> Entries root0 = entries0 0 [SessionOpened opened0]"
proof -
  have "Validate (ulid_ParseStrict ulid0) (SessionOpened opened0) = None" by code_simp
  from Session_Open_succeeds[OF this good_env0[of 0], of 7] obtain s where
    s: "Session_Open ulid0 True 7 (env0 0) SyncOK opened0 = Inr s" "log_ready s" "s_inherited s = []" by blast
  then have "root0 = s" by (simp add: root0_def)
  with s Session_Open_shape[OF s(1)]
  show "Session_Open ulid0 True 7 (env0 0) SyncOK opened0 = Inr root0"
    "log_ready root0 \<and> s_inherited root0 = [] \<and> Entries root0 = entries0 0 [SessionOpened opened0]"
    by simp_all
qed

lemma append_all_entries:
  assumes "log_ready s" and "s_inherited s = []" and "admitted0 k ps (Entries s)"
  shows "Entries (append_all k ps s) = Entries s @ entries0 k ps \<and> log_ready (append_all k ps s) \<and>
    s_inherited (append_all k ps s) = []"
  using assms
proof (induction ps arbitrary: s k)
  case Nil
  then show ?case by (simp add: append_all_def)
next
  case (Cons p ps)
  have "append_guard (ulid_ParseStrict ulid0) (s_inherited s) (s_own s) p = None"
    using Cons.prems by (simp add: Entries_def)
  from Session_Append_succeeds[OF this Cons.prems(1) good_env0[of k]] obtain s' where
    s': "Session_Append ulid0 (env0 k) s p = (s', Inr (new_entry (env0 k) p))"
    "Entries s' = Entries s @ [new_entry (env0 k) p]" "log_ready s'" by blast
  with Cons.IH[OF s'(3)] Cons.prems Session_Append_inherited[OF s'(1)] show ?case
    by (simp add: append_all_def)
qed

lemma append_root0:
  assumes "admitted0 1 ps (entries0 0 [SessionOpened opened0])"
  shows "Entries (append_all 1 ps root0) = entries0 0 (SessionOpened opened0 # ps) \<and>
    log_ready (append_all 1 ps root0) \<and> s_inherited (append_all 1 ps root0) = []"
  using append_all_entries[of root0 1 ps] assms root0_shape by simp

lemma pending0_entries:
  "Entries (pending0 [''t1'']) = entries0 0 [SessionOpened opened0, prompt0, answer0 [use0 ''t1'']] \<and>
   log_ready (pending0 [''t1'']) \<and> s_inherited (pending0 [''t1'']) = []"
  unfolding pending0_def list.map by (rule append_root0) code_simp

lemma twice0_entries:
  "Entries (pending0 [''t1'', ''t1'']) =
     entries0 0 [SessionOpened opened0, prompt0, answer0 [use0 ''t1'', use0 ''t1'']] \<and>
   log_ready (pending0 [''t1'', ''t1'']) \<and> s_inherited (pending0 [''t1'', ''t1'']) = []"
  unfolding pending0_def list.map by (rule append_root0) code_simp

lemma answered0_entries:
  "Entries answered0 =
     entries0 0 [SessionOpened opened0, prompt0, answer0 [use0 ''t1''], allow0 ''t1'', result0 ''t1''] \<and>
   log_ready answered0 \<and> s_inherited answered0 = []"
  unfolding answered0_def by (rule append_root0) code_simp

lemma compacted0_entries:
  "Entries compacted0 =
     entries0 0 [SessionOpened opened0, prompt0, answer0 [use0 ''t1''], allow0 ''t1'', result0 ''t1'',
       compaction0 1 3, prompt0] \<and>
   log_ready compacted0 \<and> s_inherited compacted0 = []"
  unfolding compacted0_def by (rule append_root0) code_simp

lemma sample_append:
  assumes "log_ready s" and "s_inherited s = []" and "append_guard (ulid_ParseStrict ulid0) [] (Entries s) p = None"
  obtains s' where "Session_Append ulid0 (env0 k) s p = (s', Inr (new_entry (env0 k) p))"
    "Entries s' = Entries s @ [new_entry (env0 k) p]" "log_ready s'" "s_inherited s' = []"
proof -
  have "append_guard (ulid_ParseStrict ulid0) (s_inherited s) (s_own s) p = None" using assms by (simp add: Entries_def)
  from Session_Append_succeeds[OF this assms(1) good_env0[of k]] obtain s' where
    s': "Session_Append ulid0 (env0 k) s p = (s', Inr (new_entry (env0 k) p))"
    "Entries s' = Entries s @ [new_entry (env0 k) p]" "log_ready s'" by blast
  with that Session_Append_inherited[OF s'(1)] assms(2) show ?thesis by metis
qed

section \<open>The samples are reachable\<close>

lemma reachable_root0: "reachable ulid0 root0"
  by (rule reachable.opened[OF root0_open]) (simp add: env0_def)

lemma Session_Append_ids:
  "\<forall>e\<in>set (Entries s). en_ID e \<le> k \<Longrightarrow>
    \<forall>e\<in>set (Entries (fst (Session_Append U (env0 k) s p))). en_ID e \<le> Suc k"
  by (cases "Session_Append U (env0 k) s p")
    (auto elim!: Session_Append_cases simp: Entries_def new_entry_def env0_def le_Suc_eq)

lemma reachable_append_all:
  "reachable ulid0 s \<Longrightarrow> \<forall>e\<in>set (Entries s). en_ID e \<le> k \<Longrightarrow> reachable ulid0 (append_all k ps s)"
proof (induction ps arbitrary: s k)
  case Nil
  then show ?case by (simp add: append_all_def)
next
  case (Cons p ps)
  let ?s = "fst (Session_Append ulid0 (env0 k) s p)"
  have "fresh (env0 k) s" using Cons.prems(2) by (auto simp: fresh_def env0_def)
  then have "reachable ulid0 ?s"
    using reachable.append[OF Cons.prems(1), of "env0 k" p] by (metis prod.collapse)
  from Cons.IH[OF this Session_Append_ids[OF Cons.prems(2)]] show ?case by (simp add: append_all_def)
qed

lemma reachable_samples:
  "reachable ulid0 (pending0 ids)" "reachable ulid0 answered0" "reachable ulid0 compacted0"
proof -
  have "\<forall>e\<in>set (Entries root0). en_ID e \<le> 1"
    using root0_shape by (simp add: new_entry_def env0_def)
  from reachable_append_all[OF reachable_root0 this]
  show "reachable ulid0 (pending0 ids)" "reachable ulid0 answered0" "reachable ulid0 compacted0"
    by (simp_all add: pending0_def answered0_def compacted0_def)
qed

lemma ulid0_ok: "ulid_text_ok ulid0"
  by (simp add: ulid_text_ok_def ulid0_def)

end
