(* ===== verification/Session_Theorems.thy ===== *)
theory Session_Theorems
  imports Samples
begin

text \<open>
  The properties of the session log, each with a witness on a concrete session: what every
  reachable log satisfies, when an append is admitted, what the model reads of a log after a
  compaction and after a fork, what recovery leaves, and what a crash cannot take back.
\<close>

section \<open>The rules of the log\<close>

lemma follows_at:
  "wf_entries P es \<Longrightarrow> es = pre @ e # post \<Longrightarrow> follows pre (en_Payload e)"
  by (simp add: wf_entries_def)

lemma wf_split: "wf_entries P es \<Longrightarrow> es = pre @ e # a @ e' # b \<Longrightarrow> follows (pre @ e # a) (en_Payload e')"
  by (rule follows_at[of P es _ _ b]) simp_all

lemma in_result_ids: "i \<in> result_ids es \<longleftrightarrow> (\<exists>x e y r. es = x @ e # y \<and> en_Payload e = ToolResult r \<and> tr_ToolUseID r = i)"
  unfolding result_ids_def by (fastforce simp: in_set_conv_decomp)

lemma in_decided_ids:
  "i \<in> decided_ids es \<longleftrightarrow>
    (\<exists>x e y d. es = x @ e # y \<and> en_Payload e = PermissionDecision d \<and> pd_ToolUseID d = i)"
  unfolding decided_ids_def by (fastforce simp: in_set_conv_decomp)

lemma no_later_result:
  assumes "wf_entries P es" and "es = pre @ e # post" and "i \<in> result_ids (pre @ [e])"
  shows "i \<notin> result_ids post"
proof
  assume "i \<in> result_ids post"
  then obtain x e' y r where "post = x @ e' # y" "en_Payload e' = ToolResult r" "tr_ToolUseID r = i"
    unfolding in_result_ids by blast
  with wf_split[OF assms(1), of pre e x e' y] assms(2,3) show False
    by (auto simp: follows_def split: payload.splits)
qed

lemma no_later_decision:
  assumes "wf_entries P es" and "es = pre @ e # post" and "i \<in> result_ids (pre @ [e]) \<union> decided_ids (pre @ [e])"
  shows "i \<notin> decided_ids post"
proof
  assume "i \<in> decided_ids post"
  then obtain x e' y d where "post = x @ e' # y" "en_Payload e' = PermissionDecision d" "pd_ToolUseID d = i"
    unfolding in_decided_ids by blast
  with wf_split[OF assms(1), of pre e x e' y] assms(2,3) show False
    by (auto simp: follows_def split: payload.splits)
qed

text \<open>
  C1: In every session the code can reach (opened, appended to, forked, synced and closed in any
  order, with any outcome of the writes), the entries the session sees satisfy the log's promise:
  ids strictly increase, every payload is valid and of its kind, and each entry may follow the
  ones before it.
\<close>

theorem reachable_log_wf:
  assumes "reachable U s"
  shows "wf_entries (ulid_ParseStrict U) (Entries s) \<and> s_own s \<noteq> []"
  using reachable_wf[OF assms] by (simp add: wf_session_def)

theorem reachable_log_wf_witness:
  "wf_entries (ulid_ParseStrict ulid0) (Entries answered0) \<and> s_own answered0 \<noteq> []"
  by (rule reachable_log_wf[OF reachable_samples(2)])

text \<open>
  C2: No tool runs unrecorded: in a reachable log every tool result comes after the assistant
  message that asked for the tool and after a permission decision on it, and no other result and
  no second decision for the same tool use is anywhere in the log.
\<close>

theorem result_after_decision:
  assumes "reachable U s" and "Entries s = pre @ e # post" and "en_Payload e = ToolResult r"
  shows "tr_ToolUseID r \<in> bl_ID ` set (tool_uses pre) \<and>
    (\<exists>x y d. pre = x @ d # y \<and> tr_ToolUseID r \<notin> decided_ids (x @ y @ post) \<and>
       (\<exists>v. en_Payload d = PermissionDecision v \<and> pd_ToolUseID v = tr_ToolUseID r)) \<and>
    tr_ToolUseID r \<notin> result_ids (pre @ post)"
proof -
  let ?i = "tr_ToolUseID r"
  from assms(1) have wf: "wf_entries (ulid_ParseStrict U) (Entries s)"
    using reachable_wf by (simp add: wf_session_def)
  from follows_at[OF wf assms(2)] assms(3) have f: "?i \<in> bl_ID ` set (tool_uses pre)"
    "?i \<notin> result_ids pre" "?i \<in> decided_ids pre" by (simp_all add: follows_def)
  from f(3) obtain x d y v where d: "pre = x @ d # y" "en_Payload d = PermissionDecision v" "pd_ToolUseID v = ?i"
    unfolding in_decided_ids by blast
  have "?i \<notin> decided_ids (y @ e # post)"
    by (rule no_later_decision[OF wf, of x d]) (use assms(2) d in auto)
  moreover have "?i \<notin> decided_ids x"
    using wf_split[OF wf, of "[]"] follows_at[OF wf, of x d] assms(2) d by (simp add: follows_def)
  ultimately have "?i \<notin> decided_ids (x @ y @ post)" using assms(3) by simp
  moreover have "?i \<notin> result_ids post"
    by (rule no_later_result[OF wf assms(2)]) (simp add: assms(3))
  ultimately show ?thesis using f d by auto
qed

theorem result_after_decision_witness:
  "\<exists>pre e post r. Entries answered0 = pre @ e # post \<and> en_Payload e = ToolResult r \<and>
    tr_ToolUseID r = ''t1'' \<and> ''t1'' \<in> bl_ID ` set (tool_uses pre) \<and> ''t1'' \<notin> result_ids (pre @ post)"
proof -
  let ?pre = "entries0 0 [SessionOpened opened0, prompt0, answer0 [use0 ''t1''], allow0 ''t1'']"
    and ?e = "new_entry (env0 4) (result0 ''t1'')"
  have es: "Entries answered0 = ?pre @ ?e # []" by (simp add: answered0_entries eval_nat_numeral)
  obtain r where r: "en_Payload ?e = ToolResult r" "tr_ToolUseID r = ''t1''"
    by (simp add: new_entry_def result0_def)
  from result_after_decision[OF reachable_samples(2) es r(1), unfolded r(2)] es r show ?thesis by blast
qed

section \<open>When an append is admitted\<close>

text \<open>
  C8: On a reachable session whose log takes writes, an append succeeds exactly when the payload
  is valid, may follow the entries the session sees, and is not a second fork point. A success
  adds that one entry and nothing else; a refusal leaves the session, its log included, as it was.
\<close>

theorem append_admits_exactly:
  assumes "reachable U s" and "log_ready s" and "good_env env" and "Session_Append U env s p = (s', r)"
  shows "(is_ok r \<longleftrightarrow> Validate (ulid_ParseStrict U) p = None \<and> follows (Entries s) p \<and> (\<forall>f. p \<noteq> ForkPoint f)) \<and>
    (is_ok r \<longrightarrow> Entries s' = Entries s @ [new_entry env p] \<and> r = Inr (new_entry env p)) \<and>
    (\<not> is_ok r \<longrightarrow> s' = s)"
proof -
  have own: "s_own s \<noteq> []" using reachable_wf[OF assms(1)] by (simp add: wf_session_def)
  then have iff: "append_guard (ulid_ParseStrict U) (s_inherited s) (s_own s) p = None \<longleftrightarrow>
    Validate (ulid_ParseStrict U) p = None \<and> follows (Entries s) p \<and> (\<forall>f. p \<noteq> ForkPoint f)"
    unfolding Entries_def by (intro append_guard_iff) auto
  show ?thesis
  proof (cases "append_guard (ulid_ParseStrict U) (s_inherited s) (s_own s) p")
    case None
    with assms(4) Session_Append_succeeds[OF None assms(2,3)] iff show ?thesis
      by (metis (no_types, lifting) is_ok.simps(2) prod.inject)
  next
    case (Some err)
    with assms(4) have "s' = s" "r = Inl (ErrInvariant err)" by (auto simp: Session_Append_def)
    with Some iff show ?thesis by simp
  qed
qed

theorem append_admits_exactly_witness:
  "is_ok (snd (Session_Append ulid0 (env0 5) answered0 (compaction0 1 3))) \<and>
   \<not> is_ok (snd (Session_Append ulid0 (env0 5) answered0 (result0 ''t1'')))"
proof -
  note ex = append_admits_exactly[OF reachable_samples(2) _ good_env0[of 5] prod.collapse[symmetric]]
  have ready: "log_ready answered0" by (simp add: answered0_entries)
  have "Validate (ulid_ParseStrict ulid0) (compaction0 1 3) = None" by code_simp
  moreover have "follows (Entries answered0) (compaction0 1 3)"
    by (simp add: answered0_entries follows_def compaction0_def has_id_def new_entry_def env0_def)
  moreover have "\<not> follows (Entries answered0) (result0 ''t1'')"
    by (simp add: answered0_entries follows_def payload0_defs new_entry_def)
  ultimately show ?thesis
    using ex[OF ready, of "compaction0 1 3"] ex[OF ready, of "result0 ''t1''"] by (simp add: compaction0_def)
qed

section \<open>What a request sees\<close>

lemma sorted_above:
  assumes "wf_entries P es" and "es = pre @ e # post"
  shows "filter (\<lambda>x. en_ID e < en_ID x \<and> Q x) es = filter Q post"
proof -
  from assms have 1: "\<forall>x\<in>set pre. en_ID x < en_ID e" "\<forall>x\<in>set post. en_ID e < en_ID x"
    by (auto simp: wf_entries_def sorted_wrt_append)
  then have "filter (\<lambda>x. en_ID e < en_ID x \<and> Q x) pre = []" by (auto simp: filter_empty_conv)
  moreover have "filter (\<lambda>x. en_ID e < en_ID x \<and> Q x) post = filter Q post"
    using 1(2) by (intro filter_cong) auto
  ultimately show ?thesis using assms(2) by simp
qed

lemma request_context_from_split:
  assumes "compaction_of c = Some v" and "\<forall>x\<in>set post. compaction_of x = None"
  shows "request_context_from all (rev post @ c # back) =
    c # filter (\<lambda>x. co_LastEntryID v < en_ID x \<and> en_Kind x \<noteq> KindCompaction) all"
proof -
  have "request_context_from all (xs @ c # back) =
    c # filter (\<lambda>x. co_LastEntryID v < en_ID x \<and> en_Kind x \<noteq> KindCompaction) all"
    if "\<forall>x\<in>set xs. compaction_of x = None" for xs
    using that assms(1) by (induction xs) auto
  with assms(2) show ?thesis by simp
qed

lemma request_context_none: "\<forall>x\<in>set es. compaction_of x = None \<Longrightarrow> request_context es = es"
proof -
  have "request_context_from all xs = all" if "\<forall>x\<in>set xs. compaction_of x = None" for all xs
    using that by (induction xs) auto
  then show "\<forall>x\<in>set es. compaction_of x = None \<Longrightarrow> request_context es = es"
    by (simp add: request_context_def)
qed

lemma entry_ok_kind: "entry_ok P e \<Longrightarrow> en_Kind e \<noteq> KindCompaction \<longleftrightarrow> compaction_of e = None"
  by (cases "en_Payload e") (auto simp: entry_ok_def compaction_of_def enum_defs simp del: Validate.simps)

lemma request_context_at:
  assumes wf: "wf_entries P es" and es: "es = before @ c # after" and "en_Payload c = Compaction v"
    and "\<forall>x\<in>set after. en_Kind x \<noteq> KindCompaction"
  shows "\<exists>pre e mid. before = pre @ e # mid \<and> en_ID e = co_LastEntryID v \<and>
    request_context es = c # filter (\<lambda>x. en_Kind x \<noteq> KindCompaction) (mid @ after)"
proof -
  from follows_at[OF wf es] assms(3) obtain e where "e \<in> set before" "en_ID e = co_LastEntryID v"
    by (auto simp: follows_def has_id_def)
  then obtain pre mid where e: "before = pre @ e # mid" "en_ID e = co_LastEntryID v" by (metis split_list)
  have c: "compaction_of c = Some v" using assms(3) by (simp add: compaction_of_def)
  have ok: "entry_ok P x" if "x \<in> set es" for x using wf that by (simp add: wf_entries_def)
  have "en_Kind c = KindCompaction" using entry_ok_kind[OF ok, of c] c es by auto
  moreover have "\<forall>x\<in>set after. compaction_of x = None"
    using entry_ok_kind[OF ok] es assms(4) by auto
  from request_context_from_split[OF c this, of es "rev before"] es
  have "request_context es = c # filter (\<lambda>x. co_LastEntryID v < en_ID x \<and> en_Kind x \<noteq> KindCompaction) es"
    by (simp add: request_context_def)
  ultimately show ?thesis
    using e sorted_above[OF wf, of pre e "mid @ c # after" "\<lambda>x. en_Kind x \<noteq> KindCompaction"] es by auto
qed

text \<open>The two shapes of a request context: the whole log, or the newest compaction and what follows its range.\<close>

lemma request_context_cases:
  assumes "wf_entries P es"
  obtains (plain) "\<forall>x\<in>set es. compaction_of x = None" "request_context es = es"
  | (compacted) pre e mid c after v where "es = pre @ e # mid @ c # after" "en_Payload c = Compaction v"
      "en_ID e = co_LastEntryID v"
      "request_context es = c # filter (\<lambda>x. en_Kind x \<noteq> KindCompaction) (mid @ after)"
proof (cases "\<exists>x\<in>set es. compaction_of x \<noteq> None")
  case False
  with plain request_context_none[of es] show ?thesis by auto
next
  case True
  then obtain before c after where es: "es = before @ c # after" "compaction_of c \<noteq> None"
    "\<forall>x\<in>set after. \<not> compaction_of x \<noteq> None" by (rule split_list_last_propE)
  from es(2) obtain v where v: "en_Payload c = Compaction v"
    by (auto simp: compaction_of_def split: payload.splits)
  have "en_Kind x \<noteq> KindCompaction" if "x \<in> set after" for x
    using entry_ok_kind[of P x] assms es that by (auto simp: wf_entries_def)
  with request_context_at[OF assms es(1) v] obtain pre e mid where
    "before = pre @ e # mid" "en_ID e = co_LastEntryID v"
    "request_context es = c # filter (\<lambda>x. en_Kind x \<noteq> KindCompaction) (mid @ after)" by blast
  with compacted es(1) v show ?thesis by simp
qed

text \<open>
  C9: After a compaction a request is the newest compaction followed, in order, by exactly the
  non-compaction entries that come after the last entry the compaction covers. The cut is at a
  position of the log that lies before the compaction, so no entry written after the covered
  range is lost and none inside it is sent again.
\<close>

theorem request_context_cut:
  assumes "reachable U s" and "Entries s = before @ c # after" and "en_Payload c = Compaction v"
    and "\<forall>x\<in>set after. en_Kind x \<noteq> KindCompaction"
  shows "\<exists>pre e mid. before = pre @ e # mid \<and> en_ID e = co_LastEntryID v \<and>
    RequestContext s = c # filter (\<lambda>x. en_Kind x \<noteq> KindCompaction) (mid @ after)"
  unfolding RequestContext_def
  by (rule request_context_at[of "ulid_ParseStrict U", OF _ assms(2-4)]) (use reachable_wf[OF assms(1)] in \<open>simp add: wf_session_def\<close>)

theorem request_context_cut_witness:
  "\<exists>c. map en_Payload (RequestContext compacted0) = [compaction0 1 3, allow0 ''t1'', result0 ''t1'', prompt0] \<and>
    hd (RequestContext compacted0) = c \<and> en_ID c = 6"
proof -
  let ?b = "entries0 0 [SessionOpened opened0, prompt0, answer0 [use0 ''t1''], allow0 ''t1'', result0 ''t1'']"
    and ?c = "new_entry (env0 5) (compaction0 1 3)" and ?a = "[new_entry (env0 6) prompt0]"
  have es: "Entries compacted0 = ?b @ ?c # ?a" by (simp add: compacted0_entries eval_nat_numeral)
  obtain v where v: "en_Payload ?c = Compaction v" "co_LastEntryID v = 3"
    by (simp add: new_entry_def compaction0_def)
  have k: "\<forall>x\<in>set ?a. en_Kind x \<noteq> KindCompaction" by (simp add: new_entry_def prompt0_def enum_defs)
  from request_context_cut[OF reachable_samples(3) es v(1) k] v(2) obtain pre e mid where
    cut: "?b = pre @ e # mid" "en_ID e = 3"
    "RequestContext compacted0 = ?c # filter (\<lambda>x. en_Kind x \<noteq> KindCompaction) (mid @ ?a)" by auto
  have "mid = [new_entry (env0 3) (allow0 ''t1''), new_entry (env0 4) (result0 ''t1'')]"
    using cut(1,2) by (auto simp: Cons_eq_append_conv new_entry_def env0_def eval_nat_numeral)
  with cut(3) show ?thesis
    by (simp add: new_entry_def env0_def payload0_defs enum_defs)
qed

section \<open>Forking\<close>

lemma request_context_snoc:
  assumes "wf_entries P es" and "entry_ok P e" and "compaction_of e = None" and "\<forall>x\<in>set es. en_ID x < en_ID e"
  shows "request_context (es @ [e]) = request_context es @ [e]"
proof -
  have k: "en_Kind e \<noteq> KindCompaction" using entry_ok_kind[OF assms(2)] assms(3) by simp
  have "request_context_from (es @ [e]) xs = request_context_from es xs @ [e]"
    if "\<exists>ys. es = rev xs @ ys" for xs
    using that
  proof (induction xs)
    case Nil
    then show ?case by simp
  next
    case (Cons x xs)
    show ?case
    proof (cases "compaction_of x")
      case None
      with Cons show ?thesis by auto
    next
      case (Some v)
      with Cons.prems obtain ys where ys: "es = rev xs @ x # ys" "en_Payload x = Compaction v"
        by (auto simp: compaction_of_def split: payload.splits)
      from follows_at[OF assms(1) ys(1)] ys have "has_id es (co_LastEntryID v)" by (auto simp: follows_def)
      with assms(4) Some k show ?thesis by (auto simp: has_id_def)
    qed
  qed
  from this[of "rev es"] assms(3) show ?thesis by (simp add: request_context_def)
qed

lemma fork_point_neutral:
  assumes "en_Payload f = ForkPoint v"
  shows "model_in (es @ [f]) = model_in es" "mode_in (es @ [f]) = mode_in es"
    "PendingToolUsesIn (es @ [f]) = PendingToolUsesIn es"
    "List.map_filter session_allowance (es @ [f]) = List.map_filter session_allowance es"
    "compaction_of f = None"
proof -
  have f: "opened_payload f = None" "model_change f = None" "mode_change f = None" "session_allowance f = None"
    using assms by (simp_all add: opened_payload_def model_change_def mode_change_def session_allowance_def)
  then have "opened_in (es @ [f]) = opened_in es"
    by (simp add: opened_in_def first_some_append split: option.splits)
  with f show "model_in (es @ [f]) = model_in es" "mode_in (es @ [f]) = mode_in es"
    by (simp_all add: model_in_def mode_in_def)
  show "PendingToolUsesIn (es @ [f]) = PendingToolUsesIn es"
    using assms by (simp add: PendingToolUsesIn_eq tool_uses_of_def)
  show "List.map_filter session_allowance (es @ [f]) = List.map_filter session_allowance es"
    using f by (simp add: List.map_filter_def)
  show "compaction_of f = None" using assms by (simp add: compaction_of_def)
qed

text \<open>
  C10: A fork of a reachable session sees the parent's entries up to and including the chosen one
  and then its own fork point, and nothing else; the parent's entries are unchanged. What the
  child answers (model, mode, pending tool uses, allowances, the request context) is what the
  parent answered at that entry, with only the fork point added to the context.
\<close>

theorem fork_is_prefix:
  assumes "reachable U s" and "fresh env s" and "Session_Fork U pio created i env cio s at = (s', Inr child)"
  shows "\<exists>pre e post f. Entries s = pre @ e # post \<and> en_ID e = at \<and> Entries s' = Entries s \<and>
    Entries child = pre @ [e, f] \<and> en_Kind f = KindForkPoint \<and>
    Session_Model child = model_in (pre @ [e]) \<and> Session_Mode child = mode_in (pre @ [e]) \<and>
    PendingToolUses child = PendingToolUsesIn (pre @ [e]) \<and>
    Session_Allowances child = List.map_filter session_allowance (pre @ [e]) \<and>
    RequestContext child = request_context (pre @ [e]) @ [f]"
proof (rule Session_Fork_shape[OF assms(3)])
  fix j
  let ?f = "new_entry env (ForkPoint \<lparr>fp_ParentSessionID = s_id s, fp_ParentEntryID = at\<rparr>)"
  assume j: "j < length (Entries s)" "en_ID (Entries s ! j) = at"
    and inh: "s_inherited child = take (Suc j) (Entries s)" and own: "s_own child = [?f]"
    and same: "Entries s' = Entries s"
  let ?pre = "take j (Entries s)" and ?e = "Entries s ! j"
  have es: "Entries s = ?pre @ ?e # drop (Suc j) (Entries s)" using j by (simp add: id_take_nth_drop)
  have take: "take (Suc j) (Entries s) = ?pre @ [?e]" using j by (simp add: take_Suc_conv_app_nth)
  have child: "Entries child = (?pre @ [?e]) @ [?f]" using inh own take by (simp add: Entries_def)
  have "wf_session U child" by (rule Session_Fork_wf[OF reachable_wf[OF assms(1)] assms(2,3)])
  then have wf: "wf_entries (ulid_ParseStrict U) ((?pre @ [?e]) @ [?f])"
    unfolding wf_session_def child by simp
  have f: "en_Payload ?f = ForkPoint \<lparr>fp_ParentSessionID = s_id s, fp_ParentEntryID = at\<rparr>"
    "en_Kind ?f = KindForkPoint" by (simp_all add: new_entry_def)
  note neutral = fork_point_neutral[OF f(1)]
  have "RequestContext child = request_context (?pre @ [?e]) @ [?f]"
    unfolding RequestContext_def child
    by (rule request_context_snoc[of "ulid_ParseStrict U"]) (use iffD1[OF wf_entries_snoc wf] neutral(5) in blast)+
  moreover have "Session_Model child = model_in (?pre @ [?e])" "Session_Mode child = mode_in (?pre @ [?e])"
    "PendingToolUses child = PendingToolUsesIn (?pre @ [?e])"
    "Session_Allowances child = List.map_filter session_allowance (?pre @ [?e])"
    unfolding Session_Model_def Session_Mode_def PendingToolUses_def Session_Allowances_def child
    by (rule neutral)+
  ultimately show ?thesis using es j same child f(2) by auto
qed

lemma last_index_None: "last_index at i found es = None \<longleftrightarrow> found = None \<and> \<not> has_id es at"
  by (induction es arbitrary: i found) (auto simp: has_id_def)

lemma Session_Fork_succeeds:
  assumes "log_ready s" and "s_id s \<noteq> 0" and "at \<noteq> 0" and "good_env env" and "has_id (Entries s) at"
  shows "is_ok (snd (Session_Fork U SyncOK True i env SyncOK s at))"
proof -
  let ?fp = "ForkPoint \<lparr>fp_ParentSessionID = s_id s, fp_ParentEntryID = at\<rparr>"
  obtain s1 where s1: "Session_Sync SyncOK s = (s1, None)" "Entries s1 = Entries s" "s_id s1 = s_id s"
    by (rule Session_Sync_ready[OF assms(1)])
  obtain j where j: "last_index at 0 None (Entries s) = Some j"
    using assms(5) last_index_None[of at 0 None "Entries s"] by auto
  obtain c where c: "create True i [] = Inr c" "s_own c = []" "log_ready c" by (rule create_succeeds)
  let ?c = "c\<lparr>s_inherited := take (Suc j) (Entries s)\<rparr>"
  have "append_guard (ulid_ParseStrict U) (s_inherited ?c) (s_own ?c) ?fp = None"
    using assms(2,3) c(2) by (simp add: append_guard_def)
  moreover have "log_ready ?c" using c(3) by (simp add: log_ready_def)
  ultimately obtain c2 where c2: "Session_Append U env ?c ?fp = (c2, Inr (new_entry env ?fp))" "log_ready c2"
    using Session_Append_succeeds[OF _ _ assms(4)] by metis
  obtain c3 where "Session_Sync SyncOK c2 = (c3, None)" by (rule Session_Sync_ready[OF c2(2)])
  with s1 j c c2 show ?thesis by (simp add: Session_Fork_def Let_def)
qed

lemma Session_Fork_unknown:
  assumes "log_ready s" and "\<not> has_id (Entries s) at"
  shows "snd (Session_Fork U SyncOK c i env io s at) = Inl (ErrInvariant (ForkAtUnknown at))"
proof -
  obtain s1 where s1: "Session_Sync SyncOK s = (s1, None)" "Entries s1 = Entries s"
    by (rule Session_Sync_ready[OF assms(1)])
  moreover have "last_index at 0 None (Entries s) = None" using assms(2) by (simp add: last_index_None)
  ultimately show ?thesis by (simp add: Session_Fork_def)
qed

text \<open>
  A fork succeeds exactly at the ids the log holds: on a reachable session whose log takes
  writes, with a directory that could be created, \<open>Fork\<close> returns a child when the entry exists
  and the unknown-entry error otherwise.
\<close>

theorem fork_succeeds_exactly:
  assumes "reachable U s" and "log_ready s" and "s_id s \<noteq> 0" and "good_env env"
  shows "if has_id (Entries s) at then is_ok (snd (Session_Fork U SyncOK True i env SyncOK s at))
    else snd (Session_Fork U SyncOK True i env SyncOK s at) = Inl (ErrInvariant (ForkAtUnknown at))"
proof -
  have "at \<noteq> 0" if "has_id (Entries s) at"
    using that reachable_wf[OF assms(1)] by (auto simp: wf_session_def wf_entries_def entry_ok_def has_id_def)
  then show ?thesis using Session_Fork_succeeds[OF assms(2,3) _ assms(4)] Session_Fork_unknown[OF assms(2)] by simp
qed

lemma answered0_id: "s_id answered0 = 7"
proof -
  have "s_id root0 = 7"
    using root0_open by (auto simp: Session_Open_def create_def dest!: Session_Sync_entries Session_Append_inherited
        split: sum.splits prod.splits option.splits)
  moreover have "s_id (append_all k ps s) = s_id s" for k ps s
  proof (induction ps arbitrary: k s)
    case Nil
    then show ?case by (simp add: append_all_def)
  next
    case (Cons p ps)
    have "s_id (fst (Session_Append ulid0 (env0 k) s p)) = s_id s"
      using Session_Append_inherited by (metis prod.collapse)
    with Cons show ?case by (simp add: append_all_def)
  qed
  ultimately show ?thesis by (simp add: answered0_def)
qed

theorem fork_succeeds_exactly_witness:
  "is_ok (snd (Session_Fork ulid0 SyncOK True 8 (env0 5) SyncOK answered0 2)) \<and>
   snd (Session_Fork ulid0 SyncOK True 8 (env0 5) SyncOK answered0 99) = Inl (ErrInvariant (ForkAtUnknown 99))"
proof -
  have "has_id (Entries answered0) 2" "\<not> has_id (Entries answered0) 99"
    by (simp_all add: answered0_entries has_id_def new_entry_def env0_def)
  with fork_succeeds_exactly[OF reachable_samples(2), of "env0 5" 2 8]
    fork_succeeds_exactly[OF reachable_samples(2), of "env0 5" 99 8]
  show ?thesis by (simp add: answered0_entries answered0_id)
qed

theorem fork_is_prefix_witness:
  "\<exists>s' child. Session_Fork ulid0 SyncOK True 8 (env0 5) SyncOK answered0 2 = (s', Inr child) \<and>
    Entries s' = Entries answered0 \<and> length (Entries child) = 3 \<and> Session_Mode child = ModeStrict"
proof -
  have h: "has_id (Entries answered0) 2" and fr: "fresh (env0 5) answered0"
    by (simp_all add: answered0_entries has_id_def fresh_def new_entry_def env0_def)
  have "is_ok (snd (Session_Fork ulid0 SyncOK True 8 (env0 5) SyncOK answered0 2))"
    by (rule Session_Fork_succeeds) (use h in \<open>simp_all add: answered0_entries answered0_id\<close>)
  then obtain s' child where f: "Session_Fork ulid0 SyncOK True 8 (env0 5) SyncOK answered0 2 = (s', Inr child)"
    by (metis is_ok_iff prod.collapse)
  from fork_is_prefix[OF reachable_samples(2) fr f] obtain pre e post x where
    x: "Entries answered0 = pre @ e # post" "en_ID e = 2" "Entries s' = Entries answered0"
    "Entries child = pre @ [e, x]" "Session_Mode child = mode_in (pre @ [e])" by blast
  have "pre @ [e] = entries0 0 [SessionOpened opened0, prompt0]"
    using x(1,2) by (auto simp: answered0_entries Cons_eq_append_conv new_entry_def env0_def)
  moreover from this have "length pre = 1" by (metis One_nat_def diff_Suc_1 entries0.simps length_Cons length_append_singleton list.size(3))
  ultimately show ?thesis using f x
    by (simp add: mode_in_def opened_in_def opened_payload_def mode_change_def new_entry_def opened0_def prompt0_def)
qed

section \<open>Recovery\<close>

lemma pending_wf:
  assumes "wf_entries P es" and "b \<in> set (PendingToolUsesIn es)"
  shows "is_pending es (bl_ID b) \<and> bl_ID b \<noteq> [] \<and> bl_Name b \<noteq> []"
  using assms tool_use_named[OF assms(1), of b] by (auto simp: is_pending_def PendingToolUsesIn_eq)

lemma Recover_nothing_pending:
  "PendingToolUses s = [] \<Longrightarrow> Recover U envs io s = (s, 0, None)"
  by (simp add: Recover_def)

lemma recover_wf:
  assumes "wf_session U s" and "log_ready s" and "increasing_envs envs" and "fresh (envs 0) s"
    and "distinct (map bl_ID (PendingToolUses s))"
  shows "\<exists>s' added. Recover U envs SyncOK s = (s', length added, None) \<and>
    Entries s' = Entries s @ added \<and> (\<forall>e\<in>set added. recovery_entry e) \<and>
    wf_entries (ulid_ParseStrict U) (Entries s') \<and> PendingToolUses s' = [] \<and>
    Recover U envs' io' s' = (s', 0, None)"
proof -
  have "\<forall>b\<in>set (PendingToolUses s). is_pending (Entries s) (bl_ID b) \<and> bl_ID b \<noteq> [] \<and> bl_Name b \<noteq> []"
    using assms(1) pending_wf by (auto simp: wf_session_def PendingToolUses_def)
  from recover_loop_ok[OF assms this] obtain s1 added where
    s1: "recover_loop U envs s (PendingToolUses s) 0 = (s1, length added, None)"
    "Entries s1 = Entries s @ added" "wf_session U s1" "log_ready s1"
    "result_ids added = bl_ID ` set (PendingToolUses s)" "tool_uses added = []"
    "\<forall>e\<in>set added. recovery_entry e" by auto
  obtain s2 where s2: "Session_Sync SyncOK s1 = (s2, None)" "Entries s2 = Entries s1"
    by (rule Session_Sync_ready[OF s1(4)])
  obtain s' where s': "Recover U envs SyncOK s = (s', length added, None)" "Entries s' = Entries s1"
    using s1(1) s2 by (cases "length added > 0") (auto simp: Recover_def)
  have "PendingToolUses s' = []"
    unfolding PendingToolUses_def PendingToolUsesIn_eq s'(2) s1(2)
    using s1(5,6) by (auto simp: filter_empty_conv PendingToolUses_def PendingToolUsesIn_eq)
  with s' s1 show ?thesis
    by (intro exI[of _ s'] exI[of _ added]) (auto simp: wf_session_def Recover_nothing_pending)
qed

text \<open>
  C3: Recovery of a reachable session whose pending tool uses have distinct ids and whose log
  takes writes always succeeds. It only appends: every appended entry is a deny by no asker or a
  result whose outcome is lost, the log stays well formed, nothing is pending afterwards, and a
  second recovery appends nothing.
\<close>

theorem recover_settles:
  assumes "reachable U s" and "log_ready s" and "increasing_envs envs" and "fresh (envs 0) s"
    and "distinct (map bl_ID (PendingToolUses s))"
  shows "\<exists>s' added. Recover U envs SyncOK s = (s', length added, None) \<and>
    Entries s' = Entries s @ added \<and> (\<forall>e\<in>set added. recovery_entry e) \<and>
    wf_entries (ulid_ParseStrict U) (Entries s') \<and> PendingToolUses s' = [] \<and>
    Recover U envs' io' s' = (s', 0, None)"
  by (rule recover_wf[OF reachable_wf[OF assms(1)] assms(2-5)])

theorem recover_settles_witness:
  "\<exists>s' n. Recover ulid0 (\<lambda>k. env0 (3 + k)) SyncOK (pending0 [''t1'']) = (s', n, None) \<and>
    PendingToolUses s' = [] \<and> PendingToolUses (pending0 [''t1'']) = [use0 ''t1'']"
proof -
  let ?s = "pending0 [''t1'']"
  have p: "PendingToolUses ?s = [use0 ''t1'']"
    unfolding PendingToolUses_def pending0_entries[THEN conjunct1] by code_simp
  have inc: "increasing_envs (\<lambda>k. env0 (3 + k))" by (simp add: increasing_envs_def) (simp add: env0_def)
  have fr: "fresh (env0 (3 + 0)) ?s" by (simp add: pending0_entries fresh_def new_entry_def env0_def)
  have ready: "log_ready ?s" by (simp add: pending0_entries)
  have d: "distinct (map bl_ID (PendingToolUses ?s))" by (simp add: p)
  from recover_settles[OF reachable_samples(1) ready inc fr d, of env0 SyncOK] p show ?thesis by blast
qed

text \<open>
  Recovery needs the ids to be distinct: when two pending tool uses share an id, it fails in
  every environment, because the second lost result answers a tool use that is no longer pending.
\<close>

theorem recover_needs_distinct_ids:
  assumes "Recover U envs io s = (s', n, None)"
  shows "distinct (map bl_ID (PendingToolUses s))"
  using assms recover_loop_distinct[of U envs s "PendingToolUses s" 0]
  by (auto simp: Recover_def split: prod.splits option.splits if_splits)

theorem recover_needs_distinct_ids_witness:
  "snd (snd (Recover ulid0 env0 SyncOK (pending0 [''t1'', ''t1'']))) \<noteq> None"
proof
  let ?s = "pending0 [''t1'', ''t1'']"
  assume "snd (snd (Recover ulid0 env0 SyncOK ?s)) = None"
  then obtain s' n where "Recover ulid0 env0 SyncOK ?s = (s', n, None)" by (metis prod.collapse)
  from recover_needs_distinct_ids[OF this] show False
    unfolding PendingToolUses_def twice0_entries[THEN conjunct1] by code_simp
qed

section \<open>Durability\<close>

lemma durable_append_synced:
  assumes "Session_Append U env s p = (s', Inr e)" and "durableAllow p"
  obtains line where "Entry_MarshalJSON U e = Inr line"
    "lg_written (s_log s') = lg_written (s_log s) @ line @ [c_nl]"
    "lg_synced (s_log s') = length (lg_written (s_log s'))"
proof -
  from assms obtain l l' where l: "Log_Append U (ce_write env) (s_log s) (new_entry env p) = (l, None)"
    "Log_Sync (ce_sync env) l = (l', None)" "s_log s' = l'" "e = new_entry env p"
    by (auto simp: Session_Append_def Let_def split: option.splits prod.splits)
  from l(1) obtain line where "Entry_MarshalJSON U (new_entry env p) = Inr line"
    "lg_written l = lg_written (s_log s) @ line @ [c_nl]" by (rule Log_Append_ok) auto
  with Log_Sync_ok[OF l(2)] l(3,4) show ?thesis by (intro that) auto
qed

text \<open>
  C4: An allow decision is on disk before \<open>Append\<close> returns it, so before any tool runs on it: if
  the append of an allow succeeded, then whatever the log does afterwards, with whatever failures,
  and however many unsynced bytes a crash loses, the file starts with everything written before
  the decision followed by the decision's own complete line.
\<close>

theorem allow_survives_crash:
  assumes "Session_Append U env s p = (s', Inr e)" and "durableAllow p"
  shows "\<exists>line. Entry_MarshalJSON U e = Inr line \<and>
    prefix (lg_written (s_log s) @ line @ [c_nl]) (crash_image (run_ops (log_step U) (s_log s') ops) n)"
proof -
  obtain line where "Entry_MarshalJSON U e = Inr line"
    "lg_written (s_log s') = lg_written (s_log s) @ line @ [c_nl]"
    "lg_synced (s_log s') = length (lg_written (s_log s'))"
    by (rule durable_append_synced[OF assms])
  with synced_in_crash_image[of "s_log s'" U ops n] show ?thesis by auto
qed

theorem allow_survives_crash_witness:
  "\<exists>s' e line. Session_Append ulid0 (env0 3) (pending0 [''t1'']) (allow0 ''t1'') = (s', Inr e) \<and>
    Entry_MarshalJSON ulid0 e = Inr line \<and>
    prefix (lg_written (s_log (pending0 [''t1''])) @ line @ [c_nl])
      (crash_image (run_ops (log_step ulid0) (s_log s') [LAppend (WriteFails 3) e, LSync FsyncFails]) 0)"
proof -
  let ?s = "pending0 [''t1'']"
  have "append_guard (ulid_ParseStrict ulid0) (s_inherited ?s) (Entries ?s) (allow0 ''t1'') = None"
    unfolding pending0_entries[THEN conjunct1] pending0_entries[THEN conjunct2, THEN conjunct2] by code_simp
  then have g: "append_guard (ulid_ParseStrict ulid0) (s_inherited ?s) (s_own ?s) (allow0 ''t1'') = None"
    by (simp add: Entries_def pending0_entries)
  then obtain s' where s': "Session_Append ulid0 (env0 3) ?s (allow0 ''t1'') = (s', Inr (new_entry (env0 3) (allow0 ''t1'')))"
    by (rule Session_Append_succeeds[OF _ _ good_env0]) (simp_all add: pending0_entries)
  have "durableAllow (allow0 ''t1'')" by (simp add: allow0_def durableAllow_def)
  from allow_survives_crash[OF s' this] s' show ?thesis by blast
qed

text \<open>
  A log whose file was whole lines stays so: after any sequence of appends, syncs and closes
  with any outcomes, the accepted bytes are complete lines, none of which contains a line break,
  followed by nothing or, once a write failed, by the start of one line.
\<close>

theorem log_stays_lines:
  assumes "ulid_text_ok U" and "\<forall>x\<in>set ls. one_line x"
  shows "\<exists>ls' part. lg_written (run_ops (log_step U) (OpenLog (file_of ls)) ops) = file_of ls' @ part \<and>
    (\<forall>x\<in>set ls'. one_line x) \<and> one_line part \<and>
    (\<not> lg_broken (run_ops (log_step U) (OpenLog (file_of ls)) ops) \<longrightarrow> part = [])"
proof -
  have "log_shape (OpenLog (file_of ls))"
    unfolding log_shape_def using OpenLog_inv[of ls] assms(2) by blast
  from run_log_shape[OF assms(1) this, of ops] show ?thesis
    unfolding log_shape_def log_inv_def by blast
qed

theorem log_stays_lines_witness:
  "\<exists>ls' part. lg_written (run_ops (log_step ulid0) (OpenLog (file_of [''{}'']))
      [LAppend WriteOK (new_entry (env0 0) prompt0), LAppend (WriteFails 4) (new_entry (env0 1) prompt0)]) =
      file_of ls' @ part \<and> (\<forall>x\<in>set ls'. one_line x) \<and> one_line part"
proof -
  have "\<forall>x\<in>set [''{}'']. one_line x" by (simp add: one_line_def)
  from log_stays_lines[OF ulid0_ok this] show ?thesis by blast
qed

section \<open>Usage\<close>

definition entry_usage :: "Entry \<Rightarrow> Usage" where
  "entry_usage e =
     (case en_Payload e of
        AssistantMessage m \<Rightarrow> am_Usage m | Compaction c \<Rightarrow> co_Usage c | _ \<Rightarrow> zero_Usage)"

lemma usage_loop_sum:
  "usage_loop u es =
    \<lparr>u_Input = u_Input u + sum_list (map (u_Input \<circ> entry_usage) es),
     u_Output = u_Output u + sum_list (map (u_Output \<circ> entry_usage) es),
     u_CacheRead = u_CacheRead u + sum_list (map (u_CacheRead \<circ> entry_usage) es),
     u_CacheWrite = u_CacheWrite u + sum_list (map (u_CacheWrite \<circ> entry_usage) es)\<rparr>"
  by (induction es arbitrary: u)
    (simp_all add: entry_usage_def Usage_Add_def zero_Usage_def add.assoc split: payload.splits)

text \<open>
  The usage of a session is, counter by counter and modulo 2 to the 64, the sum over its
  assistant messages and compactions; the counters of the other entries add nothing.
\<close>

theorem session_usage_is_sum:
  "Session_Usage s =
    \<lparr>u_Input = sum_list (map (u_Input \<circ> entry_usage) (Entries s)),
     u_Output = sum_list (map (u_Output \<circ> entry_usage) (Entries s)),
     u_CacheRead = sum_list (map (u_CacheRead \<circ> entry_usage) (Entries s)),
     u_CacheWrite = sum_list (map (u_CacheWrite \<circ> entry_usage) (Entries s))\<rparr>"
  by (simp add: Session_Usage_def usage_loop_sum zero_Usage_def)

section \<open>Model references\<close>

lemma index_of_colon: "CHR '':'' \<notin> set a \<Longrightarrow> index_of (a @ CHR '':'' # b) '':'' = Some (length a)"
  by (induction a) (auto simp: has_prefix_def)

text \<open>
  Parsing what \<open>ModelRef.String\<close> printed gives the reference back, when both parts are
  non-empty and the provider has no colon; and what \<open>ParseModelRef\<close> accepts prints as it was.
\<close>

theorem model_ref_roundtrip:
  "(mr_Provider m \<noteq> [] \<and> mr_Model m \<noteq> [] \<and> CHR '':'' \<notin> set (mr_Provider m) \<longrightarrow>
      ParseModelRef (ModelRef_String m) = Some m) \<and>
   (ParseModelRef s = Some r \<longrightarrow> ModelRef_String r = s)"
proof (intro conjI impI)
  assume "mr_Provider m \<noteq> [] \<and> mr_Model m \<noteq> [] \<and> CHR '':'' \<notin> set (mr_Provider m)"
  then show "ParseModelRef (ModelRef_String m) = Some m"
    using index_of_colon[of "mr_Provider m" "mr_Model m"] by (auto simp: ParseModelRef_def ModelRef_String_def)
next
  assume r: "ParseModelRef s = Some r"
  then obtain i where i: "index_of s '':'' = Some i" "r = \<lparr>mr_Provider = take i s, mr_Model = drop (Suc i) s\<rparr>"
    by (auto simp: ParseModelRef_def split: option.splits if_splits)
  from index_of_Some[OF i(1)] obtain t where "drop i s = CHR '':'' # t"
    by (auto simp: has_prefix_iff)
  with i(2) show "ModelRef_String r = s"
    by (simp add: ModelRef_String_def drop_Suc flip: tl_drop) (metis append_take_drop_id)
qed

theorem model_ref_roundtrip_witness:
  "ParseModelRef (ModelRef_String model0) = Some model0 \<and>
   (\<exists>r. ParseModelRef ''a:b:c'' = Some r \<and> ModelRef_String r = ''a:b:c'')"
proof -
  obtain r where r: "ParseModelRef ''a:b:c'' = Some r" by (simp add: ParseModelRef_def has_prefix_def)
  with model_ref_roundtrip[of model0 "''a:b:c''" r] show ?thesis by (simp add: model0_def)
qed

end
