(* ===== verification/Gate.thy ===== *)
theory Gate
  imports Entry
begin

text \<open>
  The permission gate, \<open>internal/gate/gate.go\<close> and \<open>internal/gate/matcher.go\<close>: whether a tool
  call runs, asks or is refused. The shell parser (\<open>mvdan.cc/sh\<close>) is a parameter: \<open>sh\<close> maps a
  source text to \<open>None\<close>, when it does not parse, or to the argument words of its \<open>CallExpr\<close>
  nodes in the order \<open>syntax.Walk\<close> visits them. A word is its parts; the parts \<open>partText\<close> prints
  with the package's printer are \<open>Expansion\<close>s of the printed text.

  The lemmas characterise \<open>expand\<close> by the relation \<open>runs\<close> (one call is the command another
  call runs) iterated at most three times, say what each kind of wrapper runs, and give the
  order of precedence of \<open>Evaluate\<close>.
\<close>

section \<open>Words and simple commands\<close>

datatype word_part = Lit bytes | SglQuoted bytes | DblQuoted "word_part list" | Expansion bytes

fun partText :: "word_part \<Rightarrow> bytes" where
  "partText (Lit v) = v"
| "partText (SglQuoted v) = v"
| "partText (DblQuoted ps) = concat (map partText ps)"
| "partText (Expansion printed) = printed"

type_synonym shell_word = "word_part list"
type_synonym shell_parser = "bytes \<Rightarrow> shell_word list list option"

definition wordText :: "shell_word \<Rightarrow> bytes" where
  "wordText w = concat (map partText w)"

definition shellCalls :: "shell_parser \<Rightarrow> bytes \<Rightarrow> bytes list list option" where
  "shellCalls sh src =
     map_option (\<lambda>calls. map (map wordText) (filter (\<lambda>args. args \<noteq> []) calls)) (sh src)"

definition shellCallsOrFields :: "shell_parser \<Rightarrow> bytes \<Rightarrow> bytes list list" where
  "shellCallsOrFields sh src =
     (case shellCalls sh src of
        None \<Rightarrow> [Go_Text.fields src]
      | Some calls \<Rightarrow> if calls = [] then [Go_Text.fields src] else calls)"

definition firstWords :: "bytes list \<Rightarrow> nat \<Rightarrow> bytes" where
  "firstWords words n = join '' '' (if length words > n then take n words else words)"

definition bashCommand :: "bytes \<Rightarrow> bytes option" where
  "bashCommand args =
     (case json_parse args of
        Some (JObj ms) \<Rightarrow>
          (case string_field ''command'' [] ms of
             None \<Rightarrow> None
           | Some c \<Rightarrow> if c = [] then None else Some c)
      | _ \<Rightarrow> None)"

section \<open>Wrappers\<close>

definition shellName :: "bytes \<Rightarrow> bytes" where
  "shellName word = after_last (CHR ''/'') (trim_prefix word [c_backslash])"

definition wrapperDepth :: nat where
  "wrapperDepth = 3"

definition shellFlagged :: "bytes \<Rightarrow> bool" where
  "shellFlagged head \<longleftrightarrow> head \<in> {''sh'', ''bash'', ''zsh'', ''dash'', ''ksh''}"

definition prefixWrappers :: "bytes \<Rightarrow> bool" where
  "prefixWrappers head \<longleftrightarrow>
     head \<in> {''env'', ''xargs'', ''nohup'', ''time'', ''exec'', ''command'', ''sudo'', ''doas'',
             ''nice'', ''ionice'', ''timeout'', ''stdbuf'', ''setsid'', ''watch''}"

text \<open>\<open>findExec\<close>: the inner loop from just after the flag, then the loop over the words.\<close>

fun find_inner :: "bytes list \<Rightarrow> bytes list" where
  "find_inner [] = []"
| "find_inner (w # ws) =
     (if w = '';'' \<or> w = ''+'' \<or> w = c_backslash # '';'' then []
      else if w = ''{}'' then find_inner ws
      else w # find_inner ws)"

fun findExec :: "bytes list \<Rightarrow> bytes list list" where
  "findExec [] = []"
| "findExec (w # ws) =
     (if w \<noteq> ''-exec'' \<and> w \<noteq> ''-execdir'' \<and> w \<noteq> ''-ok'' \<and> w \<noteq> ''-okdir'' then findExec ws
      else (if find_inner ws \<noteq> [] then [find_inner ws] else []) @ findExec ws)"

text \<open>The loop of a shell's flags: the word after the first one that reads as \<open>-...c\<close>.\<close>

definition c_flag :: "bytes \<Rightarrow> bool" where
  "c_flag w \<longleftrightarrow> has_prefix w ''-'' \<and> has_suffix w ''c''"

fun shell_script :: "bytes list \<Rightarrow> bytes option" where
  "shell_script (w # s # ws) = (if c_flag w then Some s else shell_script (s # ws))"
| "shell_script _ = None"

definition own_word :: "bytes \<Rightarrow> bool" where
  "own_word w \<longleftrightarrow> has_prefix w ''-'' \<or> CHR ''='' \<in> set w"

definition unwrap :: "shell_parser \<Rightarrow> bytes list \<Rightarrow> bytes list list" where
  "unwrap sh call =
     (if length call < 2 then []
      else let head = shellName (hd call) in
        if head = ''find'' then findExec call
        else if shellFlagged head then
          (case shell_script (tl call) of None \<Rightarrow> [] | Some script \<Rightarrow> shellCallsOrFields sh script)
        else if head = ''eval'' then shellCallsOrFields sh (join '' '' (tl call))
        else if prefixWrappers head then
          (let rest = dropWhile own_word (tl call) in if rest = [] then [] else [rest])
        else [])"

text \<open>\<open>levels\<close> is how many wrappers may still be followed: \<open>wrapperDepth - depth\<close>.\<close>

fun expand_levels :: "shell_parser \<Rightarrow> nat \<Rightarrow> bytes list list \<Rightarrow> bytes list list" where
  "expand_levels sh 0 calls = calls"
| "expand_levels sh (Suc levels) calls =
     calls @ concat (map (\<lambda>call.
       concat (map (\<lambda>inner. if inner = [] then [] else inner # expand_levels sh levels [inner])
         (unwrap sh call))) calls)"

definition expand :: "shell_parser \<Rightarrow> bytes list list \<Rightarrow> nat \<Rightarrow> bytes list list" where
  "expand sh calls depth = expand_levels sh (wrapperDepth - depth) calls"

definition callForms :: "bytes list \<Rightarrow> bytes list" where
  "callForms call =
     (if call = [] then []
      else let joined = join '' '' call; head = shellName (hd call) in
        if head = hd call then [joined] else [joined, join '' '' (head # tl call)])"

section \<open>The gate\<close>

record Gate =
  g_dangerous :: "bytes list"

definition Gate_New :: "bytes list \<Rightarrow> Gate" where
  "Gate_New dangerous = \<lparr>g_dangerous = dangerous\<rparr>"

definition MatcherFor :: "shell_parser \<Rightarrow> bytes \<Rightarrow> bytes \<Rightarrow> Matcher" where
  "MatcherFor sh tool args =
     (if tool \<noteq> ''bash'' then \<lparr>ma_Tool = tool, ma_Prefix = []\<rparr>
      else case bashCommand args of
          None \<Rightarrow> \<lparr>ma_Tool = tool, ma_Prefix = []\<rparr>
        | Some cmd \<Rightarrow>
            (case shellCalls sh cmd of
               Some (call # _) \<Rightarrow> \<lparr>ma_Tool = tool, ma_Prefix = firstWords call 2\<rparr>
             | _ \<Rightarrow> \<lparr>ma_Tool = tool, ma_Prefix = firstWords (Go_Text.fields cmd) 2\<rparr>))"

definition form_matches :: "bytes \<Rightarrow> bytes \<Rightarrow> bool" where
  "form_matches want joined \<longleftrightarrow> joined = want \<or> has_prefix joined (want @ '' '')"

fun dangerous_entry :: "bytes \<Rightarrow> bytes list list \<Rightarrow> bytes list \<Rightarrow> bytes option" where
  "dangerous_entry tool calls [] = None"
| "dangerous_entry tool calls (d # ds) =
     (case cut_byte (CHR '':'') d of
        (entryTool, pre, scoped) \<Rightarrow>
          if scoped \<and> entryTool \<noteq> tool then dangerous_entry tool calls ds
          else if scoped \<and> pre = [] then Some d
          else if tool \<noteq> ''bash'' then dangerous_entry tool calls ds
          else if list_ex (\<lambda>call. list_ex (form_matches (if scoped then pre else d)) (callForms call)) calls
          then Some d
          else dangerous_entry tool calls ds)"

definition gate_calls :: "shell_parser \<Rightarrow> bytes \<Rightarrow> bytes \<Rightarrow> bytes list list" where
  "gate_calls sh tool args =
     (if tool = ''bash''
      then (case bashCommand args of
              Some cmd \<Rightarrow> expand sh (shellCallsOrFields sh cmd) 0 | None \<Rightarrow> [])
      else [])"

definition Dangerous :: "shell_parser \<Rightarrow> Gate \<Rightarrow> bytes \<Rightarrow> bytes \<Rightarrow> bytes option" where
  "Dangerous sh g tool args = dangerous_entry tool (gate_calls sh tool args) (g_dangerous g)"

type_synonym Safety = bytes

definition Safe :: Safety where [enum_defs]: "Safe = ''safe''"
definition Unsafe :: Safety where [enum_defs]: "Unsafe = ''unsafe''"

record Input =
  in_Tool :: bytes
  in_Safety :: Safety
  in_Mode :: Mode
  in_Args :: bytes
  in_Allowances :: "Matcher list"
  in_AskerPresent :: bool

text \<open>A verdict; when \<open>vd_Ask\<close> is set the decision and who decided are the empty strings.\<close>

record Verdict =
  vd_Decision :: Decision
  vd_DecidedBy :: DecidedBy
  vd_Ask :: bool
  vd_Matcher :: Matcher
  vd_Dangerous :: bool
  vd_Reason :: bytes

definition allow_verdict :: "DecidedBy \<Rightarrow> Matcher \<Rightarrow> bytes \<Rightarrow> Verdict" where
  "allow_verdict by m reason =
     \<lparr>vd_Decision = Allow, vd_DecidedBy = by, vd_Ask = False, vd_Matcher = m, vd_Dangerous = False,
      vd_Reason = reason\<rparr>"

definition ask_or_deny :: "bool \<Rightarrow> Matcher \<Rightarrow> bool \<Rightarrow> bytes \<Rightarrow> Verdict" where
  "ask_or_deny present m dangerous reason =
     (if \<not> present
      then \<lparr>vd_Decision = Deny, vd_DecidedBy = ByNoAsker, vd_Ask = False, vd_Matcher = m,
            vd_Dangerous = dangerous, vd_Reason = ''no asker attached''\<rparr>
      else \<lparr>vd_Decision = [], vd_DecidedBy = [], vd_Ask = True, vd_Matcher = m,
            vd_Dangerous = dangerous, vd_Reason = reason\<rparr>)"

text \<open>\<open>quote\<close> is \<open>fmt\<close>'s \<open>%q\<close>, which only the text of a reason uses.\<close>

definition Evaluate :: "(bytes \<Rightarrow> bytes) \<Rightarrow> shell_parser \<Rightarrow> Gate \<Rightarrow> Input \<Rightarrow> Verdict" where
  "Evaluate quote sh g i =
     (let m = MatcherFor sh (in_Tool i) (in_Args i) in
      if in_Safety i = Safe then allow_verdict ByClass m ''safe tool''
      else if in_Mode i = ModeOff then allow_verdict ByMode m ''mode off''
      else case Dangerous sh g (in_Tool i) (in_Args i) of
          Some entry \<Rightarrow> ask_or_deny (in_AskerPresent i) m True (''dangerous '' @ entry)
        | None \<Rightarrow>
            if m \<in> set (in_Allowances i)
            then allow_verdict ByAllowance m (''allowance '' @ ma_Tool m @ '' '' @ ma_Prefix m)
            else if in_Mode i = ModePermissive then allow_verdict ByMode m ''mode permissive''
            else if in_Mode i = ModeStrict
            then ask_or_deny (in_AskerPresent i) m False ''mode strict''
            else ask_or_deny (in_AskerPresent i) m False
                   (''mode strict (unknown mode '' @ quote (in_Mode i) @ '')''))"

section \<open>What a call runs\<close>

definition runs :: "shell_parser \<Rightarrow> bytes list \<Rightarrow> bytes list \<Rightarrow> bool" where
  "runs sh call inner \<longleftrightarrow> inner \<noteq> [] \<and> inner \<in> set (unwrap sh call)"

text \<open>Every call reached from \<open>calls\<close> through at most \<open>n\<close> wrappers.\<close>

definition runs_within :: "shell_parser \<Rightarrow> nat \<Rightarrow> bytes list list \<Rightarrow> bytes list set" where
  "runs_within sh n calls = {x. \<exists>call\<in>set calls. \<exists>k\<le>n. (runs sh ^^ k) call x}"

lemma runs_within_0 [simp]: "runs_within sh 0 calls = set calls"
  by (auto simp: runs_within_def)

lemma runs_within_Suc:
  "runs_within sh (Suc n) calls =
    set calls \<union> {x. \<exists>call\<in>set calls. \<exists>inner. runs sh call inner \<and> x \<in> runs_within sh n [inner]}"
  (is "?L = ?R")
proof
  show "?L \<subseteq> ?R"
  proof
    fix x
    assume "x \<in> ?L"
    then obtain call k where k: "call \<in> set calls" "k \<le> Suc n" "(runs sh ^^ k) call x"
      by (auto simp: runs_within_def)
    then show "x \<in> ?R"
    proof (cases k)
      case 0
      with k show ?thesis by simp
    next
      case (Suc j)
      with k(3) obtain inner where "runs sh call inner" "(runs sh ^^ j) inner x"
        by (metis relpowp_Suc_E2)
      with k Suc show ?thesis by (auto simp: runs_within_def)
    qed
  qed
  show "?R \<subseteq> ?L"
  proof
    fix x
    assume "x \<in> ?R"
    then consider "x \<in> set calls" | call inner k where "call \<in> set calls" "runs sh call inner" "k \<le> n" "(runs sh ^^ k) inner x"
      by (auto simp: runs_within_def)
    then show "x \<in> ?L"
    proof cases
      case 1
      then show ?thesis by (auto simp: runs_within_def intro!: bexI[of _ x] exI[of _ 0])
    next
      case 2
      then show ?thesis
        by (auto simp: runs_within_def intro!: bexI[of _ call] exI[of _ "Suc k"] intro: relpowp_Suc_I2)
    qed
  qed
qed

lemma expand_levels_set: "set (expand_levels sh n calls) = runs_within sh n calls"
proof (induction n arbitrary: calls)
  case 0
  then show ?case by simp
next
  case (Suc n)
  have inner: "inner \<in> runs_within sh n [inner]" for inner
    by (auto simp: runs_within_def intro!: exI[of _ 0])
  have "set (expand_levels sh (Suc n) calls) =
      set calls \<union> {x. \<exists>call\<in>set calls. \<exists>inner. runs sh call inner \<and> (x = inner \<or> x \<in> runs_within sh n [inner])}"
    using Suc by (auto simp: runs_def split: if_splits)
  also have "\<dots> = runs_within sh (Suc n) calls"
    unfolding runs_within_Suc using inner by blast
  finally show ?case .
qed

lemma expand_set: "set (expand sh calls 0) = runs_within sh wrapperDepth calls"
  by (simp add: expand_def expand_levels_set)

subsection \<open>Command names\<close>

lemma after_last_append: "c \<notin> set w \<Longrightarrow> after_last c (p @ c # w) = w"
proof -
  assume "c \<notin> set w"
  then have "takeWhile (\<lambda>x. x \<noteq> c) (rev w @ c # rev p) = rev w"
    by (subst takeWhile_append2) auto
  then show ?thesis by (simp add: after_last_def)
qed

lemma after_last_none: "c \<notin> set w \<Longrightarrow> after_last c w = w"
proof -
  assume "c \<notin> set w"
  then have "takeWhile (\<lambda>x. x \<noteq> c) (rev w) = rev w" by (auto simp: takeWhile_eq_all_conv)
  then show ?thesis by (simp only: after_last_def rev_rev_ident)
qed

lemma shellName_path: "CHR ''/'' \<notin> set w \<Longrightarrow> shellName (dir @ CHR ''/'' # w) = w"
proof -
  assume w: "CHR ''/'' \<notin> set w"
  show ?thesis
  proof (cases "has_prefix (dir @ CHR ''/'' # w) [c_backslash]")
    case True
    then obtain d where "dir = c_backslash # d"
      by (cases dir) (auto simp: has_prefix_def)
    with w show ?thesis by (simp add: shellName_def trim_prefix_def has_prefix_def after_last_append)
  next
    case False
    with w show ?thesis by (simp add: shellName_def trim_prefix_def after_last_append)
  qed
qed

lemma shellName_plain: "CHR ''/'' \<notin> set w \<Longrightarrow> \<not> has_prefix w [c_backslash] \<Longrightarrow> shellName w = w"
  by (simp add: shellName_def trim_prefix_def after_last_none)

subsection \<open>Prefix wrappers\<close>

text \<open>
  A command under prefix wrappers: each wrapper is its name, as written, and its own flags and
  assignments.
\<close>

fun wrapped :: "(bytes \<times> bytes list) list \<Rightarrow> bytes list \<Rightarrow> bytes list" where
  "wrapped [] cmd = cmd"
| "wrapped ((w, own) # ws) cmd = w # own @ wrapped ws cmd"

definition wrapper_ok :: "bytes \<times> bytes list \<Rightarrow> bool" where
  "wrapper_ok x \<longleftrightarrow> prefixWrappers (shellName (fst x)) \<and> \<not> own_word (fst x) \<and> list_all own_word (snd x)"

lemma prefix_not_shell:
  "prefixWrappers h \<Longrightarrow> h \<noteq> ''find'' \<and> \<not> shellFlagged h \<and> h \<noteq> ''eval''"
  by (auto simp: prefixWrappers_def shellFlagged_def)

lemma dropWhile_own: "list_all P xs \<Longrightarrow> ys \<noteq> [] \<Longrightarrow> \<not> P (hd ys) \<Longrightarrow> dropWhile P (xs @ ys) = ys"
  by (cases ys) (auto simp: dropWhile_append list_all_iff)

lemma unwrap_prefix:
  assumes "wrapper_ok (w, own)" and "cmd \<noteq> []" and "\<not> own_word (hd cmd)"
  shows "unwrap sh (w # own @ cmd) = [cmd]"
  using assms dropWhile_own[of own_word own cmd] prefix_not_shell[of "shellName w"]
  by (cases cmd) (auto simp: unwrap_def wrapper_ok_def Let_def)

lemma wrapped_head: "list_all wrapper_ok ws \<Longrightarrow> cmd \<noteq> [] \<Longrightarrow> \<not> own_word (hd cmd) \<Longrightarrow>
  wrapped ws cmd \<noteq> [] \<and> \<not> own_word (hd (wrapped ws cmd))"
  by (cases ws) (auto simp: wrapper_ok_def)

lemma runs_wrapped:
  "list_all wrapper_ok ws \<Longrightarrow> cmd \<noteq> [] \<Longrightarrow> \<not> own_word (hd cmd) \<Longrightarrow>
    (runs sh ^^ length ws) (wrapped ws cmd) cmd"
proof (induction ws)
  case Nil
  then show ?case by simp
next
  case (Cons x ws)
  obtain w own where x: "x = (w, own)" by (cases x)
  have "runs sh (wrapped (x # ws) cmd) (wrapped ws cmd)"
    using Cons.prems wrapped_head[of ws cmd] unwrap_prefix[of w own "wrapped ws cmd" sh]
    by (simp add: x runs_def)
  moreover have "(runs sh ^^ length ws) (wrapped ws cmd) cmd" using Cons by simp
  ultimately show ?case unfolding length_Cons by (rule relpowp_Suc_I2)
qed

subsection \<open>Shells\<close>

lemma shell_script_find:
  "\<forall>w\<in>set before. \<not> c_flag w \<Longrightarrow> c_flag f \<Longrightarrow> shell_script (before @ f # script # after) = Some script"
proof (induction before)
  case Nil
  then show ?case by simp
next
  case (Cons w ws)
  then show ?case by (cases ws) auto
qed

lemma unwrap_shell:
  assumes "shellFlagged (shellName s)" and "\<forall>w\<in>set before. \<not> c_flag w" and "c_flag f"
  shows "unwrap sh (s # before @ f # script # after) = shellCallsOrFields sh script"
proof -
  have "shellName s \<noteq> ''find''" using assms(1) by (auto simp: shellFlagged_def)
  then show ?thesis
    using assms shell_script_find[OF assms(2,3)] by (simp add: unwrap_def Let_def)
qed

section \<open>The dangerous set\<close>

text \<open>When an entry of the set covers a call of a tool.\<close>

definition entry_covers :: "shell_parser \<Rightarrow> bytes \<Rightarrow> bytes \<Rightarrow> bytes \<Rightarrow> bool" where
  "entry_covers sh tool args d \<longleftrightarrow>
     (case cut_byte (CHR '':'') d of
        (entryTool, pre, scoped) \<Rightarrow>
          (scoped \<longrightarrow> entryTool = tool) \<and>
          (scoped \<and> pre = [] \<or>
           tool = ''bash'' \<and>
           (\<exists>cmd inner form. bashCommand args = Some cmd \<and>
              inner \<in> runs_within sh wrapperDepth (shellCallsOrFields sh cmd) \<and>
              form \<in> set (callForms inner) \<and> form_matches (if scoped then pre else d) form)))"

lemma gate_calls_set:
  "x \<in> set (gate_calls sh tool args) \<longleftrightarrow>
    tool = ''bash'' \<and> (\<exists>cmd. bashCommand args = Some cmd \<and> x \<in> runs_within sh wrapperDepth (shellCallsOrFields sh cmd))"
  by (cases "tool = ''bash''"; cases "bashCommand args") (simp_all add: gate_calls_def expand_set)

lemma dangerous_entry_iff:
  "dangerous_entry tool (gate_calls sh tool args) ds \<noteq> None \<longleftrightarrow> (\<exists>d\<in>set ds. entry_covers sh tool args d)"
proof (induction ds)
  case Nil
  then show ?case by simp
next
  case (Cons d ds)
  obtain t pre sc where cut: "cut_byte (CHR '':'') d = (t, pre, sc)" by (metis prod_cases3)
  have cov: "entry_covers sh tool args d \<longleftrightarrow> (sc \<longrightarrow> t = tool) \<and> (sc \<and> pre = [] \<or> tool = ''bash'' \<and>
      list_ex (\<lambda>call. list_ex (form_matches (if sc then pre else d)) (callForms call)) (gate_calls sh tool args))"
    unfolding entry_covers_def cut list_ex_iff Bex_def gate_calls_set prod.case by blast
  show ?case using Cons by (auto simp add: cut cov)
qed

lemma dangerous_entry_mem: "dangerous_entry tool calls ds = Some d \<Longrightarrow> d \<in> set ds"
  by (induction ds) (auto split: if_splits prod.splits)

lemma Dangerous_iff: "Dangerous sh g tool args \<noteq> None \<longleftrightarrow> (\<exists>d\<in>set (g_dangerous g). entry_covers sh tool args d)"
  unfolding Dangerous_def by (rule dangerous_entry_iff)

section \<open>Verdicts\<close>

definition free_pass :: "shell_parser \<Rightarrow> Gate \<Rightarrow> Input \<Rightarrow> bool" where
  "free_pass sh g i \<longleftrightarrow>
     in_Safety i = Safe \<or> in_Mode i = ModeOff \<or>
     Dangerous sh g (in_Tool i) (in_Args i) = None \<and>
       (MatcherFor sh (in_Tool i) (in_Args i) \<in> set (in_Allowances i) \<or> in_Mode i = ModePermissive)"

lemma Allow_not_Deny [simp]: "Allow \<noteq> Deny" "Allow \<noteq> []" "Deny \<noteq> []" "[] \<noteq> Allow" "[] \<noteq> Deny" "Deny \<noteq> Allow"
  by (simp_all add: enum_defs)

lemma Evaluate_cases:
  "vd_Decision (Evaluate q sh g i) = Allow \<longleftrightarrow> free_pass sh g i"
  "vd_Ask (Evaluate q sh g i) \<longleftrightarrow> \<not> free_pass sh g i \<and> in_AskerPresent i"
  "vd_Decision (Evaluate q sh g i) = Deny \<longleftrightarrow> \<not> free_pass sh g i \<and> \<not> in_AskerPresent i"
  by (auto simp: Evaluate_def free_pass_def Let_def allow_verdict_def ask_or_deny_def split: option.splits)

section \<open>Properties\<close>

text \<open>Concrete values for the witnesses: the default set, and a parser for words parted by blanks.\<close>

definition words_parser :: shell_parser where
  "words_parser src = Some [map (\<lambda>w. [Lit w]) (Go_Text.fields src)]"

definition bash_args :: "bytes \<Rightarrow> bytes" where
  "bash_args cmd = CHR ''{'' # json_string ''command'' @ CHR '':'' # json_string cmd @ ''}''"

definition default_gate :: Gate where
  "default_gate = Gate_New [''rm -rf'', ''rm -r'', ''git push --force'', ''git push -f'', ''git reset --hard'',
     ''git clean'', ''sudo'', ''chmod -R'', ''chown -R'', ''mkfs'', ''dd'']"

definition bash_input :: "bytes \<Rightarrow> Matcher list \<Rightarrow> Mode \<Rightarrow> Input" where
  "bash_input cmd ms mode = \<lparr>in_Tool = ''bash'', in_Safety = Unsafe, in_Mode = mode, in_Args = bash_args cmd,
     in_Allowances = ms, in_AskerPresent = True\<rparr>"

text \<open>
  C11: The gate's verdict on every input. A call is allowed exactly when its tool is safe, or the
  mode is off, or the dangerous set does not cover it and either the session granted its matcher
  or the mode is permissive; otherwise it asks when someone is attached and is denied by no asker
  when nobody is. These three outcomes exclude each other, an asking verdict carries no decision,
  and the verdict is marked dangerous exactly when the set covers a call that was not let through
  by its class or by mode off.
\<close>

theorem evaluate_verdict:
  "(vd_Decision (Evaluate q sh g i) = Allow \<longleftrightarrow> free_pass sh g i) \<and>
   (vd_Ask (Evaluate q sh g i) \<longleftrightarrow> \<not> free_pass sh g i \<and> in_AskerPresent i) \<and>
   (vd_Decision (Evaluate q sh g i) = Deny \<longleftrightarrow> \<not> free_pass sh g i \<and> \<not> in_AskerPresent i) \<and>
   (vd_Decision (Evaluate q sh g i) = Deny \<longrightarrow> vd_DecidedBy (Evaluate q sh g i) = ByNoAsker) \<and>
   (vd_Ask (Evaluate q sh g i) \<longrightarrow> vd_Decision (Evaluate q sh g i) = []) \<and>
   (vd_Dangerous (Evaluate q sh g i) \<longleftrightarrow>
      in_Safety i \<noteq> Safe \<and> in_Mode i \<noteq> ModeOff \<and> Dangerous sh g (in_Tool i) (in_Args i) \<noteq> None)"
proof (intro conjI)
  show "vd_Decision (Evaluate q sh g i) = Deny \<longrightarrow> vd_DecidedBy (Evaluate q sh g i) = ByNoAsker"
    "vd_Ask (Evaluate q sh g i) \<longrightarrow> vd_Decision (Evaluate q sh g i) = []"
    "vd_Dangerous (Evaluate q sh g i) \<longleftrightarrow>
      in_Safety i \<noteq> Safe \<and> in_Mode i \<noteq> ModeOff \<and> Dangerous sh g (in_Tool i) (in_Args i) \<noteq> None"
    by (auto simp: Evaluate_def Let_def allow_verdict_def ask_or_deny_def split: option.splits)
qed (rule Evaluate_cases)+

theorem evaluate_verdict_witness:
  "vd_Ask (Evaluate id words_parser default_gate (bash_input ''git push --force'' [\<lparr>ma_Tool = ''bash'', ma_Prefix = ''git push''\<rparr>] ModePermissive)) \<and>
   vd_Decision (Evaluate id words_parser default_gate (bash_input ''git push'' [\<lparr>ma_Tool = ''bash'', ma_Prefix = ''git push''\<rparr>] ModeStrict)) = Allow"
proof -
  let ?m = "\<lparr>ma_Tool = ''bash'', ma_Prefix = ''git push''\<rparr>"
  have "\<not> free_pass words_parser default_gate (bash_input ''git push --force'' [?m] ModePermissive) \<and>
    in_AskerPresent (bash_input ''git push --force'' [?m] ModePermissive)" by code_simp
  moreover have "free_pass words_parser default_gate (bash_input ''git push'' [?m] ModeStrict)" by code_simp
  ultimately show ?thesis using evaluate_verdict by blast
qed

text \<open>
  C12: The dangerous set is read against exactly what the command runs: a call is dangerous if
  and only if some entry names its tool with no prefix, or, for bash, some entry's prefix matches,
  as written or under the command's bare name, one of the simple commands of the input or a
  command reached from one of them through at most three wrappers.
\<close>

theorem dangerous_exactly:
  "Dangerous sh g tool args \<noteq> None \<longleftrightarrow> (\<exists>d\<in>set (g_dangerous g). entry_covers sh tool args d)"
  by (rule Dangerous_iff)

text \<open>
  C13: A dangerous command stays dangerous under up to three nested prefix wrappers, named bare or
  by any path, with any of their own flags and assignments: if a simple command of the input is
  such a wrapping of \<open>cmd\<close>, and an entry matches \<open>cmd\<close>, then the call is dangerous, and in every
  mode but off no allowance lets it run unasked.
\<close>

theorem wrapped_command_asks:
  assumes "in_Tool i = ''bash''" and "in_Safety i \<noteq> Safe" and "in_Mode i \<noteq> ModeOff"
    and "bashCommand (in_Args i) = Some src" and "wrapped ws cmd \<in> set (shellCallsOrFields sh src)"
    and "list_all wrapper_ok ws" and "length ws \<le> wrapperDepth" and "cmd \<noteq> []" and "\<not> own_word (hd cmd)"
    and "d \<in> set (g_dangerous g)" and "CHR '':'' \<notin> set d" and "form \<in> set (callForms cmd)" and "form_matches d form"
  shows "Dangerous sh g ''bash'' (in_Args i) \<noteq> None \<and> vd_Decision (Evaluate q sh g i) \<noteq> Allow"
proof -
  have "(runs sh ^^ length ws) (wrapped ws cmd) cmd" by (rule runs_wrapped[OF assms(6,8,9)])
  with assms(5,7) have "cmd \<in> runs_within sh wrapperDepth (shellCallsOrFields sh src)"
    by (auto simp: runs_within_def)
  with assms have "entry_covers sh ''bash'' (in_Args i) d"
    by (auto simp: entry_covers_def cut_byte_def)
  with assms(10) have "Dangerous sh g ''bash'' (in_Args i) \<noteq> None" unfolding Dangerous_iff by blast
  with assms(1-3) show ?thesis by (simp add: Evaluate_cases free_pass_def)
qed

definition wrapped0 :: bytes where
  "wrapped0 = ''/usr/bin/env A=1 nohup nice -19 /bin/rm -rf /''"

theorem wrapped_command_asks_witness:
  "vd_Decision (Evaluate id words_parser default_gate (bash_input wrapped0 [] ModePermissive)) \<noteq> Allow"
proof -
  let ?i = "bash_input wrapped0 [] ModePermissive"
    and ?ws = "[(''/usr/bin/env'', [''A=1'']), (''nohup'', []), (''nice'', [''-19''])]"
    and ?cmd = "[''/bin/rm'', ''-rf'', ''/'']"
  have 1: "bashCommand (in_Args ?i) = Some wrapped0" by code_simp
  have 2: "wrapped ?ws ?cmd \<in> set (shellCallsOrFields words_parser wrapped0)" by code_simp
  have 3: "list_all wrapper_ok ?ws" "length ?ws \<le> wrapperDepth" "?cmd \<noteq> []" "\<not> own_word (hd ?cmd)"
    "''rm -rf'' \<in> set (g_dangerous default_gate)" "CHR '':'' \<notin> set ''rm -rf''"
    "''rm -rf /'' \<in> set (callForms ?cmd)" "form_matches ''rm -rf'' ''rm -rf /''" by code_simp+
  have 4: "in_Tool ?i = ''bash''" "in_Safety ?i \<noteq> Safe" "in_Mode ?i \<noteq> ModeOff" by code_simp+
  from wrapped_command_asks[OF 4 1 2 3, of id] show ?thesis by simp
qed

text \<open>
  A shell given a script with a flag that ends in c runs the script's commands as far as the
  set is concerned: if a simple command of the input is such a shell, under any path, and no
  earlier argument reads as such a flag, then an entry that matches a simple command of the script
  makes the whole call dangerous.
\<close>

theorem shell_script_asks:
  assumes "bashCommand args = Some src" and "s # before @ f # script # after \<in> set (shellCallsOrFields sh src)"
    and "shellFlagged (shellName s)" and "\<forall>w\<in>set before. \<not> c_flag w" and "c_flag f"
    and "cmd \<in> set (shellCallsOrFields sh script)" and "cmd \<noteq> []"
    and "d \<in> set (g_dangerous g)" and "CHR '':'' \<notin> set d" and "form \<in> set (callForms cmd)" and "form_matches d form"
  shows "Dangerous sh g ''bash'' args \<noteq> None"
proof -
  have "runs sh (s # before @ f # script # after) cmd"
    using assms(6,7) by (simp add: runs_def unwrap_shell[OF assms(3-5)])
  with assms(2) have "cmd \<in> runs_within sh wrapperDepth (shellCallsOrFields sh src)"
    by (auto simp: runs_within_def wrapperDepth_def intro!: bexI exI[of _ 1])
  with assms have "entry_covers sh ''bash'' args d"
    by (auto simp: entry_covers_def cut_byte_def)
  with assms(8) show ?thesis unfolding Dangerous_iff by blast
qed

text \<open>A parser for the one shape of command the shell witnesses need: words and one quoted script.\<close>

definition quoting_parser :: shell_parser where
  "quoting_parser src =
     (case cut_byte (CHR 39) src of
        (before, rest, True) \<Rightarrow>
          Some [map (\<lambda>w. [Lit w]) (Go_Text.fields before) @ [[SglQuoted (fst (cut_byte (CHR 39) rest))]]]
      | _ \<Rightarrow> words_parser src)"

definition quoted :: "bytes \<Rightarrow> bytes" where
  "quoted s = CHR 39 # s @ [CHR 39]"

theorem shell_script_asks_witness:
  "Dangerous quoting_parser default_gate ''bash'' (bash_args (''/bin/sh -e -c '' @ quoted ''rm -rf /'')) \<noteq> None"
proof -
  let ?src = "''/bin/sh -e -c '' @ quoted ''rm -rf /''"
  have 1: "bashCommand (bash_args ?src) = Some ?src" by code_simp
  have 2: "''/bin/sh'' # [''-e''] @ ''-c'' # ''rm -rf /'' # [] \<in> set (shellCallsOrFields quoting_parser ?src)" by code_simp
  have 3: "shellFlagged (shellName ''/bin/sh'')" "\<forall>w\<in>set [''-e'']. \<not> c_flag w" "c_flag ''-c''"
    "[''rm'', ''-rf'', ''/''] \<in> set (shellCallsOrFields quoting_parser ''rm -rf /'')" "[''rm'', ''-rf'', ''/''] \<noteq> []"
    "''rm -rf'' \<in> set (g_dangerous default_gate)" "CHR '':'' \<notin> set ''rm -rf''"
    "''rm -rf /'' \<in> set (callForms [''rm'', ''-rf'', ''/''])" "form_matches ''rm -rf'' ''rm -rf /''" by code_simp+
  from shell_script_asks[OF 1 2 3] show ?thesis .
qed

text \<open>
  What the wrappers do not see through. The first word after a prefix wrapper's flags is taken
  for the command even when it is the wrapper's own operand, so with the default dangerous set
  \<open>timeout 5 rm -rf /\<close> runs unasked in permissive mode, whatever else the parser answers.
\<close>

theorem wrapper_operand_hides_command:
  assumes "sh ''timeout 5 rm -rf /'' = Some [[[Lit ''timeout''], [Lit ''5''], [Lit ''rm''], [Lit ''-rf''], [Lit ''/'']]]"
  shows "vd_Decision (Evaluate q sh default_gate (bash_input ''timeout 5 rm -rf /'' [] ModePermissive)) = Allow"
proof -
  let ?c = "''timeout 5 rm -rf /''" and ?call = "[''timeout'', ''5'', ''rm'', ''-rf'', ''/'']"
  have cmd: "bashCommand (bash_args ?c) = Some ?c" by code_simp
  have calls: "shellCallsOrFields sh ?c = [?call]"
    by (simp add: shellCallsOrFields_def shellCalls_def assms wordText_def)
  have "unwrap sh ?call = [tl ?call]" "unwrap sh (tl ?call) = []"
    by (simp_all add: unwrap_def shellName_def after_last_def trim_prefix_def has_prefix_def
        shellFlagged_def prefixWrappers_def own_word_def)
  then have "expand sh [?call] 0 = [?call, tl ?call, tl ?call]"
    by (simp add: expand_def wrapperDepth_def eval_nat_numeral)
  moreover have "dangerous_entry ''bash'' [?call, tl ?call, tl ?call] (g_dangerous default_gate) = None" by code_simp
  ultimately have "Dangerous sh default_gate ''bash'' (bash_args ?c) = None"
    by (simp add: Dangerous_def gate_calls_def cmd calls del: dangerous_entry.simps)
  then show ?thesis by (simp add: Evaluate_cases free_pass_def bash_input_def)
qed

theorem wrapper_operand_hides_command_witness:
  "vd_Decision (Evaluate id words_parser default_gate (bash_input ''timeout 5 rm -rf /'' [] ModePermissive)) = Allow"
proof -
  have "words_parser ''timeout 5 rm -rf /'' = Some [[[Lit ''timeout''], [Lit ''5''], [Lit ''rm''], [Lit ''-rf''], [Lit ''/'']]]"
    by code_simp
  then show ?thesis by (rule wrapper_operand_hides_command)
qed

text \<open>
  A long option that ends in c is taken for the script flag: in \<open>bash --norc -c SCRIPT\<close> the
  word after \<open>--norc\<close> is read as the script, so the real script is never checked and, with the
  default dangerous set, it runs unasked in permissive mode.
\<close>

theorem long_option_hides_script:
  assumes "sh (''bash --norc -c '' @ quoted ''rm -rf /'') =
      Some [[[Lit ''bash''], [Lit ''--norc''], [Lit ''-c''], [SglQuoted ''rm -rf /'']]]"
    and "sh ''-c'' = Some [[[Lit ''-c'']]]"
  shows "vd_Decision (Evaluate q sh default_gate
      (bash_input (''bash --norc -c '' @ quoted ''rm -rf /'') [] ModePermissive)) = Allow"
proof -
  let ?c = "''bash --norc -c '' @ quoted ''rm -rf /''" and ?call = "[''bash'', ''--norc'', ''-c'', ''rm -rf /'']"
  have cmd: "bashCommand (bash_args ?c) = Some ?c" by code_simp
  have calls: "shellCallsOrFields sh ?c = [?call]" "shellCallsOrFields sh ''-c'' = [[''-c'']]"
    unfolding shellCallsOrFields_def shellCalls_def assms by (simp_all add: wordText_def)
  have "unwrap sh ?call = [[''-c'']]" "unwrap sh [''-c''] = []"
    by (simp_all add: unwrap_def shellName_def after_last_def trim_prefix_def has_prefix_def has_suffix_def
        shellFlagged_def c_flag_def calls)
  then have "expand sh [?call] 0 = [?call, [''-c''], [''-c'']]"
    by (simp add: expand_def wrapperDepth_def eval_nat_numeral)
  moreover have "dangerous_entry ''bash'' [?call, [''-c''], [''-c'']] (g_dangerous default_gate) = None" by code_simp
  ultimately have "Dangerous sh default_gate ''bash'' (bash_args ?c) = None"
    unfolding Dangerous_def gate_calls_def cmd option.case calls(1) by (simp del: dangerous_entry.simps)
  then show ?thesis by (simp add: Evaluate_cases free_pass_def bash_input_def)
qed

theorem long_option_hides_script_witness:
  "vd_Decision (Evaluate id quoting_parser default_gate
      (bash_input (''bash --norc -c '' @ quoted ''rm -rf /'') [] ModePermissive)) = Allow"
proof (rule long_option_hides_script)
  show "quoting_parser (''bash --norc -c '' @ quoted ''rm -rf /'') =
      Some [[[Lit ''bash''], [Lit ''--norc''], [Lit ''-c''], [SglQuoted ''rm -rf /'']]]"
    "quoting_parser ''-c'' = Some [[[Lit ''-c'']]]" by code_simp+
qed

end
