(* ===== verification/Accumulator.thy ===== *)
theory Accumulator
  imports Entry
begin

text \<open>
  How a provider's stream becomes the blocks of an assistant message: the parts of
  \<open>internal/provider/provider.go\<close> and the \<open>accumulator\<close> of \<open>internal/turn/runner.go\<close>, with
  \<open>sanitizeToolInputs\<close> and \<open>dropIncompleteToolUses\<close>, which make its blocks acceptable to the
  log. An operation of Go that would panic (a missing builder, an index out of range) is \<open>None\<close>;
  the invariant \<open>acc_inv\<close> shows that no stream reaches one. The order in which \<open>blocks\<close> visits
  the open tool uses is Go's map order, so it is an argument.
\<close>

type_synonym PartType = bytes

definition PartTextDelta :: PartType where [enum_defs]: "PartTextDelta = ''text_delta''"
definition PartThinkingDelta :: PartType where [enum_defs]: "PartThinkingDelta = ''thinking_delta''"
definition PartThinkingSignature :: PartType where [enum_defs]: "PartThinkingSignature = ''thinking_signature''"
definition PartToolUseStart :: PartType where [enum_defs]: "PartToolUseStart = ''tool_use_start''"
definition PartToolUseDelta :: PartType where [enum_defs]: "PartToolUseDelta = ''tool_use_delta''"
definition PartToolUseEnd :: PartType where [enum_defs]: "PartToolUseEnd = ''tool_use_end''"
definition PartUsage :: PartType where [enum_defs]: "PartUsage = ''usage''"
definition PartStop :: PartType where [enum_defs]: "PartStop = ''stop''"

record Part =
  pt_Type :: PartType
  pt_Text :: bytes
  pt_ID :: bytes
  pt_Name :: bytes
  pt_Signature :: bytes
  pt_Usage :: Usage
  pt_StopReason :: StopReason
  pt_StopReasonRaw :: bytes

record accumulator =
  ac_blocksOut :: "Block list"
  ac_inputs :: "bytes \<rightharpoonup> bytes"
  ac_open :: "bytes \<rightharpoonup> nat"
  ac_usage :: Usage
  ac_stop :: StopReason
  ac_stopRaw :: bytes

definition newAccumulator :: accumulator where
  "newAccumulator = \<lparr>ac_blocksOut = [], ac_inputs = Map.empty, ac_open = Map.empty,
     ac_usage = zero_Usage, ac_stop = [], ac_stopRaw = []\<rparr>"

definition appendText :: "accumulator \<Rightarrow> BlockType \<Rightarrow> bytes \<Rightarrow> accumulator" where
  "appendText a t s =
     (if s = [] then a
      else let bs = ac_blocksOut a; n = length bs in
        if n > 0 \<and> bl_Type (bs ! (n - 1)) = t
        then a\<lparr>ac_blocksOut := bs[n - 1 := (bs ! (n - 1))\<lparr>bl_Text := bl_Text (bs ! (n - 1)) @ s\<rparr>]\<rparr>
        else a\<lparr>ac_blocksOut := bs @ [zero_Block\<lparr>bl_Type := t, bl_Text := s\<rparr>]\<rparr>)"

definition signThinking :: "accumulator \<Rightarrow> bytes \<Rightarrow> accumulator" where
  "signThinking a sig =
     (let bs = ac_blocksOut a; n = length bs in
      if n > 0 \<and> bl_Type (bs ! (n - 1)) = BlockThinking
      then a\<lparr>ac_blocksOut := bs[n - 1 := (bs ! (n - 1))\<lparr>bl_Signature := sig\<rparr>]\<rparr>
      else a\<lparr>ac_blocksOut := bs @ [zero_Block\<lparr>bl_Type := BlockThinking, bl_Signature := sig\<rparr>]\<rparr>)"

definition finishToolUse :: "accumulator \<Rightarrow> bytes \<Rightarrow> accumulator option" where
  "finishToolUse a i =
     (case ac_open a i of
        None \<Rightarrow> Some a
      | Some k \<Rightarrow>
          (case ac_inputs a i of
             None \<Rightarrow> None
           | Some b \<Rightarrow>
               if k < length (ac_blocksOut a)
               then Some (a\<lparr>ac_blocksOut := (ac_blocksOut a)[k :=
                        (ac_blocksOut a ! k)\<lparr>bl_Input := (if is_blank b then ''{}'' else b)\<rparr>],
                      ac_open := (ac_open a)(i := None), ac_inputs := (ac_inputs a)(i := None)\<rparr>)
               else None))"

definition startToolUse :: "accumulator \<Rightarrow> bytes \<Rightarrow> bytes \<Rightarrow> accumulator" where
  "startToolUse a i name =
     a\<lparr>ac_open := (ac_open a)(i \<mapsto> length (ac_blocksOut a)), ac_inputs := (ac_inputs a)(i \<mapsto> []),
       ac_blocksOut := ac_blocksOut a @ [zero_Block\<lparr>bl_Type := BlockToolUse, bl_ID := i, bl_Name := name\<rparr>]\<rparr>"

definition accumulator_add :: "accumulator \<Rightarrow> Part \<Rightarrow> accumulator option" where
  "accumulator_add a p =
     (if pt_Type p = PartTextDelta then Some (appendText a BlockText (pt_Text p))
      else if pt_Type p = PartThinkingDelta then Some (appendText a BlockThinking (pt_Text p))
      else if pt_Type p = PartThinkingSignature then Some (signThinking a (pt_Signature p))
      else if pt_Type p = PartToolUseStart then Some (startToolUse a (pt_ID p) (pt_Name p))
      else if pt_Type p = PartToolUseDelta then
        Some (case ac_inputs a (pt_ID p) of
                None \<Rightarrow> a
              | Some b \<Rightarrow> a\<lparr>ac_inputs := (ac_inputs a)(pt_ID p \<mapsto> b @ pt_Text p)\<rparr>)
      else if pt_Type p = PartToolUseEnd then finishToolUse a (pt_ID p)
      else if pt_Type p = PartUsage then Some (a\<lparr>ac_usage := Usage_Add (ac_usage a) (pt_Usage p)\<rparr>)
      else if pt_Type p = PartStop then Some (a\<lparr>ac_stop := pt_StopReason p, ac_stopRaw := pt_StopReasonRaw p\<rparr>)
      else Some a)"

fun add_parts :: "accumulator \<Rightarrow> Part list \<Rightarrow> accumulator option" where
  "add_parts a [] = Some a"
| "add_parts a (p # ps) = Option.bind (accumulator_add a p) (\<lambda>a'. add_parts a' ps)"

fun finish_all :: "accumulator \<Rightarrow> bytes list \<Rightarrow> accumulator option" where
  "finish_all a [] = Some a"
| "finish_all a (i # ids) = Option.bind (finishToolUse a i) (\<lambda>a'. finish_all a' ids)"

text \<open>\<open>blocks\<close>, visiting the open tool uses in the given order.\<close>

definition accumulator_blocks :: "bytes list \<Rightarrow> accumulator \<Rightarrow> Block list option" where
  "accumulator_blocks order a = map_option ac_blocksOut (finish_all a order)"

definition visits_open :: "bytes list \<Rightarrow> accumulator \<Rightarrow> bool" where
  "visits_open order a \<longleftrightarrow> distinct order \<and> set order = dom (ac_open a)"

section \<open>Making the blocks acceptable\<close>

text \<open>\<open>sanitizeToolInputs\<close>: the blocks after the update in place, and what the model sent, by id.\<close>

definition malformed_input :: "Block \<Rightarrow> bool" where
  "malformed_input b \<longleftrightarrow> bl_Type b = BlockToolUse \<and> bl_Input b \<noteq> [] \<and> \<not> json_valid (bl_Input b)"

fun sanitizeToolInputs :: "Block list \<Rightarrow> Block list \<times> (bytes \<rightharpoonup> bytes)" where
  "sanitizeToolInputs [] = ([], Map.empty)"
| "sanitizeToolInputs (b # bs) =
     (case sanitizeToolInputs bs of
        (bs', raw) \<Rightarrow>
          if malformed_input b
          then (b\<lparr>bl_Input := ''{}''\<rparr> # bs', if raw (bl_ID b) = None then raw(bl_ID b \<mapsto> bl_Input b) else raw)
          else (b # bs', raw))"

definition dropIncompleteToolUses :: "Block list \<Rightarrow> Block list" where
  "dropIncompleteToolUses bs = filter (\<lambda>b. \<not> (bl_Type b = BlockToolUse \<and> \<not> json_valid (bl_Input b))) bs"

section \<open>The accumulator never panics\<close>

definition acc_inv :: "accumulator \<Rightarrow> bool" where
  "acc_inv a \<longleftrightarrow>
     dom (ac_open a) = dom (ac_inputs a) \<and>
     (\<forall>i k. ac_open a i = Some k \<longrightarrow>
        k < length (ac_blocksOut a) \<and> bl_Type (ac_blocksOut a ! k) = BlockToolUse \<and> bl_ID (ac_blocksOut a ! k) = i)"

lemma block_types_distinct [simp]:
  "BlockText \<noteq> BlockThinking" "BlockText \<noteq> BlockToolUse" "BlockThinking \<noteq> BlockToolUse"
  "BlockThinking \<noteq> BlockText" "BlockToolUse \<noteq> BlockText" "BlockToolUse \<noteq> BlockThinking"
  "BlockImage \<noteq> BlockText" "BlockImage \<noteq> BlockThinking" "BlockImage \<noteq> BlockToolUse"
  "BlockText \<noteq> BlockImage" "BlockThinking \<noteq> BlockImage" "BlockToolUse \<noteq> BlockImage"
  by (simp_all add: enum_defs)

lemma acc_inv_new [simp]: "acc_inv newAccumulator"
  by (simp add: acc_inv_def newAccumulator_def)

lemma acc_inv_appendText: "acc_inv a \<Longrightarrow> t = BlockText \<or> t = BlockThinking \<Longrightarrow> acc_inv (appendText a t s)"
  by (fastforce simp: acc_inv_def appendText_def Let_def nth_list_update nth_append)

lemma acc_inv_signThinking: "acc_inv a \<Longrightarrow> acc_inv (signThinking a sig)"
  by (fastforce simp: acc_inv_def signThinking_def Let_def nth_list_update nth_append)

lemma acc_inv_startToolUse: "acc_inv a \<Longrightarrow> acc_inv (startToolUse a i n)"
  by (fastforce simp: acc_inv_def startToolUse_def nth_append less_Suc_eq split: if_splits)

lemma finishToolUse_cases:
  assumes "acc_inv a"
  obtains (closed) "ac_open a i = None" "finishToolUse a i = Some a"
  | (finished) k b where "ac_open a i = Some k" "ac_inputs a i = Some b" "k < length (ac_blocksOut a)"
      "finishToolUse a i = Some (a\<lparr>ac_blocksOut := (ac_blocksOut a)[k :=
         (ac_blocksOut a ! k)\<lparr>bl_Input := (if is_blank b then ''{}'' else b)\<rparr>],
         ac_open := (ac_open a)(i := None), ac_inputs := (ac_inputs a)(i := None)\<rparr>)"
proof (cases "ac_open a i")
  case None
  with closed show ?thesis by (simp add: finishToolUse_def)
next
  case (Some k)
  with assms have "k < length (ac_blocksOut a)" "i \<in> dom (ac_inputs a)"
    by (auto simp: acc_inv_def)
  with Some finished show ?thesis by (auto simp: finishToolUse_def)
qed

lemma acc_inv_finishToolUse:
  assumes "acc_inv a"
  shows "\<exists>a'. finishToolUse a i = Some a' \<and> acc_inv a'"
proof (cases rule: finishToolUse_cases[OF assms, of i])
  case 1
  with assms show ?thesis by simp
next
  case (2 k b)
  with assms show ?thesis by (auto simp: acc_inv_def nth_list_update)
qed

lemma acc_inv_add: "acc_inv a \<Longrightarrow> \<exists>a'. accumulator_add a p = Some a' \<and> acc_inv a'"
  using acc_inv_appendText[of a BlockText "pt_Text p"] acc_inv_appendText[of a BlockThinking "pt_Text p"]
    acc_inv_signThinking[of a "pt_Signature p"] acc_inv_startToolUse[of a "pt_ID p" "pt_Name p"]
    acc_inv_finishToolUse[of a "pt_ID p"]
  by (auto simp: accumulator_add_def acc_inv_def split: option.splits)

lemma add_parts_total: "acc_inv a \<Longrightarrow> \<exists>a'. add_parts a ps = Some a' \<and> acc_inv a'"
proof (induction ps arbitrary: a)
  case Nil
  then show ?case by simp
next
  case (Cons p ps)
  from acc_inv_add[OF Cons.prems, of p] Cons.IH show ?case by auto
qed

lemma finish_all_total: "acc_inv a \<Longrightarrow> \<exists>a'. finish_all a ids = Some a' \<and> acc_inv a'"
proof (induction ids arbitrary: a)
  case Nil
  then show ?case by simp
next
  case (Cons i ids)
  from acc_inv_finishToolUse[OF Cons.prems, of i] Cons.IH show ?case by auto
qed

lemma acc_inv_finite: "acc_inv a \<Longrightarrow> finite (dom (ac_open a))"
proof -
  assume inv: "acc_inv a"
  have "dom (ac_open a) \<subseteq> bl_ID ` set (ac_blocksOut a)"
  proof
    fix i
    assume "i \<in> dom (ac_open a)"
    then obtain k where "ac_open a i = Some k" by blast
    with inv have "k < length (ac_blocksOut a)" "bl_ID (ac_blocksOut a ! k) = i"
      by (simp_all add: acc_inv_def)
    then show "i \<in> bl_ID ` set (ac_blocksOut a)" using nth_mem by blast
  qed
  then show ?thesis by (rule finite_subset) simp
qed

section \<open>The order of the open tool uses does not matter\<close>

text \<open>What finishing every open tool use does, block by block.\<close>

definition finished_block :: "accumulator \<Rightarrow> nat \<Rightarrow> Block" where
  "finished_block a k =
     (let b = ac_blocksOut a ! k in
      if ac_open a (bl_ID b) = Some k
      then b\<lparr>bl_Input := (case ac_inputs a (bl_ID b) of Some t \<Rightarrow> if is_blank t then ''{}'' else t | None \<Rightarrow> [])\<rparr>
      else b)"

definition finished_blocks :: "accumulator \<Rightarrow> Block list" where
  "finished_blocks a = map (finished_block a) [0..<length (ac_blocksOut a)]"

lemma finished_blocks_closed:
  assumes "acc_inv a" and "ac_open a = Map.empty"
  shows "finished_blocks a = ac_blocksOut a"
  using assms(2) by (intro nth_equalityI) (simp_all add: finished_blocks_def finished_block_def)

lemma finished_blocks_finish:
  assumes "acc_inv a" and "finishToolUse a i = Some a'"
  shows "finished_blocks a' = finished_blocks a"
proof (cases rule: finishToolUse_cases[OF assms(1), of i])
  case 1
  with assms show ?thesis by simp
next
  case (2 k b)
  with assms(2) have a': "a' = a\<lparr>ac_blocksOut := (ac_blocksOut a)[k :=
         (ac_blocksOut a ! k)\<lparr>bl_Input := (if is_blank b then ''{}'' else b)\<rparr>],
         ac_open := (ac_open a)(i := None), ac_inputs := (ac_inputs a)(i := None)\<rparr>" by simp
  have id: "bl_ID (ac_blocksOut a ! k) = i" using assms(1) 2(1) by (simp add: acc_inv_def)
  have "finished_block a' j = finished_block a j" if "j < length (ac_blocksOut a)" for j
  proof (cases "j = k")
    case True
    with that id 2 show ?thesis by (simp add: a' finished_block_def)
  next
    case False
    with 2(1) show ?thesis by (auto simp: a' finished_block_def Let_def)
  qed
  then show ?thesis by (simp add: finished_blocks_def a')
qed

lemma finish_all_result:
  assumes "acc_inv a" and "dom (ac_open a) \<subseteq> set ids"
  shows "\<exists>a'. finish_all a ids = Some a' \<and> ac_blocksOut a' = finished_blocks a"
  using assms
proof (induction ids arbitrary: a)
  case Nil
  then have "ac_open a = Map.empty" by auto
  with Nil show ?case by (simp add: finished_blocks_closed)
next
  case (Cons i ids)
  from acc_inv_finishToolUse[OF Cons.prems(1), of i] obtain a1 where
    a1: "finishToolUse a i = Some a1" "acc_inv a1" by blast
  have "dom (ac_open a1) \<subseteq> set ids"
    by (cases rule: finishToolUse_cases[OF Cons.prems(1), of i]) (use a1 Cons.prems(2) in auto)
  with Cons.IH[OF a1(2)] finished_blocks_finish[OF Cons.prems(1) a1(1)] a1(1) show ?case by auto
qed

lemma accumulator_blocks_eq:
  "acc_inv a \<Longrightarrow> visits_open order a \<Longrightarrow> accumulator_blocks order a = Some (finished_blocks a)"
  using finish_all_result[of a order] by (auto simp: accumulator_blocks_def visits_open_def)

section \<open>The blocks are acceptable\<close>

text \<open>What a provider's stream promises: a tool use starts with an id and a name.\<close>

definition named_starts :: "Part list \<Rightarrow> bool" where
  "named_starts ps \<longleftrightarrow> (\<forall>p\<in>set ps. pt_Type p = PartToolUseStart \<longrightarrow> pt_ID p \<noteq> [] \<and> pt_Name p \<noteq> [])"

definition loose_block :: "Block \<Rightarrow> bool" where
  "loose_block b \<longleftrightarrow>
     bl_Type b = BlockText \<and> bl_Text b \<noteq> [] \<or> bl_Type b = BlockThinking \<or>
     bl_Type b = BlockToolUse \<and> bl_ID b \<noteq> [] \<and> bl_Name b \<noteq> []"

lemma list_all_update: "list_all P xs \<Longrightarrow> P y \<Longrightarrow> list_all P (xs[k := y])"
  by (auto simp: list_all_iff dest!: set_update_subset_insert[THEN subsetD])

lemma loose_appendText:
  "list_all loose_block (ac_blocksOut a) \<Longrightarrow> t = BlockText \<or> t = BlockThinking \<Longrightarrow>
    list_all loose_block (ac_blocksOut (appendText a t s))"
  by (auto simp: appendText_def Let_def loose_block_def intro!: list_all_update)

lemma loose_signThinking:
  "list_all loose_block (ac_blocksOut a) \<Longrightarrow> list_all loose_block (ac_blocksOut (signThinking a s))"
  by (auto simp: signThinking_def Let_def loose_block_def intro!: list_all_update)

lemma loose_finishToolUse:
  assumes "acc_inv a" and "list_all loose_block (ac_blocksOut a)" and "finishToolUse a i = Some a'"
  shows "list_all loose_block (ac_blocksOut a')"
proof (cases rule: finishToolUse_cases[OF assms(1), of i])
  case 1
  with assms show ?thesis by simp
next
  case (2 k b)
  with assms(2) have "loose_block (ac_blocksOut a ! k)" by (simp add: list_all_length)
  with 2 assms(2,3) show ?thesis by (auto simp: loose_block_def intro!: list_all_update)
qed

lemma loose_add:
  assumes "acc_inv a" and "list_all loose_block (ac_blocksOut a)" and "named_starts [p]" and "accumulator_add a p = Some a'"
  shows "list_all loose_block (ac_blocksOut a')"
  using assms loose_finishToolUse[OF assms(1,2), of "pt_ID p"]
  by (auto simp: accumulator_add_def named_starts_def loose_appendText loose_signThinking startToolUse_def
      loose_block_def split: if_splits option.splits)

lemma loose_add_parts:
  "acc_inv a \<Longrightarrow> list_all loose_block (ac_blocksOut a) \<Longrightarrow> named_starts ps \<Longrightarrow> add_parts a ps = Some a' \<Longrightarrow>
    list_all loose_block (ac_blocksOut a')"
proof (induction ps arbitrary: a)
  case Nil
  then show ?case by simp
next
  case (Cons p ps)
  then obtain a1 where a1: "accumulator_add a p = Some a1" "add_parts a1 ps = Some a'"
    by (auto simp: bind_eq_Some_conv)
  have n: "named_starts [p]" "named_starts ps" using Cons.prems(3) by (simp_all add: named_starts_def)
  have "acc_inv a1" using acc_inv_add[OF Cons.prems(1), of p] a1(1) by auto
  from Cons.IH[OF this loose_add[OF Cons.prems(1,2) n(1) a1(1)] n(2) a1(2)] show ?case .
qed

lemma sanitize_loose:
  "list_all loose_block bs \<Longrightarrow>
    validate_blocks k [BlockText, BlockThinking, BlockToolUse] (fst (sanitizeToolInputs bs)) = None"
  by (induction bs)
    (auto simp: loose_block_def Block_Validate_def malformed_input_def split: prod.splits)

lemma drop_loose:
  "list_all loose_block bs \<Longrightarrow>
    validate_blocks k [BlockText, BlockThinking, BlockToolUse] (dropIncompleteToolUses bs) = None"
  by (induction bs) (auto simp: loose_block_def Block_Validate_def dropIncompleteToolUses_def)

lemma loose_finished:
  "acc_inv a \<Longrightarrow> list_all loose_block (ac_blocksOut a) \<Longrightarrow> list_all loose_block (finished_blocks a)"
  by (auto simp: finished_blocks_def finished_block_def list_all_length loose_block_def Let_def)

section \<open>Text is kept\<close>

definition stream_text :: "PartType \<Rightarrow> Part list \<Rightarrow> bytes" where
  "stream_text t ps = concat (map pt_Text (filter (\<lambda>p. pt_Type p = t) ps))"

definition blocks_text :: "BlockType \<Rightarrow> Block list \<Rightarrow> bytes" where
  "blocks_text t bs = concat (map bl_Text (filter (\<lambda>b. bl_Type b = t) bs))"

lemma blocks_text_simps [simp]:
  "blocks_text t [] = []" "blocks_text t (bs @ cs) = blocks_text t bs @ blocks_text t cs"
  "blocks_text t (b # bs) = (if bl_Type b = t then bl_Text b else []) @ blocks_text t bs"
  by (simp_all add: blocks_text_def)

lemma text_appendText:
  "blocks_text t (ac_blocksOut (appendText a u s)) = blocks_text t (ac_blocksOut a) @ (if u = t then s else [])"
  by (cases "ac_blocksOut a" rule: rev_cases) (simp_all add: appendText_def Let_def)

lemma text_signThinking: "blocks_text t (ac_blocksOut (signThinking a s)) = blocks_text t (ac_blocksOut a)"
  by (cases "ac_blocksOut a" rule: rev_cases) (simp_all add: signThinking_def Let_def zero_Block_def)

lemma blocks_text_input:
  "k < length bs \<Longrightarrow> blocks_text t (bs[k := (bs ! k)\<lparr>bl_Input := x\<rparr>]) = blocks_text t bs"
proof (induction bs arbitrary: k)
  case Nil
  then show ?case by simp
next
  case (Cons b bs)
  then show ?case by (cases k) (auto simp: blocks_text_def)
qed

lemma text_finishToolUse:
  assumes "finishToolUse a i = Some a'"
  shows "blocks_text t (ac_blocksOut a') = blocks_text t (ac_blocksOut a)"
  using assms by (auto simp: finishToolUse_def blocks_text_input split: option.splits if_splits)

lemma part_types_distinct [simp]:
  "PartTextDelta \<noteq> PartThinkingDelta" "PartThinkingDelta \<noteq> PartTextDelta"
  "PartThinkingSignature \<noteq> PartTextDelta" "PartThinkingSignature \<noteq> PartThinkingDelta"
  "PartToolUseStart \<noteq> PartTextDelta" "PartToolUseStart \<noteq> PartThinkingDelta"
  "PartToolUseDelta \<noteq> PartTextDelta" "PartToolUseDelta \<noteq> PartThinkingDelta"
  "PartToolUseEnd \<noteq> PartTextDelta" "PartToolUseEnd \<noteq> PartThinkingDelta"
  "PartUsage \<noteq> PartTextDelta" "PartUsage \<noteq> PartThinkingDelta"
  "PartStop \<noteq> PartTextDelta" "PartStop \<noteq> PartThinkingDelta"
  by (simp_all add: enum_defs)

definition delta_of :: "BlockType \<Rightarrow> PartType" where
  "delta_of t = (if t = BlockText then PartTextDelta else PartThinkingDelta)"

lemma text_add:
  assumes "t = BlockText \<or> t = BlockThinking" and "accumulator_add a p = Some a'"
  shows "blocks_text t (ac_blocksOut a') = blocks_text t (ac_blocksOut a) @ stream_text (delta_of t) [p]"
proof -
  have start: "blocks_text u (ac_blocksOut (startToolUse a i n)) = blocks_text u (ac_blocksOut a)"
    if "u \<noteq> BlockToolUse" for u i n using that by (simp add: startToolUse_def)
  from assms show ?thesis
    by (auto simp: accumulator_add_def text_appendText text_signThinking text_finishToolUse start
        stream_text_def delta_of_def split: if_splits option.splits)
qed

lemma text_add_parts:
  assumes "t = BlockText \<or> t = BlockThinking" and "add_parts a ps = Some a'"
  shows "blocks_text t (ac_blocksOut a') = blocks_text t (ac_blocksOut a) @ stream_text (delta_of t) ps"
  using assms(2)
proof (induction ps arbitrary: a)
  case Nil
  then show ?case by (simp add: stream_text_def)
next
  case (Cons p ps)
  then obtain a1 where a1: "accumulator_add a p = Some a1" "add_parts a1 ps = Some a'"
    by (auto simp: bind_eq_Some_conv)
  from Cons.IH[OF a1(2)] text_add[OF assms(1) a1(1)] show ?case by (simp add: stream_text_def)
qed

lemma text_finish_all:
  "finish_all a ids = Some a' \<Longrightarrow> blocks_text t (ac_blocksOut a') = blocks_text t (ac_blocksOut a)"
proof (induction ids arbitrary: a)
  case Nil
  then show ?case by simp
next
  case (Cons i ids)
  then obtain a1 where "finishToolUse a i = Some a1" "finish_all a1 ids = Some a'"
    by (auto simp: bind_eq_Some_conv)
  from Cons.IH[OF this(2)] text_finishToolUse[OF this(1)] show ?case by simp
qed

lemma usage_add_parts:
  "add_parts a ps = Some a' \<Longrightarrow>
    ac_usage a' = fold (\<lambda>p u. Usage_Add u (pt_Usage p)) (filter (\<lambda>p. pt_Type p = PartUsage) ps) (ac_usage a)"
proof (induction ps arbitrary: a)
  case Nil
  then show ?case by simp
next
  case (Cons p ps)
  then obtain a1 where a1: "accumulator_add a p = Some a1" "add_parts a1 ps = Some a'"
    by (auto simp: bind_eq_Some_conv)
  have "ac_usage a1 = (if pt_Type p = PartUsage then Usage_Add (ac_usage a) (pt_Usage p) else ac_usage a)"
    using a1(1)
    by (auto simp: accumulator_add_def appendText_def signThinking_def startToolUse_def finishToolUse_def Let_def
        enum_defs split: if_splits option.splits)
  with Cons.IH[OF a1(2)] show ?case by simp
qed

section \<open>Properties\<close>

text \<open>
  C14: No stream makes the accumulator panic, and the blocks it ends with do not depend on the
  order in which the open tool uses are finished: for every list of parts there is one list of
  blocks that every visiting order gives. In it the text blocks carry exactly the text deltas in
  order and the thinking blocks exactly the thinking deltas.
\<close>

theorem accumulator_total:
  "\<exists>a bs. add_parts newAccumulator ps = Some a \<and>
     (\<forall>order. visits_open order a \<longrightarrow> accumulator_blocks order a = Some bs) \<and>
     blocks_text BlockText bs = stream_text PartTextDelta ps \<and>
     blocks_text BlockThinking bs = stream_text PartThinkingDelta ps"
proof -
  obtain a where a: "add_parts newAccumulator ps = Some a" "acc_inv a"
    using add_parts_total[of newAccumulator ps] by auto
  from finite_list[OF acc_inv_finite[OF a(2)]] obtain ids where "set ids = dom (ac_open a)" by (elim exE)
  then obtain a' where "finish_all a ids = Some a'" "ac_blocksOut a' = finished_blocks a"
    using finish_all_result[OF a(2), of ids] by auto
  then have fin: "blocks_text t (finished_blocks a) = blocks_text t (ac_blocksOut a)" for t
    using text_finish_all[of a ids a' t] by simp
  have "blocks_text BlockText (finished_blocks a) = stream_text PartTextDelta ps"
    using text_add_parts[of BlockText, OF _ a(1)] by (simp add: fin delta_of_def newAccumulator_def)
  moreover have "blocks_text BlockThinking (finished_blocks a) = stream_text PartThinkingDelta ps"
    using text_add_parts[of BlockThinking, OF _ a(1)] by (simp add: fin delta_of_def newAccumulator_def)
  ultimately show ?thesis using a(1) accumulator_blocks_eq[OF a(2)] by blast
qed

text \<open>A stream with a text delta, two interleaved tool uses and a stop.\<close>

definition part0 :: "PartType \<Rightarrow> bytes \<Rightarrow> bytes \<Rightarrow> bytes \<Rightarrow> Part" where
  "part0 t i n s = \<lparr>pt_Type = t, pt_Text = s, pt_ID = i, pt_Name = n, pt_Signature = [], pt_Usage = zero_Usage,
     pt_StopReason = StopToolUse, pt_StopReasonRaw = []\<rparr>"

definition stream0 :: "Part list" where
  "stream0 = [part0 PartTextDelta [] [] ''he'', part0 PartTextDelta [] [] ''llo'',
     part0 PartToolUseStart ''t1'' ''bash'' [], part0 PartToolUseStart ''t2'' ''read'' [],
     part0 PartToolUseDelta ''t1'' [] ''{}'', part0 PartToolUseDelta ''t2'' [] ''{bad'', part0 PartStop [] [] []]"

theorem accumulator_total_witness:
  "\<exists>a bs. add_parts newAccumulator stream0 = Some a \<and> accumulator_blocks [''t2'', ''t1''] a = Some bs \<and>
     accumulator_blocks [''t1'', ''t2''] a = Some bs \<and> blocks_text BlockText bs = ''hello''"
proof -
  from accumulator_total[of stream0] obtain a bs where
    a: "add_parts newAccumulator stream0 = Some a"
    and bs: "\<And>order. visits_open order a \<Longrightarrow> accumulator_blocks order a = Some bs"
    and tx: "blocks_text BlockText bs = stream_text PartTextDelta stream0" by blast
  have "dom (ac_open a) = {''t1'', ''t2''}"
    using a by (simp add: stream0_def part0_def accumulator_add_def newAccumulator_def appendText_def startToolUse_def
        enum_defs) (auto split: if_splits)
  then have "visits_open [''t2'', ''t1''] a" "visits_open [''t1'', ''t2''] a" by (auto simp: visits_open_def)
  moreover have "stream_text PartTextDelta stream0 = ''hello''" by code_simp
  ultimately show ?thesis using a bs tx by auto
qed

text \<open>
  C15: What the loop appends is always acceptable to the log: from any stream whose tool uses start
  with an id and a name, the blocks pass the checks on an assistant message both after
  \<open>sanitizeToolInputs\<close>, as on the normal path, and after \<open>dropIncompleteToolUses\<close>, as on the
  interrupted one.
\<close>

theorem stream_blocks_acceptable:
  assumes "named_starts ps" and "add_parts newAccumulator ps = Some a" and "visits_open order a"
  shows "\<exists>bs. accumulator_blocks order a = Some bs \<and>
    validate_blocks KindAssistantMessage [BlockText, BlockThinking, BlockToolUse] (fst (sanitizeToolInputs bs)) = None \<and>
    validate_blocks KindAssistantMessage [BlockText, BlockThinking, BlockToolUse] (dropIncompleteToolUses bs) = None"
proof -
  have inv: "acc_inv a" using add_parts_total[of newAccumulator ps] assms(2) by auto
  have "list_all loose_block (ac_blocksOut newAccumulator)" by (simp add: newAccumulator_def)
  from loose_add_parts[OF _ this assms(1,2)] loose_finished[OF inv]
  have "list_all loose_block (finished_blocks a)" by simp
  with accumulator_blocks_eq[OF inv assms(3)] show ?thesis by (auto simp: sanitize_loose drop_loose)
qed

theorem stream_blocks_acceptable_witness:
  "\<exists>a bs. add_parts newAccumulator (take 4 stream0) = Some a \<and> accumulator_blocks [''t1'', ''t2''] a = Some bs \<and>
    validate_blocks KindAssistantMessage [BlockText, BlockThinking, BlockToolUse] (dropIncompleteToolUses bs) = None"
proof -
  obtain a where a: "add_parts newAccumulator (take 4 stream0) = Some a"
    using add_parts_total[of newAccumulator "take 4 stream0"] by auto
  have n: "named_starts (take 4 stream0)" by (simp add: named_starts_def stream0_def part0_def enum_defs)
  have "dom (ac_open a) = {''t1'', ''t2''}"
    using a by (simp add: stream0_def part0_def accumulator_add_def newAccumulator_def appendText_def startToolUse_def
        enum_defs) (auto split: if_splits)
  then have v: "visits_open [''t1'', ''t2''] a" by (auto simp: visits_open_def)
  from stream_blocks_acceptable[OF n a v] a show ?thesis by blast
qed

end
