(* ===== verification/Request.thy ===== *)
theory Request
  imports Session_Theorems Accumulator
begin

text \<open>
  What a provider is asked: \<open>internal/turn/assemble.go\<close> (the messages built from the request
  context) and \<open>internal/turn/compact.go\<close> (what a compaction covers, and the compaction itself).
  The provider is a parameter \<open>complete\<close>: the parts a request streams and the error it ends with,
  if any. The handlers of the \<open>before_compaction\<close> hook are the list of their results, \<open>None\<close>
  for a result of another type.
\<close>

section \<open>Requests\<close>

type_synonym Role = bytes

definition RoleUser :: Role where [enum_defs]: "RoleUser = ''user''"
definition RoleAssistant :: Role where [enum_defs]: "RoleAssistant = ''assistant''"
definition RoleToolResult :: Role where [enum_defs]: "RoleToolResult = ''tool_result''"

record ProviderToolResult =
  pr_ToolUseID :: bytes
  pr_Content :: "Block list"
  pr_IsError :: bool

record Message =
  ms_Role :: Role
  ms_Content :: "Block list"
  ms_Results :: "ProviderToolResult list"

record ToolDef =
  td_Name :: bytes
  td_Description :: bytes
  td_Schema :: bytes

record Request =
  rq_Model :: ModelRef
  rq_System :: bytes
  rq_Messages :: "Message list"
  rq_Tools :: "ToolDef list"
  rq_Thinking :: ThinkingLevel
  rq_MaxTokens :: int
  rq_SessionID :: ulid
  rq_Headers :: "bytes \<rightharpoonup> bytes"

type_synonym overrides = "bytes \<rightharpoonup> Block list"

definition content_message :: "Role \<Rightarrow> Block list \<Rightarrow> Message" where
  "content_message role content = \<lparr>ms_Role = role, ms_Content = content, ms_Results = []\<rparr>"

definition summaryPrefix :: bytes where
  "summaryPrefix = ''Summary of the conversation so far:'' @ [c_nl]"

text \<open>What one entry adds: a message of its own, a tool result of the running group, or nothing.\<close>

datatype entry_message = OwnMessage Message | GroupResult ProviderToolResult

definition entry_message :: "overrides \<Rightarrow> Entry \<Rightarrow> entry_message option" where
  "entry_message over e =
     (case en_Payload e of
        Compaction c \<Rightarrow> Some (OwnMessage (content_message RoleUser [TextBlock (summaryPrefix @ co_Summary c)]))
      | UserMessage m \<Rightarrow> Some (OwnMessage (content_message RoleUser (um_Content m)))
      | AssistantMessage m \<Rightarrow> Some (OwnMessage (content_message RoleAssistant (am_Content m)))
      | ToolResult r \<Rightarrow>
          Some (GroupResult
            \<lparr>pr_ToolUseID = tr_ToolUseID r,
             pr_Content = (case over (tr_ToolUseID r) of Some c \<Rightarrow> c | None \<Rightarrow> tr_Content r),
             pr_IsError = (tr_Outcome r \<noteq> OutcomeOK)\<rparr>)
      | _ \<Rightarrow> None)"

definition flush :: "Message list \<Rightarrow> ProviderToolResult list \<Rightarrow> Message list" where
  "flush out results =
     (if results \<noteq> [] then out @ [\<lparr>ms_Role = RoleToolResult, ms_Content = [], ms_Results = results\<rparr>] else out)"

fun messages_loop :: "overrides \<Rightarrow> Message list \<Rightarrow> ProviderToolResult list \<Rightarrow> Entry list \<Rightarrow> Message list" where
  "messages_loop over out results [] = flush out results"
| "messages_loop over out results (e # es) =
     (case entry_message over e of
        Some (OwnMessage m) \<Rightarrow> messages_loop over (flush out results @ [m]) [] es
      | Some (GroupResult r) \<Rightarrow> messages_loop over out (results @ [r]) es
      | None \<Rightarrow> messages_loop over out results es)"

definition messagesOf :: "Entry list \<Rightarrow> overrides \<Rightarrow> Message list" where
  "messagesOf es over = messages_loop over [] [] es"

definition Assemble :: "Session \<Rightarrow> ToolDef list \<Rightarrow> bytes \<Rightarrow> int \<Rightarrow> overrides \<Rightarrow> Request" where
  "Assemble s tools system maxTokens over =
     \<lparr>rq_Model = Session_Model s, rq_System = system, rq_Messages = messagesOf (RequestContext s) over,
      rq_Tools = tools, rq_Thinking = Session_Thinking s, rq_MaxTokens = maxTokens,
      rq_SessionID = s_id s, rq_Headers = Map.empty\<rparr>"

section \<open>Compaction\<close>

record ProviderError =
  pe_Class :: ErrorClass
  pe_Status :: int
  pe_Message :: bytes
  pe_Attempts :: int

text \<open>A Go error, as the turn tells them apart: a provider's, or another one with its text.\<close>

datatype go_error = ProviderErr ProviderError | OtherErr bytes | SessionErr session_error

definition isConversation :: "Entry \<Rightarrow> bool" where
  "isConversation e \<longleftrightarrow>
     en_Kind e \<in> {KindUserMessage, KindAssistantMessage, KindToolResult, KindCompaction}"

definition Cover :: "Session \<Rightarrow> ulid \<Rightarrow> Entry list" where
  "Cover s before =
     filter isConversation (filter (\<lambda>e. \<not> (before \<noteq> 0 \<and> en_ID e \<ge> before)) (RequestContext s))"

fun prompt_tokens_back :: "Entry list \<Rightarrow> int64" where
  "prompt_tokens_back [] = 0"
| "prompt_tokens_back (e # es) =
     (case en_Payload e of
        AssistantMessage m \<Rightarrow> u_Input (am_Usage m) + u_CacheRead (am_Usage m) + u_CacheWrite (am_Usage m)
      | _ \<Rightarrow> prompt_tokens_back es)"

definition promptTokensOf :: "Entry list \<Rightarrow> int64" where
  "promptTokensOf cover = prompt_tokens_back (rev cover)"

record ModelCompactor =
  mc_Model :: ModelRef
  mc_MaxTokens :: int
  mc_Overrides :: overrides

type_synonym completer = "Request \<Rightarrow> Part list \<times> go_error option"

definition summarySystem :: bytes where
  "summarySystem = ''You summarize a coding session so the assistant can continue it. Write the summary in plain prose, then a list of every file path, command, decision and open task mentioned. Keep tool inputs and outputs that a next step depends on. Do not invent.''"

definition summary_request :: "ModelCompactor \<Rightarrow> ulid \<Rightarrow> Entry list \<Rightarrow> bytes \<Rightarrow> Request" where
  "summary_request c i cover instructions =
     \<lparr>rq_Model = mc_Model c, rq_System = summarySystem,
      rq_Messages = messagesOf cover (mc_Overrides c) @
        [content_message RoleUser
          [TextBlock (''Summarize the conversation above for a continuation of this session.'' @
             (if instructions \<noteq> [] then '' Instructions: '' @ instructions else []))]],
      rq_Tools = [], rq_Thinking = ThinkingOff, rq_MaxTokens = mc_MaxTokens c, rq_SessionID = i,
      rq_Headers = Map.empty\<rparr>"

fun summary_parts :: "bytes \<Rightarrow> Usage \<Rightarrow> Part list \<Rightarrow> bytes \<times> Usage" where
  "summary_parts b u [] = (b, u)"
| "summary_parts b u (p # ps) =
     (if pt_Type p = PartTextDelta then summary_parts (b @ pt_Text p) u ps
      else if pt_Type p = PartUsage then summary_parts b (Usage_Add u (pt_Usage p)) ps
      else summary_parts b u ps)"

definition summarize :: "ModelCompactor \<Rightarrow> completer \<Rightarrow> Session \<Rightarrow> Entry list \<Rightarrow> bytes \<Rightarrow>
    (go_error, bytes \<times> Usage) result" where
  "summarize c complete s cover instructions =
     (case complete (summary_request c (s_id s) cover instructions) of
        (parts, err) \<Rightarrow>
          (case err of
             Some e \<Rightarrow> Inl e
           | None \<Rightarrow>
               (case summary_parts [] zero_Usage parts of
                  (b, u) \<Rightarrow>
                    if is_blank b
                    then Inl (ProviderErr \<lparr>pe_Class = ErrProvider, pe_Status = 0,
                           pe_Message = ''empty summary'', pe_Attempts = 0\<rparr>)
                    else Inr (b, u))))"

fun hook_summary :: "bytes option list \<Rightarrow> bytes" where
  "hook_summary [] = []"
| "hook_summary (r # rs) = (case r of Some s \<Rightarrow> if s \<noteq> [] then s else hook_summary rs | None \<Rightarrow> hook_summary rs)"

definition compact_first :: "Entry \<Rightarrow> ulid" where
  "compact_first e = (case en_Payload e of Compaction prev \<Rightarrow> co_FirstEntryID prev | _ \<Rightarrow> en_ID e)"

text \<open>\<open>Inr None\<close> is the zero entry: nothing worth covering. No hook runner is the empty list of results.\<close>

definition Compact ::
  "ulid_lib \<Rightarrow> call_env \<Rightarrow> ModelCompactor \<Rightarrow> completer \<Rightarrow> bytes option list \<Rightarrow> Session \<Rightarrow> ulid \<Rightarrow> bytes \<Rightarrow>
     Session \<times> (go_error, Entry option) result" where
  "Compact U env c complete hooks s before instructions =
     (let cover = Cover s before in
      if length cover < 2 then (s, Inr None)
      else
        (let hs = (if instructions = [] then hook_summary hooks else []) in
         case (if hs \<noteq> [] then Inr (hs, zero_Usage) else summarize c complete s cover instructions) of
           Inl e \<Rightarrow> (s, Inl e)
         | Inr (summary, usage) \<Rightarrow>
             (case Session_Append U env s
                 (Compaction \<lparr>co_Summary = summary, co_FirstEntryID = compact_first (hd cover),
                    co_LastEntryID = en_ID (last cover), co_Model = mc_Model c, co_Usage = usage\<rparr>) of
                (s', Inl e) \<Rightarrow> (s', Inl (SessionErr e))
              | (s', Inr e) \<Rightarrow> (s', Inr (Some e)))))"

section \<open>The grouping of tool results\<close>

text \<open>The messages with every group of results taken apart again, and when no two groups touch.\<close>

definition ungroup :: "Message list \<Rightarrow> entry_message list" where
  "ungroup ms = concat (map (\<lambda>m. if ms_Role m = RoleToolResult then map GroupResult (ms_Results m) else [OwnMessage m]) ms)"

fun grouped :: "Message list \<Rightarrow> bool" where
  "grouped [] = True"
| "grouped (m # ms) =
     ((ms_Role m = RoleToolResult \<longrightarrow> ms_Results m \<noteq> [] \<and> (ms = [] \<or> ms_Role (hd ms) \<noteq> RoleToolResult)) \<and> grouped ms)"

lemma roles_distinct [simp]:
  "RoleUser \<noteq> RoleToolResult" "RoleAssistant \<noteq> RoleToolResult" "RoleToolResult \<noteq> RoleUser" "RoleToolResult \<noteq> RoleAssistant"
  "RoleUser \<noteq> RoleAssistant" "RoleAssistant \<noteq> RoleUser"
  by (simp_all add: enum_defs)

lemma ungroup_simps [simp]:
  "ungroup [] = []" "ungroup (xs @ ys) = ungroup xs @ ungroup ys"
  "ungroup (flush out rs) = ungroup out @ map GroupResult rs"
  "ungroup [m] = (if ms_Role m = RoleToolResult then map GroupResult (ms_Results m) else [OwnMessage m])"
  by (simp_all add: ungroup_def flush_def)

lemma own_message_role: "entry_message over e = Some (OwnMessage m) \<Longrightarrow> ms_Role m \<noteq> RoleToolResult"
  by (auto simp: entry_message_def content_message_def split: payload.splits)

lemma messages_loop_items:
  "ungroup (messages_loop over out rs es) = ungroup out @ map GroupResult rs @ List.map_filter (entry_message over) es"
proof (induction es arbitrary: out rs)
  case Nil
  then show ?case by (simp add: List.map_filter_def)
next
  case (Cons e es)
  then show ?case
    using own_message_role[of over e]
    by (auto simp: List.map_filter_def split: option.splits entry_message.splits)
qed

lemma grouped_append:
  "grouped (xs @ ys) \<longleftrightarrow> grouped xs \<and> grouped ys \<and>
    (xs \<noteq> [] \<and> ys \<noteq> [] \<longrightarrow> \<not> (ms_Role (last xs) = RoleToolResult \<and> ms_Role (hd ys) = RoleToolResult))"
proof (induction xs)
  case Nil
  then show ?case by simp
next
  case (Cons x xs)
  then show ?case by (cases xs; cases ys) auto
qed

lemma messages_loop_grouped:
  "grouped out \<Longrightarrow> out = [] \<or> ms_Role (last out) \<noteq> RoleToolResult \<Longrightarrow> grouped (messages_loop over out rs es)"
proof (induction es arbitrary: out rs)
  case Nil
  then show ?case by (auto simp: flush_def grouped_append)
next
  case (Cons e es)
  show ?case
  proof (cases "entry_message over e")
    case None
    with Cons show ?thesis by simp
  next
    case (Some x)
    show ?thesis
    proof (cases x)
      case (OwnMessage m)
      with Some have "ms_Role m \<noteq> RoleToolResult" by (simp add: own_message_role)
      with Cons Some OwnMessage show ?thesis by (auto simp: flush_def grouped_append)
    next
      case (GroupResult r)
      with Cons Some show ?thesis by simp
    qed
  qed
qed

text \<open>
  C16: The request says everything the context says, once and in order: taking its groups of tool
  results apart gives exactly the conversation entries of the context in log order, each tool
  result as a hook replaced it and marked an error unless its outcome was ok. Results are sent in
  groups as large as possible: no group is empty and no two groups are adjacent.
\<close>

theorem request_carries_context:
  "ungroup (rq_Messages (Assemble s tools system n over)) = List.map_filter (entry_message over) (RequestContext s) \<and>
   grouped (rq_Messages (Assemble s tools system n over))"
  by (simp add: Assemble_def messagesOf_def messages_loop_items messages_loop_grouped)

section \<open>What a compaction covers\<close>

definition covered :: "ulid \<Rightarrow> Entry \<Rightarrow> bool" where
  "covered before e \<longleftrightarrow> (before = 0 \<or> en_ID e < before) \<and> isConversation e"

lemma Cover_eq: "Cover s before = filter (covered before) (RequestContext s)"
  unfolding Cover_def filter_filter by (rule filter_cong) (auto simp: covered_def)

lemma Cover_mem:
  assumes "wf_entries P (Entries s)" and "e \<in> set (Cover s before)"
  shows "e \<in> set (Entries s)"
proof -
  from assms(2) have "e \<in> set (request_context (Entries s))" by (auto simp: Cover_def RequestContext_def)
  then show ?thesis
    by (cases rule: request_context_cases[OF assms(1)]) auto
qed

lemma compact_first_plain: "entry_ok P e \<Longrightarrow> en_Kind e \<noteq> KindCompaction \<Longrightarrow> compact_first e = en_ID e"
  using entry_ok_kind[of P e] by (auto simp: compact_first_def compaction_of_def split: payload.splits)

lemma sorted_hd_le_last: "strict_sorted (map f xs) \<Longrightarrow> xs \<noteq> [] \<Longrightarrow> f (hd xs) \<le> f (last xs)"
  by (cases xs) (auto dest: last_in_set intro: less_imp_le)

lemma strict_sorted_filter: "strict_sorted (map f xs) \<Longrightarrow> strict_sorted (map f (filter P xs))"
  by (simp add: sorted_wrt_map sorted_wrt_filter)

definition in_range :: "Entry list \<Rightarrow> ulid \<Rightarrow> ulid \<Rightarrow> bool" where
  "in_range es a b \<longleftrightarrow> has_id es a \<and> has_id es b \<and> a \<le> b"

lemma in_range_sorted:
  assumes "wf_entries P es" and "xs \<noteq> []" and "set xs \<subseteq> set es" and "strict_sorted (map en_ID xs)"
    and "\<forall>x\<in>set xs. en_Kind x \<noteq> KindCompaction"
  shows "in_range es (compact_first (hd xs)) (en_ID (last xs))"
proof -
  have "hd xs \<in> set es" "last xs \<in> set es" using assms(2,3) by (auto dest: hd_in_set last_in_set)
  moreover have "entry_ok P (hd xs)" using assms(1) \<open>hd xs \<in> set es\<close> by (simp add: wf_entries_def)
  then have "compact_first (hd xs) = en_ID (hd xs)" using assms(2,5) compact_first_plain by simp
  ultimately show ?thesis using sorted_hd_le_last[OF assms(4,2)] by (auto simp: in_range_def has_id_def)
qed

lemma cover_range:
  assumes wf: "wf_entries P (Entries s)" and len: "length (Cover s before) \<ge> 2"
  shows "in_range (Entries s) (compact_first (hd (Cover s before))) (en_ID (last (Cover s before)))"
proof (cases rule: request_context_cases[OF wf])
  case 1
  define Q where "Q = covered before"
  have cover: "Cover s before = filter Q (Entries s)"
    using 1(2) by (simp add: Cover_eq RequestContext_def Q_def)
  have "\<forall>x\<in>set (Entries s). en_Kind x \<noteq> KindCompaction"
    using 1(1) wf entry_ok_kind[of P] by (auto simp: wf_entries_def)
  moreover have "strict_sorted (map en_ID (filter Q (Entries s)))"
    using wf by (intro strict_sorted_filter) (simp add: wf_entries_def)
  moreover have "filter Q (Entries s) \<noteq> []" using len cover by auto
  ultimately show ?thesis unfolding cover by (intro in_range_sorted[OF wf]) auto
next
  case (2 pre e mid c after v)
  define Q where "Q = covered before"
  define xs where "xs = filter (\<lambda>x. en_Kind x \<noteq> KindCompaction) (mid @ after)"
  have cover: "Cover s before = filter Q (c # xs)"
    using 2(4) by (simp only: Cover_eq RequestContext_def Q_def xs_def)
  have sub: "set xs \<subseteq> set (Entries s)" using 2(1) by (auto simp: xs_def)
  have srt: "strict_sorted (map en_ID (filter Q xs))"
    unfolding xs_def
    by (intro strict_sorted_filter) (use wf 2(1) in \<open>auto simp: wf_entries_def sorted_wrt_append\<close>)
  have gt: "co_LastEntryID v < en_ID x" if "x \<in> set xs" for x
    using that wf 2(1,3) by (auto simp: xs_def wf_entries_def sorted_wrt_append)
  show ?thesis
  proof (cases "Q c")
    case True
    with len cover have ne: "filter Q xs \<noteq> []" by (cases "filter Q xs") auto
    then have "last (filter Q xs) \<in> set xs" by (meson filter_is_subset last_in_set subsetD)
    moreover have "follows (pre @ e # mid) (en_Payload c)"
      by (rule follows_at[OF wf, of _ _ after]) (simp add: 2(1))
    ultimately show ?thesis
      using True ne gt[of "last (filter Q xs)"] sub 2(1,2)
      by (auto simp: cover in_range_def compact_first_def follows_def has_id_def)
  next
    case False
    then have cv: "Cover s before = filter Q xs" by (simp add: cover)
    have "filter Q xs \<noteq> []" using len cv by auto
    then show ?thesis unfolding cv
      by (intro in_range_sorted[OF wf _ _ srt]) (use sub in \<open>auto simp: xs_def\<close>)
  qed
qed

lemma strict_sorted_le_last: "strict_sorted (map f xs) \<Longrightarrow> x \<in> set xs \<Longrightarrow> f x \<le> f (last xs)"
proof (induction xs)
  case Nil
  then show ?case by simp
next
  case (Cons a xs)
  then show ?case by (cases "xs = []") (auto dest: last_in_set intro: less_imp_le)
qed

lemma cover_last_max:
  assumes wf: "wf_entries P (Entries s)" and len: "length (Cover s before) \<ge> 2"
    and x: "x \<in> set (Entries s)" "covered before x" "en_Kind x \<noteq> KindCompaction"
  shows "en_ID x \<le> en_ID (last (Cover s before))"
proof (cases rule: request_context_cases[OF wf])
  case 1
  then have cv: "Cover s before = filter (covered before) (Entries s)" by (simp add: Cover_eq RequestContext_def)
  have "strict_sorted (map en_ID (filter (covered before) (Entries s)))"
    using wf by (intro strict_sorted_filter) (simp add: wf_entries_def)
  from strict_sorted_le_last[OF this, of x] x show ?thesis unfolding cv by simp
next
  case (2 pre e mid c after v)
  define xs where "xs = filter (\<lambda>x. en_Kind x \<noteq> KindCompaction) (mid @ after)"
  have cv: "Cover s before = filter (covered before) (c # xs)"
    using 2(4) by (simp only: Cover_eq RequestContext_def xs_def)
  have srt: "strict_sorted (map en_ID (filter (covered before) xs))"
    unfolding xs_def
    by (intro strict_sorted_filter) (use wf 2(1) in \<open>auto simp: wf_entries_def sorted_wrt_append\<close>)
  have ne: "filter (covered before) xs \<noteq> []" using len unfolding cv by (auto split: if_splits)
  then have lst: "last (Cover s before) = last (filter (covered before) xs)" unfolding cv by simp
  have "last (filter (covered before) xs) \<in> set (mid @ after)"
    using last_in_set[OF ne] by (auto simp: xs_def)
  then have gt: "en_ID e < en_ID (last (Cover s before))"
    unfolding lst using wf 2(1) by (auto simp: wf_entries_def sorted_wrt_append)
  show ?thesis
  proof (cases "x \<in> set xs")
    case True
    with x strict_sorted_le_last[OF srt, of x] show ?thesis by (simp add: lst)
  next
    case False
    have "en_Kind c = KindCompaction"
      using entry_ok_kind[of P c] wf 2(1,2) by (auto simp: wf_entries_def compaction_of_def)
    with False x 2(1) have "x \<in> set (pre @ [e])" by (auto simp: xs_def)
    then have "en_ID x \<le> en_ID e" using wf 2(1) by (auto simp: wf_entries_def sorted_wrt_append)
    with gt show ?thesis by simp
  qed
qed

section \<open>Compacting\<close>

text \<open>The summary a compaction gets: the first hook's, unless there are instructions, or the model's.\<close>

definition summary_for :: "ModelCompactor \<Rightarrow> completer \<Rightarrow> bytes option list \<Rightarrow> Session \<Rightarrow> ulid \<Rightarrow> bytes \<Rightarrow>
    (go_error, bytes \<times> Usage) result" where
  "summary_for c complete hooks s before instructions =
     (if instructions = [] \<and> hook_summary hooks \<noteq> [] then Inr (hook_summary hooks, zero_Usage)
      else summarize c complete s (Cover s before) instructions)"

lemma Compact_eq:
  "Compact U env c complete hooks s before instructions =
     (if length (Cover s before) < 2 then (s, Inr None)
      else case summary_for c complete hooks s before instructions of
        Inl e \<Rightarrow> (s, Inl e)
      | Inr (summary, usage) \<Rightarrow>
          (case Session_Append U env s
              (Compaction \<lparr>co_Summary = summary, co_FirstEntryID = compact_first (hd (Cover s before)),
                 co_LastEntryID = en_ID (last (Cover s before)), co_Model = mc_Model c, co_Usage = usage\<rparr>) of
             (s', Inl e) \<Rightarrow> (s', Inl (SessionErr e))
           | (s', Inr e) \<Rightarrow> (s', Inr (Some e))))"
  by (simp add: Compact_def summary_for_def Let_def)

lemma Compact_appends:
  assumes "reachable U s" and "log_ready s" and "good_env env" and "mc_Model c \<noteq> zero_ModelRef"
    and "length (Cover s before) \<ge> 2" and "summary_for c complete hooks s before instructions = Inr (summary, usage)"
  obtains s' v where
    "Compact U env c complete hooks s before instructions = (s', Inr (Some (new_entry env (Compaction v))))"
    "Entries s' = Entries s @ [new_entry env (Compaction v)]" "co_Summary v = summary"
    "co_FirstEntryID v = compact_first (hd (Cover s before))" "co_LastEntryID v = en_ID (last (Cover s before))"
proof -
  let ?v = "\<lparr>co_Summary = summary, co_FirstEntryID = compact_first (hd (Cover s before)),
    co_LastEntryID = en_ID (last (Cover s before)), co_Model = mc_Model c, co_Usage = usage\<rparr>"
  have wf: "wf_entries (ulid_ParseStrict U) (Entries s)" and own: "s_own s \<noteq> []"
    using reachable_wf[OF assms(1)] by (simp_all add: wf_session_def)
  have r: "in_range (Entries s) (co_FirstEntryID ?v) (co_LastEntryID ?v)" using cover_range[OF wf assms(5)] by simp
  have nz: "i \<noteq> 0" if "has_id (Entries s) i" for i
    using that wf by (auto simp: has_id_def wf_entries_def entry_ok_def)
  from r have "append_guard (ulid_ParseStrict U) (s_inherited s) (s_own s) (Compaction ?v) = None"
    using assms(4) nz
    by (auto simp: append_guard_def Let_def in_range_def not_less simp flip: Entries_def)
  from Session_Append_succeeds[OF this assms(2,3)] obtain s' where
    "Session_Append U env s (Compaction ?v) = (s', Inr (new_entry env (Compaction ?v)))"
    "Entries s' = Entries s @ [new_entry env (Compaction ?v)]" by metis
  with assms(5,6) show ?thesis by (intro that[of s' ?v]) (simp_all add: Compact_eq)
qed

lemma compacted_context:
  assumes wf: "wf_entries P (Entries s @ [new_entry env (Compaction v)])"
    and s': "Entries s' = Entries s @ [new_entry env (Compaction v)]"
  shows "RequestContext s' =
    new_entry env (Compaction v) # filter (\<lambda>x. co_LastEntryID v < en_ID x \<and> en_Kind x \<noteq> KindCompaction) (Entries s)"
proof -
  have "en_Payload (new_entry env (Compaction v)) = Compaction v" by (simp add: new_entry_def)
  from request_context_at[OF wf refl this] obtain pre e mid where
    rc: "Entries s = pre @ e # mid" "en_ID e = co_LastEntryID v"
    "request_context (Entries s @ [new_entry env (Compaction v)]) =
       new_entry env (Compaction v) # filter (\<lambda>x. en_Kind x \<noteq> KindCompaction) (mid @ [])" by auto
  from sorted_above[OF wf_entries_prefix[OF wf] rc(1), of "\<lambda>x. en_Kind x \<noteq> KindCompaction"] rc s' show ?thesis
    by (simp add: RequestContext_def)
qed

text \<open>
  C17: A compaction of a reachable session is never refused by the log: whenever two entries are
  covered and a summary was obtained, it is appended, it starts where the previous compaction in
  the context started, the log stays well formed, and nothing outside the covered range is lost:
  every non-compaction entry at or after \<open>before\<close>, the turn in flight, is still in the context.
\<close>

theorem compaction_succeeds:
  assumes "reachable U s" and "log_ready s" and "good_env env" and "fresh env s" and "mc_Model c \<noteq> zero_ModelRef"
    and "length (Cover s before) \<ge> 2" and "is_ok (summary_for c complete hooks s before instructions)"
  shows "\<exists>s' e. Compact U env c complete hooks s before instructions = (s', Inr (Some e)) \<and>
    Entries s' = Entries s @ [e] \<and> wf_entries (ulid_ParseStrict U) (Entries s') \<and> hd (RequestContext s') = e \<and>
    (before \<noteq> 0 \<longrightarrow> (\<forall>x\<in>set (Entries s). before \<le> en_ID x \<and> en_Kind x \<noteq> KindCompaction \<longrightarrow> x \<in> set (RequestContext s')))"
proof -
  from assms(7) obtain summary usage where "summary_for c complete hooks s before instructions = Inr (summary, usage)"
    by (auto simp: is_ok_iff)
  from Compact_appends[OF assms(1,2,3,5,6) this] obtain s' v where
    c: "Compact U env c complete hooks s before instructions = (s', Inr (Some (new_entry env (Compaction v))))"
    "Entries s' = Entries s @ [new_entry env (Compaction v)]" "co_LastEntryID v = en_ID (last (Cover s before))" by metis
  have wf: "wf_entries (ulid_ParseStrict U) (Entries s')"
  proof -
    have "reachable U (fst (Compact U env c complete hooks s before instructions))"
      using assms(1,4) by (auto simp: Compact_eq split: sum.splits prod.splits intro: reachable.append)
    with c(1) show ?thesis using reachable_wf by (auto simp: wf_session_def)
  qed
  note rc = compacted_context[OF wf[unfolded c(2)] c(2)]
  have "en_ID (last (Cover s before)) < before" if "before \<noteq> 0"
  proof -
    have "Cover s before \<noteq> []" using assms(6) by auto
    from last_in_set[OF this] that show ?thesis by (auto simp: Cover_eq covered_def)
  qed
  with c wf rc show ?thesis by (intro exI[of _ s'] exI[of _ "new_entry env (Compaction v)"]) auto
qed

definition compactor0 :: ModelCompactor where
  "compactor0 = \<lparr>mc_Model = model0, mc_MaxTokens = 100, mc_Overrides = Map.empty\<rparr>"

definition complete0 :: completer where
  "complete0 rq = ([part0 PartTextDelta [] [] ''so far''], None)"

lemma answered0_cover: "length (Cover answered0 0) \<ge> 2"
  unfolding Cover_def RequestContext_def answered0_entries[THEN conjunct1] by code_simp

lemma answered0_fresh: "fresh (env0 5) answered0"
  by (simp add: answered0_entries fresh_def new_entry_def env0_def)

theorem compaction_succeeds_witness:
  "\<exists>s' e. Compact ulid0 (env0 5) compactor0 complete0 [] answered0 0 [] = (s', Inr (Some e)) \<and>
     hd (RequestContext s') = e"
proof -
  have "is_ok (summary_for compactor0 complete0 [] answered0 0 [])"
    by (simp add: summary_for_def summarize_def complete0_def part0_def is_blank_def space_len.simps)
  moreover have "mc_Model compactor0 \<noteq> zero_ModelRef" by code_simp
  ultimately show ?thesis
    using compaction_succeeds[OF reachable_samples(2) _ good_env0 answered0_fresh _ answered0_cover, of compactor0 complete0 "[]" "[]"]
      answered0_entries by blast
qed

lemma Compact_Some:
  assumes "Compact U env c complete hooks s before instructions = (s', Inr (Some e))"
  obtains v where "length (Cover s before) \<ge> 2" "e = new_entry env (Compaction v)" "Entries s' = Entries s @ [e]"
    "co_LastEntryID v = en_ID (last (Cover s before))"
proof -
  have len: "length (Cover s before) \<ge> 2" using assms by (auto simp: Compact_eq split: if_splits)
  with assms obtain v where "Session_Append U env s (Compaction v) = (s', Inr e)"
    "co_LastEntryID v = en_ID (last (Cover s before))"
    by (auto simp: Compact_eq split: sum.splits prod.splits)
  then show ?thesis by (intro that[OF len, of v]) (auto elim!: Session_Append_cases simp: Entries_def)
qed

text \<open>
  A second compaction within one turn covers nothing: once a compaction before the entry
  \<open>before\<close> succeeded, what is left to cover before that entry is empty, so compacting again with
  the same bound, after any further entries of the turn, returns without a summary.
\<close>

theorem second_compaction_noop:
  assumes "reachable U s" and "fresh env s" and "before \<noteq> 0" and "has_id (Entries s) before"
    and "Compact U env c complete hooks s before instructions = (s', Inr (Some e))"
    and "reachable U t" and "Entries t = Entries s' @ later" and "\<forall>x\<in>set later. en_Kind x \<noteq> KindCompaction"
  shows "Compact U env' c' complete' hooks' t before instructions' = (t, Inr None)"
proof -
  from assms(5) obtain v where v: "length (Cover s before) \<ge> 2" "e = new_entry env (Compaction v)"
    "Entries s' = Entries s @ [e]" "co_LastEntryID v = en_ID (last (Cover s before))" by (rule Compact_Some)
  have wf: "wf_entries (ulid_ParseStrict U) (Entries s)" and wft: "wf_entries (ulid_ParseStrict U) (Entries t)"
    using reachable_wf[OF assms(1)] reachable_wf[OF assms(6)] by (simp_all add: wf_session_def)
  have et: "Entries t = Entries s @ e # later" using assms(7) v(3) by simp
  from request_context_at[OF wft et _ assms(8), of v] v(2) obtain pre x mid where
    rc: "Entries s = pre @ x # mid" "en_ID x = co_LastEntryID v"
    "RequestContext t = e # filter (\<lambda>x. en_Kind x \<noteq> KindCompaction) (mid @ later)"
    by (auto simp: new_entry_def RequestContext_def)
  have be: "before < en_ID e" using assms(2,4) v(2) by (auto simp: fresh_def has_id_def new_entry_def)
  have lt: "before < en_ID y" if "y \<in> set later" for y
    using that be wft et by (auto simp: wf_entries_def sorted_wrt_append intro: less_trans)
  have "\<not> covered before y" if "y \<in> set mid" "en_Kind y \<noteq> KindCompaction" for y
  proof
    assume "covered before y"
    from cover_last_max[OF wf v(1) _ this that(2)] that(1) rc(1,2) v(4) wf show False
      by (auto simp: wf_entries_def sorted_wrt_append)
  qed
  with be lt assms(3) have "Cover t before = []"
    by (fastforce simp: Cover_eq rc(3) filter_empty_conv covered_def)
  then show ?thesis by (simp add: Compact_eq)
qed

theorem second_compaction_noop_witness:
  "\<exists>s' e. Compact ulid0 (env0 5) compactor0 complete0 [] answered0 4 [] = (s', Inr (Some e)) \<and>
     Compact ulid0 (env0 6) compactor0 complete0 [] s' 4 [] = (s', Inr None)"
proof -
  have ready: "log_ready answered0" by (simp add: answered0_entries)
  have m: "mc_Model compactor0 \<noteq> zero_ModelRef" by code_simp
  have l: "length (Cover answered0 4) \<ge> 2"
    unfolding Cover_def RequestContext_def answered0_entries[THEN conjunct1] by code_simp
  have "summary_for compactor0 complete0 [] answered0 4 [] = Inr (''so far'', zero_Usage)"
    by (simp add: summary_for_def summarize_def complete0_def part0_def is_blank_def space_len.simps)
  from Compact_appends[OF reachable_samples(2) ready good_env0[of 5] m l this] obtain s' v where
    c: "Compact ulid0 (env0 5) compactor0 complete0 [] answered0 4 [] = (s', Inr (Some (new_entry (env0 5) (Compaction v))))"
    by blast
  have "reachable ulid0 (fst (Compact ulid0 (env0 5) compactor0 complete0 [] answered0 4 []))"
    using reachable_samples(2) answered0_fresh
    by (auto simp: Compact_eq split: sum.splits prod.splits intro: reachable.append)
  then have r: "reachable ulid0 s'" by (simp add: c)
  have h: "has_id (Entries answered0) 4" by (simp add: answered0_entries has_id_def new_entry_def env0_def)
  have "Compact ulid0 (env0 6) compactor0 complete0 [] s' 4 [] = (s', Inr None)"
    by (rule second_compaction_noop[OF reachable_samples(2) answered0_fresh _ h c r, of "[]"]) simp_all
  with c show ?thesis by blast
qed

end
