(* ===== verification/Tool_Calls.thy ===== *)
theory Tool_Calls
  imports Request Gate "HOL-Library.AList"
begin

text \<open>
  The tool calls of one assistant message, \<open>internal/turn/inflight.go\<close> and the tool half of
  \<open>internal/turn/runner.go\<close>. The calls of a message run at once, each on its own goroutine, and
  share the session, the runner's fields under its mutex, and the set of running calls. A call is
  a small program whose points \<open>tool_pc\<close> lie between its atomic actions (each append to the
  session, each critical section); \<open>tool_step\<close> runs one of them. A schedule is a list of events:
  a step of one call, an interrupt, or an entry that another client of the session appends.
  What a step takes from outside (what the hooks, the asker and the tool answered, whether the
  caller's context is done, the outcome of the log's writes) is its \<open>tool_env\<close>.
\<close>

section \<open>Running calls\<close>

text \<open>
  \<open>inflight\<close>: the cancel function of a call is the number of the context it cancels, and the Go map
  of them is an association list with one pair per key. The operations return the set of contexts
  they cancelled.
\<close>

record inflight =
  fl_cancels :: "(bytes \<times> nat) list"
  fl_cancelled :: bool

definition newInflight :: inflight where
  "newInflight = \<lparr>fl_cancels = [], fl_cancelled = False\<rparr>"

definition inflight_add :: "inflight \<Rightarrow> bytes \<Rightarrow> nat \<Rightarrow> inflight \<times> nat set \<times> bool" where
  "inflight_add f i ctx =
     (if fl_cancelled f then (f, {ctx}, False)
      else (f\<lparr>fl_cancels := AList.update i ctx (fl_cancels f)\<rparr>, {}, True))"

definition inflight_remove :: "inflight \<Rightarrow> bytes \<Rightarrow> inflight" where
  "inflight_remove f i = f\<lparr>fl_cancels := AList.delete i (fl_cancels f)\<rparr>"

definition inflight_cancelAll :: "inflight \<Rightarrow> inflight \<times> nat set" where
  "inflight_cancelAll f = (f\<lparr>fl_cancelled := True\<rparr>, set (map snd (fl_cancels f)))"

definition inflight_reset :: "inflight \<Rightarrow> inflight" where
  "inflight_reset f = f\<lparr>fl_cancels := [], fl_cancelled := False\<rparr>"

definition inflight_len :: "inflight \<Rightarrow> nat" where
  "inflight_len f = length (fl_cancels f)"

section \<open>The runner's shared state\<close>

text \<open>
  \<open>rn_cancelled\<close> is the set of contexts whose cancel functions have been called; a cancel function
  is the number of its context, in \<open>rn_streamCancel\<close> as in the set of running calls.
\<close>

datatype State = Idle | Streaming | RunningTool | AwaitingPermission | Steering | Completed | Failed

record Runner =
  rn_session :: Session
  rn_system :: bytes
  rn_state :: State
  rn_turn :: ulid
  rn_interrupt :: Interrupt
  rn_turnUsage :: Usage
  rn_streamCancel :: "nat option"
  rn_calls :: inflight
  rn_cancelled :: "nat set"
  rn_overrides :: overrides

record Tool =
  tl_Safety :: Safety
  tl_Invoke :: bool

record Config =
  cf_lib :: ulid_lib
  cf_tool :: "bytes \<Rightarrow> Tool option"
  cf_shell :: shell_parser
  cf_quote :: "bytes \<Rightarrow> bytes"
  cf_gate :: Gate
  cf_asker :: bool
  cf_timeout :: bytes
  cf_errtext :: "go_error \<Rightarrow> bytes"

definition setState :: "State \<Rightarrow> Runner \<Rightarrow> Runner" where
  "setState s r = (if rn_state r = s then r else r\<lparr>rn_state := s\<rparr>)"

definition observeInterrupt :: "Runner \<Rightarrow> Interrupt" where
  "observeInterrupt r = rn_interrupt r"

definition clearInterrupt :: "Runner \<Rightarrow> Runner" where
  "clearInterrupt r = r\<lparr>rn_interrupt := []\<rparr>"

definition Runner_append :: "Config \<Rightarrow> call_env \<Rightarrow> Runner \<Rightarrow> payload \<Rightarrow> Runner \<times> (session_error, Entry) result" where
  "Runner_append cf env r p =
     (case Session_Append (cf_lib cf) env (rn_session r) p of (s, res) \<Rightarrow> (r\<lparr>rn_session := s\<rparr>, res))"

definition calls_add :: "bytes \<Rightarrow> nat \<Rightarrow> Runner \<Rightarrow> Runner" where
  "calls_add i ctx r =
     (case inflight_add (rn_calls r) i ctx of
        (f, cs, _) \<Rightarrow> r\<lparr>rn_calls := f, rn_cancelled := rn_cancelled r \<union> cs\<rparr>)"

definition calls_remove :: "bytes \<Rightarrow> Runner \<Rightarrow> Runner" where
  "calls_remove i r = r\<lparr>rn_calls := inflight_remove (rn_calls r) i\<rparr>"

section \<open>Decisions and results\<close>

text \<open>What a finished call asks the turn to do; the empty interrupt and no errors is nothing.\<close>

record toolOutcome =
  to_interrupt :: Interrupt
  to_ctxErr :: bool
  to_class :: ErrorClass
  to_err :: "go_error option"

definition no_outcome :: toolOutcome where
  "no_outcome = \<lparr>to_interrupt = [], to_ctxErr = False, to_class = [], to_err = None\<rparr>"

definition failed_outcome :: "ErrorClass \<Rightarrow> go_error \<Rightarrow> toolOutcome" where
  "failed_outcome c e = no_outcome\<lparr>to_class := c, to_err := Some e\<rparr>"

definition classDeny :: "Runner \<Rightarrow> Block \<Rightarrow> bytes \<Rightarrow> PermissionDecision" where
  "classDeny r tu reason =
     \<lparr>pd_ToolUseID = bl_ID tu, pd_Tool = bl_Name tu, pd_Mode = Session_Mode (rn_session r),
      pd_Matcher = \<lparr>ma_Tool = bl_Name tu, ma_Prefix = []\<rparr>, pd_Decision = Deny, pd_DecidedBy = ByClass,
      pd_Scope = ScopeOnce, pd_Reason = reason, pd_Input = []\<rparr>"

definition interruptedDeny :: "PermissionDecision \<Rightarrow> PermissionDecision" where
  "interruptedDeny dec =
     dec\<lparr>pd_Decision := Deny, pd_DecidedBy := ByAsker, pd_Scope := ScopeOnce, pd_Reason := ''interrupted''\<rparr>"

definition interruptedText :: bytes where
  "interruptedText = ''interrupted while awaiting permission''"

text \<open>\<open>askHooks\<close>: the handlers' results in order, \<open>None\<close> for one of another type.\<close>

record BeforeToolResult =
  bt_Decision :: bytes
  bt_Input :: bytes
  bt_Reason :: bytes

definition DecisionAllow :: bytes where [enum_defs]: "DecisionAllow = ''allow''"
definition DecisionDeny :: bytes where [enum_defs]: "DecisionDeny = ''deny''"
definition DecisionModify :: bytes where [enum_defs]: "DecisionModify = ''modify''"

record hookVerdict =
  hv_decision :: Decision
  hv_reason :: bytes

fun askHooks :: "bytes \<Rightarrow> bool \<Rightarrow> BeforeToolResult option list \<Rightarrow> bytes \<times> bool \<times> hookVerdict option" where
  "askHooks input modified [] = (input, modified, None)"
| "askHooks input modified (None # rs) = askHooks input modified rs"
| "askHooks input modified (Some bt # rs) =
     (let reason = (if bt_Reason bt = [] then ''hook'' else bt_Reason bt) in
      if bt_Decision bt = DecisionModify then
        (if json_valid (bt_Input bt) then askHooks (bt_Input bt) True rs else askHooks input modified rs)
      else if bt_Decision bt = DecisionAllow then (input, modified, Some \<lparr>hv_decision = Allow, hv_reason = reason\<rparr>)
      else if bt_Decision bt = DecisionDeny then (input, modified, Some \<lparr>hv_decision = Deny, hv_reason = reason\<rparr>)
      else askHooks input modified rs)"

text \<open>The decision \<open>runTool\<close> starts from, and whether it still has to be asked about.\<close>

definition first_decision ::
  "Config \<Rightarrow> Runner \<Rightarrow> Block \<Rightarrow> Tool \<Rightarrow> BeforeToolResult option list \<Rightarrow> PermissionDecision \<times> bytes \<times> bool" where
  "first_decision cf r tu t hooks =
     (case askHooks (bl_Input tu) False hooks of
        (input, modified, hookDec) \<Rightarrow>
          (let mode = Session_Mode (rn_session r);
               rec = (case hookDec of
                   Some h \<Rightarrow>
                     (\<lparr>pd_ToolUseID = bl_ID tu, pd_Tool = bl_Name tu, pd_Mode = mode,
                       pd_Matcher = MatcherFor (cf_shell cf) (bl_Name tu) input, pd_Decision = hv_decision h,
                       pd_DecidedBy = ByHook, pd_Scope = ScopeOnce, pd_Reason = hv_reason h, pd_Input = []\<rparr>, False)
                 | None \<Rightarrow>
                     (let v = Evaluate (cf_quote cf) (cf_shell cf) (cf_gate cf)
                          \<lparr>in_Tool = bl_Name tu, in_Safety = tl_Safety t, in_Mode = mode, in_Args = input,
                           in_Allowances = Session_Allowances (rn_session r), in_AskerPresent = cf_asker cf\<rparr> in
                      (\<lparr>pd_ToolUseID = bl_ID tu, pd_Tool = bl_Name tu, pd_Mode = mode,
                        pd_Matcher = vd_Matcher v, pd_Decision = vd_Decision v, pd_DecidedBy = vd_DecidedBy v,
                        pd_Scope = ScopeOnce, pd_Reason = vd_Reason v, pd_Input = []\<rparr>, vd_Ask v))) in
           ((fst rec)\<lparr>pd_Input := (if modified then input else [])\<rparr>, input, snd rec)))"

record Answer =
  an_Decision :: Decision
  an_Scope :: Scope
  an_Reason :: bytes

datatype ask_result = Answered Answer | NoAsker | AskFailed bytes

definition answered :: "PermissionDecision \<Rightarrow> ask_result \<Rightarrow> PermissionDecision" where
  "answered dec a =
     (case a of
        NoAsker \<Rightarrow> dec\<lparr>pd_Decision := Deny, pd_DecidedBy := ByNoAsker, pd_Reason := ''no asker attached''\<rparr>
      | AskFailed t \<Rightarrow> dec\<lparr>pd_Decision := Deny, pd_DecidedBy := ByNoAsker, pd_Reason := ''asker failed: '' @ t\<rparr>
      | Answered ans \<Rightarrow>
          dec\<lparr>pd_Decision := an_Decision ans, pd_DecidedBy := ByAsker,
              pd_Reason := (if an_Reason ans = [] then ''asker'' else an_Reason ans),
              pd_Scope := (if an_Decision ans = Allow \<and> an_Scope ans = ScopeSession then ScopeSession else pd_Scope dec)\<rparr>)"

text \<open>What the tool did: panicked, or returned content, an error flag, an error and whether its deadline passed.\<close>

record tool_return =
  rt_Content :: "Block list"
  rt_IsError :: bool
  rt_err :: "bytes option"
  rt_timedOut :: bool

datatype invoke_result = Panicked bytes | Returned tool_return

definition text_result :: "bytes \<Rightarrow> Outcome \<Rightarrow> bytes \<Rightarrow> ToolResult" where
  "text_result i outc t = \<lparr>tr_ToolUseID = i, tr_Outcome = outc, tr_Content = [TextBlock t], tr_DurationMS = 0\<rparr>"

definition killed_result :: "bytes \<Rightarrow> tool_return \<Rightarrow> int \<Rightarrow> ToolResult" where
  "killed_result i rt dur =
     \<lparr>tr_ToolUseID = i, tr_Outcome = OutcomeKilled,
      tr_Content = (if rt_Content rt = [] then [TextBlock ''killed''] else rt_Content rt), tr_DurationMS = dur\<rparr>"

definition run_result :: "Config \<Rightarrow> bytes \<Rightarrow> tool_return \<Rightarrow> int \<Rightarrow> ToolResult" where
  "run_result cf i rt dur =
     (case (if rt_timedOut rt
            then (OutcomeError, [TextBlock (TextOf (rt_Content rt) @ [c_nl] @ ''[timed out after '' @ cf_timeout cf @ '']'')])
            else case rt_err rt of
              Some e \<Rightarrow> (OutcomeError, [TextBlock e])
            | None \<Rightarrow> (if rt_IsError rt then OutcomeError else OutcomeOK, rt_Content rt)) of
        (outc, content) \<Rightarrow>
          \<lparr>tr_ToolUseID = i, tr_Outcome = outc, tr_Content = content, tr_DurationMS = dur\<rparr>)"

section \<open>One call\<close>

datatype tool_pc =
    TStart
  | TAsk nat Tool PermissionDecision bytes
  | TDecide Tool PermissionDecision bytes
  | TRefuse PermissionDecision Outcome bytes toolOutcome
  | TRun nat bytes
  | TResult ToolResult toolOutcome
  | TAfter bytes toolOutcome
  | TDone toolOutcome

record tool_env =
  te_call :: call_env
  te_ctx :: nat
  te_ctxDone :: bool
  te_hooks :: "BeforeToolResult option list"
  te_answer :: ask_result
  te_result :: invoke_result
  te_dur :: int
  te_after :: "Block list option list"

text \<open>The first handler of \<open>after_tool\<close> with content.\<close>

fun after_override :: "Block list option list \<Rightarrow> Block list option" where
  "after_override [] = None"
| "after_override (Some (b # bs) # rs) = Some (b # bs)"
| "after_override (_ # rs) = after_override rs"

fun tool_step :: "Config \<Rightarrow> tool_env \<Rightarrow> Block \<Rightarrow> Runner \<Rightarrow> tool_pc \<Rightarrow> Runner \<times> tool_pc" where
  "tool_step cf te tu r TStart =
     (case cf_tool cf (bl_Name tu) of
        None \<Rightarrow> (r, TRefuse (classDeny r tu ''unknown tool'') OutcomeError (''unknown tool '' @ bl_Name tu) no_outcome)
      | Some t \<Rightarrow>
          (case first_decision cf r tu t (te_hooks te) of
             (dec, input, ask) \<Rightarrow>
               if ask
               then (calls_add (bl_ID tu) (te_ctx te) (setState AwaitingPermission r), TAsk (te_ctx te) t dec input)
               else (r, TDecide t dec input)))"
| "tool_step cf te tu r (TAsk ctx t dec input) =
     (let r1 = calls_remove (bl_ID tu) r; how = observeInterrupt r1 in
      if how \<noteq> []
      then (r1, TRefuse (interruptedDeny dec) OutcomeKilled interruptedText (no_outcome\<lparr>to_interrupt := how\<rparr>))
      else if te_ctxDone te
      then (r1, TRefuse (interruptedDeny dec) OutcomeKilled interruptedText (no_outcome\<lparr>to_ctxErr := True\<rparr>))
      else (r1, TDecide t (answered dec (te_answer te)) input))"
| "tool_step cf te tu r (TDecide t dec input) =
     (case Runner_append cf (te_call te) r (PermissionDecision dec) of
        (r1, Inl e) \<Rightarrow> (r1, TDone (failed_outcome ErrInternal (SessionErr e)))
      | (r1, Inr _) \<Rightarrow>
          if pd_Decision dec = Deny
          then (r1, TResult (text_result (bl_ID tu) OutcomeError (''denied: '' @ pd_Reason dec)) no_outcome)
          else
            (let r2 = setState RunningTool r1 in
             if \<not> tl_Invoke t
             then (r2, TDone (failed_outcome ErrPlugin (OtherErr (''tool '' @ bl_Name tu @ '' has no Invoke''))))
             else (calls_add (bl_ID tu) (te_ctx te) r2, TRun (te_ctx te) input)))"
| "tool_step cf te tu r (TRefuse dec outc t o') =
     (case Runner_append cf (te_call te) r (PermissionDecision dec) of
        (r1, Inl e) \<Rightarrow> (r1, TDone (failed_outcome ErrInternal (SessionErr e)))
      | (r1, Inr _) \<Rightarrow> (r1, TResult (text_result (pd_ToolUseID dec) outc t) o'))"
| "tool_step cf te tu r (TRun ctx input) =
     (let r1 = calls_remove (bl_ID tu) r in
      case te_result te of
        Panicked t \<Rightarrow> (r1, TDone (failed_outcome ErrPlugin (OtherErr (''tool '' @ bl_Name tu @ '' panicked: '' @ t))))
      | Returned rt \<Rightarrow>
          if observeInterrupt r1 \<noteq> []
          then (r1, TResult (killed_result (bl_ID tu) rt (te_dur te)) (no_outcome\<lparr>to_interrupt := observeInterrupt r1\<rparr>))
          else if te_ctxDone te
          then (r1, TResult (killed_result (bl_ID tu) rt (te_dur te)) (no_outcome\<lparr>to_ctxErr := True\<rparr>))
          else (r1, TResult (run_result cf (bl_ID tu) rt (te_dur te)) no_outcome))"
| "tool_step cf te tu r (TResult tr o') =
     (case Runner_append cf (te_call te) r (ToolResult tr) of
        (r1, Inl e) \<Rightarrow> (r1, TDone (failed_outcome ErrInternal (SessionErr e)))
      | (r1, Inr _) \<Rightarrow> (r1, TAfter (tr_ToolUseID tr) o'))"
| "tool_step cf te tu r (TAfter i o') =
     (case after_override (te_after te) of
        None \<Rightarrow> (r, TDone o')
      | Some content \<Rightarrow> (r\<lparr>rn_overrides := (rn_overrides r)(i \<mapsto> content)\<rparr>, TDone o'))"
| "tool_step cf te tu r (TDone o') = (r, TDone o')"

section \<open>The calls of a message\<close>

record fan =
  fn_runner :: Runner
  fn_calls :: "(Block \<times> tool_pc) list"

text \<open>\<open>Interrupt\<close> while a turn is active: the branch after the resting states.\<close>

definition interrupt_active :: "Interrupt \<Rightarrow> Runner \<Rightarrow> Runner" where
  "interrupt_active how r =
     (case inflight_cancelAll (rn_calls r) of
        (f, cs) \<Rightarrow>
          r\<lparr>rn_interrupt := (if rn_interrupt r \<noteq> InterruptCancel then how else rn_interrupt r),
            rn_calls := f, rn_cancelled := rn_cancelled r \<union> set_option (rn_streamCancel r) \<union> cs\<rparr>)"

datatype fan_event = CallStep nat tool_env | Interrupted Interrupt | Appended call_env payload

definition fan_step :: "Config \<Rightarrow> fan \<Rightarrow> fan_event \<Rightarrow> fan" where
  "fan_step cf w ev =
     (case ev of
        CallStep i te \<Rightarrow>
          if i < length (fn_calls w) then
            (case fn_calls w ! i of
               (tu, pc) \<Rightarrow>
                 (case tool_step cf te tu (fn_runner w) pc of
                    (r, pc') \<Rightarrow> w\<lparr>fn_runner := r, fn_calls := (fn_calls w)[i := (tu, pc')]\<rparr>))
          else w
      | Interrupted how \<Rightarrow> w\<lparr>fn_runner := interrupt_active how (fn_runner w)\<rparr>
      | Appended env p \<Rightarrow> w\<lparr>fn_runner := fst (Runner_append cf env (fn_runner w) p)\<rparr>)"

definition start_calls :: "Runner \<Rightarrow> Block list \<Rightarrow> fan" where
  "start_calls r tus = \<lparr>fn_runner = r, fn_calls = map (\<lambda>tu. (tu, TStart)) tus\<rparr>"

definition run_calls :: "Config \<Rightarrow> Runner \<Rightarrow> Block list \<Rightarrow> fan_event list \<Rightarrow> fan" where
  "run_calls cf r tus evs = run_ops (fan_step cf) (start_calls r tus) evs"

end
