(* ===== verification/Tool_Calls_Inv.thy ===== *)
theory Tool_Calls_Inv
  imports Tool_Calls
begin

text \<open>
  Every schedule of the tool calls of a message keeps the rules of the log and leaves each call
  with one decision and one result. The invariant \<open>call_inv\<close> says, for each point of a call, what
  the log already holds for its tool use; a step of one call keeps its own and, because the ids
  differ, everybody else's. \<open>call_good\<close> adds what makes the appends succeed when the log takes
  writes and the hooks, the asker and the tools answer sensibly.
\<close>

section \<open>What a step appends\<close>

lemma Session_Append_entries:
  assumes "Session_Append U env s p = (s', r)"
  shows "case r of Inl _ \<Rightarrow> Entries s' = Entries s | Inr e \<Rightarrow> Entries s' = Entries s @ [new_entry env p]"
  using assms by (auto elim!: Session_Append_cases simp: Entries_def)

lemma Runner_append_cases:
  assumes "Runner_append cf env r p = (r', res)"
  obtains (refused) e where "res = Inl e" "Entries (rn_session r') = Entries (rn_session r)"
      "r' = r\<lparr>rn_session := rn_session r'\<rparr>"
  | (appended) e where "res = Inr e" "Entries (rn_session r') = Entries (rn_session r) @ [new_entry env p]"
      "r' = r\<lparr>rn_session := rn_session r'\<rparr>"
  using assms Session_Append_entries[of "cf_lib cf" env "rn_session r" p]
  by (cases res) (auto simp: Runner_append_def split: prod.splits)

lemma Runner_append_session:
  "Runner_append cf env r p = (r', res) \<Longrightarrow> Session_Append (cf_lib cf) env (rn_session r) p = (rn_session r', res)"
  by (auto simp: Runner_append_def split: prod.splits)

lemma runner_session_simps [simp]:
  "rn_session (calls_add i c r) = rn_session r" "rn_session (calls_remove i r) = rn_session r"
  "rn_session (setState st r) = rn_session r" "rn_session (interrupt_active how r) = rn_session r"
  "rn_interrupt (calls_remove i r) = rn_interrupt r"
  by (simp_all add: calls_add_def calls_remove_def setState_def interrupt_active_def split: prod.splits)

text \<open>A payload that answers the tool use \<open>i\<close>, and one that answers none.\<close>

definition answers :: "bytes \<Rightarrow> payload \<Rightarrow> bool" where
  "answers i p \<longleftrightarrow>
     (case p of PermissionDecision d \<Rightarrow> pd_ToolUseID d = i | ToolResult t \<Rightarrow> tr_ToolUseID t = i | _ \<Rightarrow> False)"

definition answers_none :: "payload \<Rightarrow> bool" where
  "answers_none p \<longleftrightarrow> (\<forall>i. \<not> answers i p)"

lemma answered_ids_snoc:
  "\<not> answers i p \<Longrightarrow>
    (i \<in> result_ids (es @ [new_entry env p]) \<longleftrightarrow> i \<in> result_ids es) \<and>
    (i \<in> decided_ids (es @ [new_entry env p]) \<longleftrightarrow> i \<in> decided_ids es)"
  by (cases p) (auto simp: answers_def new_entry_def)

section \<open>The invariant of a call\<close>

definition open_use :: "Entry list \<Rightarrow> bytes \<Rightarrow> bool" where
  "open_use es i \<longleftrightarrow> i \<in> bl_ID ` set (tool_uses es) \<and> i \<notin> result_ids es \<and> i \<notin> decided_ids es"

definition decided_use :: "Entry list \<Rightarrow> bytes \<Rightarrow> bool" where
  "decided_use es i \<longleftrightarrow> i \<in> bl_ID ` set (tool_uses es) \<and> i \<notin> result_ids es \<and> i \<in> decided_ids es"

definition not_denied :: "Entry list \<Rightarrow> bytes \<Rightarrow> bool" where
  "not_denied es i \<longleftrightarrow>
     (\<exists>e\<in>set es. \<exists>d. en_Payload e = PermissionDecision d \<and> pd_ToolUseID d = i \<and> pd_Decision d \<noteq> Deny)"

definition call_inv :: "Entry list \<Rightarrow> Block \<Rightarrow> tool_pc \<Rightarrow> bool" where
  "call_inv es tu pc \<longleftrightarrow>
     (case pc of
        TStart \<Rightarrow> open_use es (bl_ID tu)
      | TAsk _ _ d _ \<Rightarrow> open_use es (bl_ID tu) \<and> pd_ToolUseID d = bl_ID tu
      | TDecide _ d _ \<Rightarrow> open_use es (bl_ID tu) \<and> pd_ToolUseID d = bl_ID tu
      | TRefuse d _ _ _ \<Rightarrow> open_use es (bl_ID tu) \<and> pd_ToolUseID d = bl_ID tu
      | TRun _ _ \<Rightarrow> decided_use es (bl_ID tu) \<and> not_denied es (bl_ID tu)
      | TResult tr _ \<Rightarrow> decided_use es (bl_ID tu) \<and> tr_ToolUseID tr = bl_ID tu
      | TAfter _ _ \<Rightarrow> bl_ID tu \<in> result_ids es
      | TDone o' \<Rightarrow> to_err o' = None \<longrightarrow> bl_ID tu \<in> result_ids es)"

lemma call_inv_frame:
  assumes "call_inv es tu pc" and "\<not> answers (bl_ID tu) p"
  shows "call_inv (es @ [new_entry env p]) tu pc"
proof -
  have "not_denied es i \<Longrightarrow> not_denied (es @ [new_entry env p]) i" for i by (auto simp: not_denied_def)
  moreover have "open_use es (bl_ID tu) \<Longrightarrow> open_use (es @ [new_entry env p]) (bl_ID tu)"
    "decided_use es (bl_ID tu) \<Longrightarrow> decided_use (es @ [new_entry env p]) (bl_ID tu)"
    using answered_ids_snoc[OF assms(2), of es env] unfolding open_use_def decided_use_def by auto
  ultimately show ?thesis
    using assms(1) answered_ids_snoc[OF assms(2), of es env]
    by (auto simp: call_inv_def simp del: result_ids_simps split: tool_pc.splits)
qed

lemma first_decision_id:
  "first_decision cf r tu t hooks = (d, input, ask) \<Longrightarrow> pd_ToolUseID d = bl_ID tu \<and> pd_Tool d = bl_Name tu"
  by (auto simp: first_decision_def Let_def split: prod.splits option.splits)

lemma answered_id: "pd_ToolUseID (answered d a) = pd_ToolUseID d" "pd_ToolUseID (interruptedDeny d) = pd_ToolUseID d"
  by (auto simp: answered_def interruptedDeny_def split: ask_result.splits)

lemma decided_after:
  assumes "open_use es i" and "pd_ToolUseID d = i"
  shows "decided_use (es @ [new_entry env (PermissionDecision d)]) i"
    and "pd_Decision d \<noteq> Deny \<Longrightarrow> not_denied (es @ [new_entry env (PermissionDecision d)]) i"
  using assms by (auto simp: open_use_def decided_use_def not_denied_def new_entry_def)

lemma result_after: "i \<in> result_ids (es @ [new_entry env (ToolResult tr)]) \<longleftrightarrow> i \<in> result_ids es \<or> i = tr_ToolUseID tr"
  by (auto simp: new_entry_def)

lemma failed_outcome_err [simp]: "to_err (failed_outcome c e) = Some e" "to_err no_outcome = None"
  by (simp_all add: failed_outcome_def no_outcome_def)

text \<open>What the step at a point appends: nothing, or one answer to its own tool use.\<close>

definition step_payload :: "tool_pc \<Rightarrow> payload option" where
  "step_payload pc =
     (case pc of
        TDecide _ d _ \<Rightarrow> Some (PermissionDecision d)
      | TRefuse d _ _ _ \<Rightarrow> Some (PermissionDecision d)
      | TResult tr _ \<Rightarrow> Some (ToolResult tr)
      | _ \<Rightarrow> None)"

lemma tool_step_session:
  assumes "tool_step cf te tu r pc = (r', pc')"
  shows "rn_session r' =
    (case step_payload pc of None \<Rightarrow> rn_session r
     | Some p \<Rightarrow> fst (Session_Append (cf_lib cf) (te_call te) (rn_session r) p))"
  using assms
  by (cases pc)
    (auto simp: step_payload_def Runner_append_def Let_def
      split: option.splits prod.splits if_splits sum.splits invoke_result.splits)

lemma step_payload_answers: "call_inv es tu pc \<Longrightarrow> step_payload pc = Some p \<Longrightarrow> answers (bl_ID tu) p"
  by (cases pc) (auto simp: step_payload_def call_inv_def answers_def)

lemma tool_step_entries:
  assumes "tool_step cf te tu r pc = (r', pc')" and "call_inv (Entries (rn_session r)) tu pc"
  obtains "Entries (rn_session r') = Entries (rn_session r)"
  | p where "answers (bl_ID tu) p" "Entries (rn_session r') = Entries (rn_session r) @ [new_entry (te_call te) p]"
proof (cases "step_payload pc")
  case None
  with that(1) tool_step_session[OF assms(1)] show ?thesis by simp
next
  case (Some p)
  obtain s res where ap: "Session_Append (cf_lib cf) (te_call te) (rn_session r) p = (s, res)" by (metis prod.collapse)
  with Some tool_step_session[OF assms(1)] have s: "rn_session r' = s" by simp
  show ?thesis
  proof (cases res)
    case (Inl e)
    with that(1) Session_Append_entries[OF ap] s show ?thesis by simp
  next
    case (Inr e)
    with that(2)[OF step_payload_answers[OF assms(2) Some]] Session_Append_entries[OF ap] s show ?thesis by simp
  qed
qed

lemma tool_step_frame:
  assumes "tool_step cf te tu r pc = (r', pc')" and "call_inv (Entries (rn_session r)) tu pc"
    and "call_inv (Entries (rn_session r)) tu2 pc2" and "bl_ID tu2 \<noteq> bl_ID tu"
  shows "call_inv (Entries (rn_session r')) tu2 pc2"
proof (rule tool_step_entries[OF assms(1,2)])
  assume "Entries (rn_session r') = Entries (rn_session r)"
  with assms(3) show ?thesis by simp
next
  fix p
  assume p: "answers (bl_ID tu) p" "Entries (rn_session r') = Entries (rn_session r) @ [new_entry (te_call te) p]"
  then have "\<not> answers (bl_ID tu2) p" using assms(4) by (auto simp: answers_def split: payload.splits)
  from call_inv_frame[OF assms(3) this, of "te_call te"] p(2) show ?thesis by simp
qed

text \<open>A step keeps the invariant of its own call.\<close>

lemma tool_step_inv:
  assumes "tool_step cf te tu r pc = (r', pc')" and inv: "call_inv (Entries (rn_session r)) tu pc"
  shows "call_inv (Entries (rn_session r')) tu pc'"
proof (cases pc)
  case TStart
  with assms show ?thesis
    by (auto simp: call_inv_def classDeny_def dest: first_decision_id split: option.splits prod.splits if_splits)
next
  case (TAsk ctx t d i)
  with assms show ?thesis by (auto simp: call_inv_def Let_def answered_id split: if_splits)
next
  case (TDecide t d i)
  obtain r1 res where ap: "Runner_append cf (te_call te) r (PermissionDecision d) = (r1, res)" by (metis prod.collapse)
  from ap show ?thesis
  proof (cases rule: Runner_append_cases)
    case (refused e)
    with assms(1) TDecide ap show ?thesis by (auto simp: call_inv_def)
  next
    case (appended e)
    from inv TDecide have o: "open_use (Entries (rn_session r)) (bl_ID tu)" "pd_ToolUseID d = bl_ID tu"
      by (auto simp: call_inv_def)
    from decided_after[OF o, of "te_call te"] appended assms(1) TDecide ap show ?thesis
      by (auto simp: call_inv_def Let_def text_result_def split: if_splits option.splits)
  qed
next
  case (TRefuse d oc t o')
  obtain r1 res where ap: "Runner_append cf (te_call te) r (PermissionDecision d) = (r1, res)" by (metis prod.collapse)
  from ap show ?thesis
  proof (cases rule: Runner_append_cases)
    case (refused e)
    with assms(1) TRefuse ap show ?thesis by (auto simp: call_inv_def)
  next
    case (appended e)
    from inv TRefuse have o: "open_use (Entries (rn_session r)) (bl_ID tu)" "pd_ToolUseID d = bl_ID tu"
      by (auto simp: call_inv_def)
    from decided_after(1)[OF o, of "te_call te"] o appended assms(1) TRefuse ap show ?thesis
      by (auto simp: call_inv_def text_result_def)
  qed
next
  case (TRun ctx i)
  with assms show ?thesis
    by (auto simp: call_inv_def Let_def killed_result_def run_result_def split: if_splits invoke_result.splits prod.splits)
next
  case (TResult tr o')
  obtain r1 res where ap: "Runner_append cf (te_call te) r (ToolResult tr) = (r1, res)" by (metis prod.collapse)
  from ap show ?thesis
  proof (cases rule: Runner_append_cases)
    case (refused e)
    with assms(1) TResult ap show ?thesis by (auto simp: call_inv_def)
  next
    case (appended e)
    with assms TResult ap show ?thesis
      by (auto simp: call_inv_def result_after simp del: result_ids_simps)
  qed
next
  case (TAfter i o')
  with assms show ?thesis by (auto simp: call_inv_def split: option.splits)
next
  case (TDone o')
  with assms show ?thesis by simp
qed

section \<open>Schedules\<close>

text \<open>
  What is assumed of an event: fresh ids, and that another client of the session does not answer
  the tool uses of this turn.
\<close>

definition fan_event_ok :: "fan \<Rightarrow> fan_event \<Rightarrow> bool" where
  "fan_event_ok w ev \<longleftrightarrow>
     (case ev of
        CallStep _ te \<Rightarrow> fresh (te_call te) (rn_session (fn_runner w))
      | Interrupted _ \<Rightarrow> True
      | Appended env p \<Rightarrow> fresh env (rn_session (fn_runner w)) \<and> answers_none p)"

definition fan_inv :: "ulid_lib \<Rightarrow> fan \<Rightarrow> bool" where
  "fan_inv U w \<longleftrightarrow>
     reachable U (rn_session (fn_runner w)) \<and> distinct (map (bl_ID \<circ> fst) (fn_calls w)) \<and>
     (\<forall>(tu, pc)\<in>set (fn_calls w). call_inv (Entries (rn_session (fn_runner w))) tu pc)"

lemma fan_step_call:
  assumes "fan_inv (cf_lib cf) w" and "fresh (te_call te) (rn_session (fn_runner w))"
  shows "fan_inv (cf_lib cf) (fan_step cf w (CallStep i te))"
proof (cases "i < length (fn_calls w)")
  case False
  with assms show ?thesis by (simp add: fan_step_def)
next
  case True
  obtain tu pc where c: "fn_calls w ! i = (tu, pc)" by (metis prod.collapse)
  obtain r' pc' where st: "tool_step cf te tu (fn_runner w) pc = (r', pc')" by (metis prod.collapse)
  have w': "fan_step cf w (CallStep i te) = w\<lparr>fn_runner := r', fn_calls := (fn_calls w)[i := (tu, pc')]\<rparr>"
    using True c st by (simp add: fan_step_def)
  have mem: "(tu, pc) \<in> set (fn_calls w)" using True c by (metis nth_mem)
  with assms(1) have inv: "call_inv (Entries (rn_session (fn_runner w))) tu pc" by (auto simp: fan_inv_def)
  have "reachable (cf_lib cf) (rn_session r')"
    using tool_step_session[OF st] assms
    by (cases "step_payload pc") (auto simp: fan_inv_def intro: reachable.append[OF _ assms(2) prod.collapse[symmetric]])
  moreover have "map (bl_ID \<circ> fst) ((fn_calls w)[i := (tu, pc')]) = map (bl_ID \<circ> fst) (fn_calls w)"
    using True c by (simp add: map_update list_update_same_conv)
  moreover have "call_inv (Entries (rn_session r')) tu2 pc2" if "(tu2, pc2) \<in> set ((fn_calls w)[i := (tu, pc')])" for tu2 pc2
  proof -
    from that obtain j where j: "j < length (fn_calls w)" "(fn_calls w)[i := (tu, pc')] ! j = (tu2, pc2)"
      by (auto simp: in_set_conv_nth)
    show ?thesis
    proof (cases "j = i")
      case True
      with j tool_step_inv[OF st inv] show ?thesis by simp
    next
      case False
      with j have "fn_calls w ! j = (tu2, pc2)" by simp
      moreover from this j(1) have "(tu2, pc2) \<in> set (fn_calls w)" by (metis nth_mem)
      moreover have "bl_ID (fst (fn_calls w ! j)) \<noteq> bl_ID (fst (fn_calls w ! i))"
        using assms(1) False j(1) True by (simp add: fan_inv_def distinct_conv_nth)
      with c calculation(1) have "bl_ID tu2 \<noteq> bl_ID tu" by simp
      ultimately show ?thesis using tool_step_frame[OF st inv] assms(1) by (auto simp: fan_inv_def)
    qed
  qed
  ultimately show ?thesis using assms(1) by (auto simp: fan_inv_def w')
qed

lemma fan_step_inv:
  assumes "fan_inv (cf_lib cf) w" and "fan_event_ok w ev"
  shows "fan_inv (cf_lib cf) (fan_step cf w ev)"
proof (cases ev)
  case (CallStep i te)
  with assms fan_step_call show ?thesis by (simp add: fan_event_ok_def)
next
  case (Interrupted how)
  with assms show ?thesis by (simp add: fan_step_def fan_inv_def)
next
  case (Appended env p)
  let ?s = "rn_session (fn_runner w)"
  obtain s' res where ap: "Session_Append (cf_lib cf) env ?s p = (s', res)" by (metis prod.collapse)
  have ok: "fresh env ?s" "answers_none p" using assms(2) Appended by (simp_all add: fan_event_ok_def)
  have "call_inv (Entries s') tu pc" if "(tu, pc) \<in> set (fn_calls w)" for tu pc
    using that assms(1) call_inv_frame[of "Entries ?s" tu pc p env] ok(2) Session_Append_entries[OF ap]
    by (cases res) (auto simp: fan_inv_def answers_none_def)
  moreover have "reachable (cf_lib cf) s'" using reachable.append[OF _ ok(1) ap] assms(1) by (simp add: fan_inv_def)
  ultimately show ?thesis using assms(1) ap by (auto simp: Appended fan_step_def fan_inv_def Runner_append_def)
qed

interpretation calls: guarded_machine "fan_step cf" fan_event_ok "fan_inv (cf_lib cf)" for cf
  by unfold_locales (rule fan_step_inv)

fun schedule_ok :: "Config \<Rightarrow> fan \<Rightarrow> fan_event list \<Rightarrow> bool" where
  "schedule_ok cf w [] = True"
| "schedule_ok cf w (ev # evs) = (fan_event_ok w ev \<and> schedule_ok cf (fan_step cf w ev) evs)"

lemma schedule_admitted: "schedule_ok cf w evs \<Longrightarrow> calls.admitted cf w evs"
  by (induction evs arbitrary: w) auto

definition pending_calls :: "Session \<Rightarrow> Block list \<Rightarrow> bool" where
  "pending_calls s tus \<longleftrightarrow> distinct (map bl_ID tus) \<and> (\<forall>tu\<in>set tus. open_use (Entries s) (bl_ID tu))"

lemma start_calls_inv:
  "reachable U (rn_session r) \<Longrightarrow> pending_calls (rn_session r) tus \<Longrightarrow> fan_inv U (start_calls r tus)"
  by (auto simp: fan_inv_def start_calls_def pending_calls_def call_inv_def comp_def)

lemma run_calls_inv:
  assumes "reachable (cf_lib cf) (rn_session r)" and "pending_calls (rn_session r) tus"
    and "schedule_ok cf (start_calls r tus) evs"
  shows "fan_inv (cf_lib cf) (run_calls cf r tus evs)"
  unfolding run_calls_def by (rule calls.run_inv[OF start_calls_inv[OF assms(1,2)] schedule_admitted[OF assms(3)]])

section \<open>When the appends succeed\<close>

text \<open>
  What the outside has to answer for no call to fail: the log takes writes, the asker answers
  allow or deny, and the tool neither panics nor returns content the log refuses.
\<close>

definition result_blocks_ok :: "Block list \<Rightarrow> bool" where
  "result_blocks_ok bs \<longleftrightarrow> validate_blocks KindToolResult [BlockText, BlockImage] bs = None"

definition sensible :: "tool_env \<Rightarrow> bool" where
  "sensible te \<longleftrightarrow>
     good_env (te_call te) \<and>
     (case te_answer te of Answered a \<Rightarrow> Decision_Valid (an_Decision a) | _ \<Rightarrow> True) \<and>
     (case te_result te of Panicked _ \<Rightarrow> False
      | Returned rt \<Rightarrow> result_blocks_ok (rt_Content rt) \<and> rt_err rt \<noteq> Some [])"

definition ask_ready :: "PermissionDecision \<Rightarrow> bool" where
  "ask_ready d \<longleftrightarrow> pd_ToolUseID d \<noteq> [] \<and> pd_Tool d \<noteq> [] \<and> Mode_Valid (pd_Mode d) \<and> Scope_Valid (pd_Scope d) \<and>
     (pd_Input d = [] \<or> json_valid (pd_Input d))"

definition decision_ready :: "PermissionDecision \<Rightarrow> bool" where
  "decision_ready d \<longleftrightarrow> ask_ready d \<and> Decision_Valid (pd_Decision d) \<and> DecidedBy_Valid (pd_DecidedBy d) \<and> pd_Reason d \<noteq> []"

lemma decision_ready_valid: "decision_ready d \<Longrightarrow> Validate P (PermissionDecision d) = None"
  by (auto simp: decision_ready_def ask_ready_def)

definition result_ready :: "ToolResult \<Rightarrow> bool" where
  "result_ready tr \<longleftrightarrow> tr_ToolUseID tr \<noteq> [] \<and> Outcome_Valid (tr_Outcome tr) \<and> result_blocks_ok (tr_Content tr)"

lemma result_ready_valid: "result_ready tr \<Longrightarrow> Validate P (ToolResult tr) = None"
  by (simp add: result_ready_def result_blocks_ok_def)

lemma text_blocks_ok [simp]: "result_blocks_ok [TextBlock t] \<longleftrightarrow> t \<noteq> []"
  by (simp add: result_blocks_ok_def TextBlock_def Block_Validate_def zero_Block_def)

definition call_good :: "Block \<Rightarrow> tool_pc \<Rightarrow> bool" where
  "call_good tu pc \<longleftrightarrow> bl_ID tu \<noteq> [] \<and> bl_Name tu \<noteq> [] \<and>
     (case pc of
        TStart \<Rightarrow> True
      | TAsk _ t d _ \<Rightarrow> ask_ready d \<and> tl_Invoke t
      | TDecide t d _ \<Rightarrow> decision_ready d \<and> tl_Invoke t
      | TRefuse d oc t o' \<Rightarrow> decision_ready d \<and> Outcome_Valid oc \<and> t \<noteq> [] \<and> to_err o' = None
      | TRun _ _ \<Rightarrow> True
      | TResult tr o' \<Rightarrow> result_ready tr \<and> to_err o' = None
      | TAfter _ o' \<Rightarrow> to_err o' = None
      | TDone o' \<Rightarrow> to_err o' = None)"

lemma outcomes_valid [simp]:
  "Outcome_Valid OutcomeError" "Outcome_Valid OutcomeKilled" "Outcome_Valid OutcomeOK" "Outcome_Valid OutcomeLost"
  by (simp_all add: Outcome_Valid_def)

lemma enum_members [simp]:
  "Decision_Valid Allow" "Decision_Valid Deny" "DecidedBy_Valid ByClass" "DecidedBy_Valid ByMode"
  "DecidedBy_Valid ByAllowance" "DecidedBy_Valid ByHook" "DecidedBy_Valid ByAsker" "DecidedBy_Valid ByNoAsker"
  "Scope_Valid ScopeOnce" "Scope_Valid ScopeSession"
  by (simp_all add: Decision_Valid_def DecidedBy_Valid_def Scope_Valid_def)

lemma askHooks_ok:
  assumes "askHooks input m rs = (input', m', hv)" and "\<not> m \<or> json_valid input"
  shows "(m' \<longrightarrow> json_valid input') \<and> (\<forall>h. hv = Some h \<longrightarrow> Decision_Valid (hv_decision h) \<and> hv_reason h \<noteq> [])"
  using assms
  by (induction input m rs rule: askHooks.induct) (auto simp: Let_def split: if_splits)

lemma Evaluate_settled:
  "\<not> vd_Ask (Evaluate q sh g i) \<Longrightarrow>
    Decision_Valid (vd_Decision (Evaluate q sh g i)) \<and> DecidedBy_Valid (vd_DecidedBy (Evaluate q sh g i)) \<and>
    vd_Reason (Evaluate q sh g i) \<noteq> []"
  by (auto simp: Evaluate_def Let_def allow_verdict_def ask_or_deny_def split: option.splits if_splits)

lemma first_decision_ready:
  assumes "first_decision cf r tu t hooks = (d, input, ask)" and "Mode_Valid (Session_Mode (rn_session r))"
    and "bl_ID tu \<noteq> []" and "bl_Name tu \<noteq> []"
  shows "ask_ready d \<and> (\<not> ask \<longrightarrow> decision_ready d)"
proof -
  obtain inp m hv where ah: "askHooks (bl_Input tu) False hooks = (inp, m, hv)" by (metis prod_cases3)
  note ok = askHooks_ok[OF ah]
  show ?thesis
  proof (cases hv)
    case None
    with assms ah ok show ?thesis
      by (auto simp: first_decision_def Let_def ask_ready_def decision_ready_def dest: Evaluate_settled)
  next
    case (Some h)
    with assms ah ok show ?thesis by (auto simp: first_decision_def Let_def ask_ready_def decision_ready_def)
  qed
qed

lemma answered_ready:
  "ask_ready d \<Longrightarrow> (case a of Answered x \<Rightarrow> Decision_Valid (an_Decision x) | _ \<Rightarrow> True) \<Longrightarrow> decision_ready (answered d a)"
  "ask_ready d \<Longrightarrow> decision_ready (interruptedDeny d)"
  by (auto simp: answered_def interruptedDeny_def ask_ready_def decision_ready_def split: ask_result.splits)

lemma run_result_ready:
  assumes "result_blocks_ok (rt_Content rt)" and "rt_err rt \<noteq> Some []" and "i \<noteq> []"
  shows "result_ready (run_result cf i rt dur)" and "result_ready (killed_result i rt dur)"
  using assms by (auto simp: run_result_def killed_result_def result_ready_def split: option.splits)

text \<open>An answer the invariant allows is appended when the log takes writes.\<close>

lemma answer_appended:
  assumes "wf_session U s" and "log_ready s" and "good_env env"
    and "Validate (ulid_ParseStrict U) p = None" and "follows (Entries s) p" and "\<forall>f. p \<noteq> ForkPoint f"
  shows "\<exists>s'. Session_Append U env s p = (s', Inr (new_entry env p)) \<and> log_ready s'"
proof -
  have "s_own s \<noteq> []" using assms(1) by (simp add: wf_session_def)
  then have "append_guard (ulid_ParseStrict U) (s_inherited s) (s_own s) p = None"
    using assms(4-6) by (subst append_guard_iff) (auto simp: Entries_def)
  from Session_Append_succeeds[OF this assms(2,3)] show ?thesis by metis
qed

lemma decision_appended:
  assumes "wf_session U s" and "log_ready s" and "good_env env" and "decision_ready d"
    and "open_use (Entries s) (pd_ToolUseID d)"
  shows "\<exists>s'. Session_Append U env s (PermissionDecision d) = (s', Inr (new_entry env (PermissionDecision d))) \<and> log_ready s'"
  by (rule answer_appended[OF assms(1-3) decision_ready_valid[OF assms(4)]])
    (use assms(5) in \<open>auto simp: follows_def open_use_def\<close>)

lemma result_appended:
  assumes "wf_session U s" and "log_ready s" and "good_env env" and "result_ready tr"
    and "decided_use (Entries s) (tr_ToolUseID tr)"
  shows "\<exists>s'. Session_Append U env s (ToolResult tr) = (s', Inr (new_entry env (ToolResult tr))) \<and> log_ready s'"
  by (rule answer_appended[OF assms(1-3) result_ready_valid[OF assms(4)]])
    (use assms(5) in \<open>auto simp: follows_def decided_use_def\<close>)

definition tools_invocable :: "Config \<Rightarrow> bool" where
  "tools_invocable cf \<longleftrightarrow> (\<forall>n t. cf_tool cf n = Some t \<longrightarrow> tl_Invoke t)"

lemma tool_step_good:
  assumes wf: "wf_session (cf_lib cf) (rn_session r)" and ready: "log_ready (rn_session r)" and te: "sensible te"
    and tools: "tools_invocable cf" and inv: "call_inv (Entries (rn_session r)) tu pc" and good: "call_good tu pc"
    and st: "tool_step cf te tu r pc = (r', pc')"
  shows "log_ready (rn_session r') \<and> call_good tu pc'"
proof -
  have env: "good_env (te_call te)" using te by (simp add: sensible_def)
  have mode: "Mode_Valid (Session_Mode (rn_session r))"
    using wf mode_in_valid[of "ulid_ParseStrict (cf_lib cf)" "Entries (rn_session r)"]
    by (auto simp: wf_session_def Session_Mode_def Entries_def)
  note names = good[unfolded call_good_def, THEN conjunct1] good[unfolded call_good_def, THEN conjunct2, THEN conjunct1]
  show ?thesis
  proof (cases pc)
    case TStart
    with st tools mode names ready show ?thesis
      by (auto simp: call_good_def classDeny_def decision_ready_def ask_ready_def tools_invocable_def
          dest: first_decision_ready split: option.splits prod.splits if_splits)
  next
    case (TAsk ctx t d i)
    with st good ready te show ?thesis
      by (auto simp: call_good_def Let_def sensible_def interruptedText_def no_outcome_def intro: answered_ready split: if_splits)
  next
    case (TDecide t d i)
    with inv good have "decision_ready d" "open_use (Entries (rn_session r)) (pd_ToolUseID d)"
      by (simp_all add: call_inv_def call_good_def)
    from decision_appended[OF wf ready env this] obtain s' where
      ap: "Session_Append (cf_lib cf) (te_call te) (rn_session r) (PermissionDecision d) =
        (s', Inr (new_entry (te_call te) (PermissionDecision d)))" "log_ready s'" by blast
    with TDecide st good show ?thesis
      by (auto simp: Runner_append_def call_good_def Let_def text_result_def result_ready_def split: if_splits)
  next
    case (TRefuse d oc t o')
    with inv good have "decision_ready d" "open_use (Entries (rn_session r)) (pd_ToolUseID d)"
      by (simp_all add: call_inv_def call_good_def)
    from decision_appended[OF wf ready env this] obtain s' where
      ap: "Session_Append (cf_lib cf) (te_call te) (rn_session r) (PermissionDecision d) =
        (s', Inr (new_entry (te_call te) (PermissionDecision d)))" "log_ready s'" by blast
    with TRefuse st good inv show ?thesis
      by (auto simp: Runner_append_def call_good_def call_inv_def text_result_def result_ready_def)
  next
    case (TRun ctx i)
    with st good ready te names show ?thesis
      by (auto simp: call_good_def Let_def sensible_def no_outcome_def run_result_ready
          split: if_splits invoke_result.splits)
  next
    case (TResult tr o')
    with inv good have "result_ready tr" "decided_use (Entries (rn_session r)) (tr_ToolUseID tr)"
      by (simp_all add: call_inv_def call_good_def)
    from result_appended[OF wf ready env this] obtain s' where
      ap: "Session_Append (cf_lib cf) (te_call te) (rn_session r) (ToolResult tr) =
        (s', Inr (new_entry (te_call te) (ToolResult tr)))" "log_ready s'" by blast
    with TResult st good show ?thesis by (auto simp: Runner_append_def call_good_def)
  next
    case (TAfter i o')
    with st good ready show ?thesis by (auto simp: call_good_def split: option.splits)
  next
    case (TDone o')
    with st good ready show ?thesis by simp
  qed
qed

section \<open>How many steps a call takes\<close>

definition pc_left :: "tool_pc \<Rightarrow> nat" where
  "pc_left pc =
     (case pc of TStart \<Rightarrow> 6 | TAsk _ _ _ _ \<Rightarrow> 5 | TDecide _ _ _ \<Rightarrow> 4 | TRefuse _ _ _ _ \<Rightarrow> 3 | TRun _ _ \<Rightarrow> 3
      | TResult _ _ \<Rightarrow> 2 | TAfter _ _ \<Rightarrow> 1 | TDone _ \<Rightarrow> 0)"

lemma pc_left_0: "pc_left pc = 0 \<longleftrightarrow> (\<exists>o'. pc = TDone o')"
  by (cases pc) (auto simp: pc_left_def)

lemma tool_step_left:
  "tool_step cf te tu r pc = (r', pc') \<Longrightarrow> pc_left pc' \<le> pc_left pc - 1"
  by (cases pc)
    (auto simp: pc_left_def Let_def split: option.splits prod.splits if_splits sum.splits invoke_result.splits)

text \<open>How often a schedule steps the call at index \<open>i\<close>.\<close>

definition steps_of :: "nat \<Rightarrow> fan_event list \<Rightarrow> nat" where
  "steps_of i evs = length (filter (\<lambda>ev. case ev of CallStep j _ \<Rightarrow> j = i | _ \<Rightarrow> False) evs)"

lemma steps_of_simps [simp]:
  "steps_of i [] = 0" "steps_of i (CallStep j te # evs) = (if j = i then 1 else 0) + steps_of i evs"
  "steps_of i (Interrupted how # evs) = steps_of i evs" "steps_of i (Appended env p # evs) = steps_of i evs"
  by (simp_all add: steps_of_def)

lemma fan_step_calls:
  "length (fn_calls (fan_step cf w ev)) = length (fn_calls w)"
  "i < length (fn_calls w) \<Longrightarrow> fst (fn_calls (fan_step cf w ev) ! i) = fst (fn_calls w ! i)"
  "i < length (fn_calls w) \<Longrightarrow>
     pc_left (snd (fn_calls (fan_step cf w ev) ! i)) \<le> pc_left (snd (fn_calls w ! i)) - steps_of i [ev]"
proof -
  show "length (fn_calls (fan_step cf w ev)) = length (fn_calls w)"
    by (auto simp: fan_step_def split: fan_event.splits prod.splits)
  show "i < length (fn_calls w) \<Longrightarrow> fst (fn_calls (fan_step cf w ev) ! i) = fst (fn_calls w ! i)"
    by (auto simp: fan_step_def nth_list_update split: fan_event.splits prod.splits)
  show "pc_left (snd (fn_calls (fan_step cf w ev) ! i)) \<le> pc_left (snd (fn_calls w ! i)) - steps_of i [ev]"
    if "i < length (fn_calls w)"
    using that tool_step_left[of cf _ "fst (fn_calls w ! i)" "fn_runner w" "snd (fn_calls w ! i)"]
    by (cases ev) (auto simp: fan_step_def nth_list_update split: prod.splits)
qed

lemma run_calls_length [simp]: "length (fn_calls (run_ops (fan_step cf) w evs)) = length (fn_calls w)"
  by (induction evs arbitrary: w) (simp_all add: fan_step_calls(1))

lemma run_steps_left:
  assumes "i < length (fn_calls w)"
  shows "length (fn_calls (run_ops (fan_step cf) w evs)) = length (fn_calls w) \<and>
    fst (fn_calls (run_ops (fan_step cf) w evs) ! i) = fst (fn_calls w ! i) \<and>
    pc_left (snd (fn_calls (run_ops (fan_step cf) w evs) ! i)) \<le> pc_left (snd (fn_calls w ! i)) - steps_of i evs"
  using assms
proof (induction evs arbitrary: w)
  case Nil
  then show ?case by simp
next
  case (Cons ev evs)
  have "steps_of i (ev # evs) = steps_of i [ev] + steps_of i evs" by (cases ev) simp_all
  with Cons.IH[of "fan_step cf w ev"] Cons.prems fan_step_calls(1)[of cf w ev]
    fan_step_calls(2)[OF Cons.prems, where cf = cf and ev = ev] fan_step_calls(3)[OF Cons.prems, where cf = cf and ev = ev]
  show ?case by auto
qed

section \<open>Sensible schedules\<close>

definition fan_event_good :: "fan \<Rightarrow> fan_event \<Rightarrow> bool" where
  "fan_event_good w ev \<longleftrightarrow> fan_event_ok w ev \<and>
     (case ev of CallStep _ te \<Rightarrow> sensible te | Interrupted _ \<Rightarrow> True | Appended env _ \<Rightarrow> good_env env)"

definition fan_good :: "Config \<Rightarrow> fan \<Rightarrow> bool" where
  "fan_good cf w \<longleftrightarrow> tools_invocable cf \<and> fan_inv (cf_lib cf) w \<and> log_ready (rn_session (fn_runner w)) \<and>
     (\<forall>(tu, pc)\<in>set (fn_calls w). call_good tu pc)"

lemma good_append_ready:
  assumes "log_ready s" and "good_env env" and "Session_Append U env s p = (s', r)"
  shows "log_ready s'"
proof (cases "append_guard (ulid_ParseStrict U) (s_inherited s) (s_own s) p")
  case None
  from Session_Append_succeeds[OF None assms(1,2)] assms(3) show ?thesis by (metis prod.inject)
next
  case (Some e)
  with assms show ?thesis by (simp add: Session_Append_def)
qed

lemma fan_step_good:
  assumes "fan_good cf w" and "fan_event_good w ev"
  shows "fan_good cf (fan_step cf w ev)"
proof -
  have inv: "fan_inv (cf_lib cf) (fan_step cf w ev)"
    using assms fan_step_inv by (simp add: fan_good_def fan_event_good_def)
  have wf: "wf_session (cf_lib cf) (rn_session (fn_runner w))"
    using assms(1) reachable_wf by (simp add: fan_good_def fan_inv_def)
  show ?thesis
  proof (cases ev)
    case (CallStep i te)
    show ?thesis
    proof (cases "i < length (fn_calls w)")
      case False
      with assms CallStep show ?thesis by (simp add: fan_step_def)
    next
      case True
      obtain tu pc where c: "fn_calls w ! i = (tu, pc)" by (metis prod.collapse)
      obtain r' pc' where st: "tool_step cf te tu (fn_runner w) pc = (r', pc')" by (metis prod.collapse)
      have mem: "(tu, pc) \<in> set (fn_calls w)" using True c by (metis nth_mem)
      have "log_ready (rn_session r') \<and> call_good tu pc'"
        by (rule tool_step_good[OF wf _ _ _ _ _ st])
          (use assms mem CallStep in \<open>auto simp: fan_good_def fan_event_good_def fan_inv_def\<close>)
      with assms(1) inv True c st show ?thesis
        by (auto simp: CallStep fan_good_def fan_step_def dest!: set_update_subset_insert[THEN subsetD])
    qed
  next
    case (Interrupted how)
    with assms inv show ?thesis by (simp add: fan_good_def fan_step_def)
  next
    case (Appended env p)
    obtain s' res where ap: "Session_Append (cf_lib cf) env (rn_session (fn_runner w)) p = (s', res)" by (metis prod.collapse)
    from good_append_ready[OF _ _ ap] assms inv ap show ?thesis
      by (auto simp: Appended fan_good_def fan_step_def fan_event_good_def Runner_append_def)
  qed
qed

interpretation good_calls: guarded_machine "fan_step cf" fan_event_good "fan_good cf" for cf
  by unfold_locales (rule fan_step_good)

fun schedule_good :: "Config \<Rightarrow> fan \<Rightarrow> fan_event list \<Rightarrow> bool" where
  "schedule_good cf w [] = True"
| "schedule_good cf w (ev # evs) = (fan_event_good w ev \<and> schedule_good cf (fan_step cf w ev) evs)"

lemma schedule_good_admitted: "schedule_good cf w evs \<Longrightarrow> good_calls.admitted cf w evs"
  by (induction evs arbitrary: w) auto

definition named_calls :: "Block list \<Rightarrow> bool" where
  "named_calls tus \<longleftrightarrow> (\<forall>tu\<in>set tus. bl_ID tu \<noteq> [] \<and> bl_Name tu \<noteq> [])"

lemma run_calls_good:
  assumes "reachable (cf_lib cf) (rn_session r)" and "log_ready (rn_session r)" and "tools_invocable cf"
    and "pending_calls (rn_session r) tus" and "named_calls tus" and "schedule_good cf (start_calls r tus) evs"
  shows "fan_good cf (run_calls cf r tus evs)"
proof -
  have "fan_good cf (start_calls r tus)"
    using assms(2,3,5) start_calls_inv[OF assms(1,4)]
    by (auto simp: fan_good_def start_calls_def call_good_def named_calls_def)
  then show ?thesis unfolding run_calls_def by (rule good_calls.run_inv[OF _ schedule_good_admitted[OF assms(6)]])
qed

lemma run_calls_done:
  assumes "i < length tus" and "steps_of i evs \<ge> 6"
  shows "length (fn_calls (run_calls cf r tus evs)) = length tus \<and>
    (\<exists>o'. fn_calls (run_calls cf r tus evs) ! i = (tus ! i, TDone o'))"
proof -
  let ?w = "start_calls r tus"
  have i: "i < length (fn_calls ?w)" "snd (fn_calls ?w ! i) = TStart" "fst (fn_calls ?w ! i) = tus ! i"
    "length (fn_calls ?w) = length tus"
    using assms(1) by (simp_all add: start_calls_def)
  from run_steps_left[OF i(1), of cf evs] i assms(2)
  have "pc_left (snd (fn_calls (run_calls cf r tus evs) ! i)) = 0"
    "fst (fn_calls (run_calls cf r tus evs) ! i) = tus ! i" "length (fn_calls (run_calls cf r tus evs)) = length tus"
    by (simp_all add: run_calls_def pc_left_def)
  then show ?thesis unfolding pc_left_0 by (metis prod.collapse)
qed

section \<open>Interrupted calls\<close>

definition cut_inv :: "fan \<Rightarrow> bool" where
  "cut_inv w \<longleftrightarrow> rn_interrupt (fn_runner w) \<noteq> [] \<and>
     (\<forall>(tu, pc)\<in>set (fn_calls w). \<forall>tr o'. pc = TResult tr o' \<longrightarrow> tr_Outcome tr \<noteq> OutcomeOK) \<and>
     (\<forall>(tu, pc)\<in>set (fn_calls w). \<forall>d oc t o'. pc = TRefuse d oc t o' \<longrightarrow> oc \<noteq> OutcomeOK)"

definition no_ok :: "Entry list \<Rightarrow> bool" where
  "no_ok es \<longleftrightarrow> (\<forall>e\<in>set es. \<forall>tr. en_Payload e = ToolResult tr \<longrightarrow> tr_Outcome tr \<noteq> OutcomeOK)"

lemma outcome_distinct [simp]: "OutcomeError \<noteq> OutcomeOK" "OutcomeKilled \<noteq> OutcomeOK" "OutcomeLost \<noteq> OutcomeOK"
  by (simp_all add: enum_defs)

lemma tool_step_interrupt: "tool_step cf te tu r pc = (r', pc') \<Longrightarrow> rn_interrupt r' = rn_interrupt r"
  by (cases pc)
    (auto simp: Runner_append_def calls_add_def calls_remove_def setState_def Let_def
      split: option.splits prod.splits if_splits sum.splits invoke_result.splits)

lemma tool_step_cut:
  assumes "tool_step cf te tu r pc = (r', pc')" and "rn_interrupt r \<noteq> []"
    and "\<forall>tr o'. pc = TResult tr o' \<longrightarrow> tr_Outcome tr \<noteq> OutcomeOK"
    and "\<forall>d oc t o'. pc = TRefuse d oc t o' \<longrightarrow> oc \<noteq> OutcomeOK"
  shows "(\<forall>tr o'. pc' = TResult tr o' \<longrightarrow> tr_Outcome tr \<noteq> OutcomeOK) \<and>
    (\<forall>d oc t o'. pc' = TRefuse d oc t o' \<longrightarrow> oc \<noteq> OutcomeOK)"
  using assms
  by (cases pc)
    (auto simp: Let_def text_result_def killed_result_def observeInterrupt_def Runner_append_def
      split: option.splits prod.splits if_splits sum.splits invoke_result.splits)

lemma fan_step_cut:
  assumes "cut_inv w" and "case ev of Appended _ p \<Rightarrow> answers_none p | Interrupted how \<Rightarrow> how \<noteq> [] | _ \<Rightarrow> True"
  shows "cut_inv (fan_step cf w ev) \<and>
    (\<exists>new. Entries (rn_session (fn_runner (fan_step cf w ev))) = Entries (rn_session (fn_runner w)) @ new \<and> no_ok new)"
proof (cases ev)
  case (CallStep i te)
  show ?thesis
  proof (cases "i < length (fn_calls w)")
    case False
    with assms show ?thesis by (simp add: CallStep fan_step_def no_ok_def)
  next
    case True
    obtain tu pc where c: "fn_calls w ! i = (tu, pc)" by (metis prod.collapse)
    obtain r' pc' where st: "tool_step cf te tu (fn_runner w) pc = (r', pc')" by (metis prod.collapse)
    have w': "fan_step cf w ev = w\<lparr>fn_runner := r', fn_calls := (fn_calls w)[i := (tu, pc')]\<rparr>"
      using True c st by (simp add: fan_step_def CallStep)
    have mem: "(tu, pc) \<in> set (fn_calls w)" using True c by (metis nth_mem)
    have cut: "rn_interrupt (fn_runner w) \<noteq> []" "\<forall>tr o'. pc = TResult tr o' \<longrightarrow> tr_Outcome tr \<noteq> OutcomeOK"
      "\<forall>d oc t o'. pc = TRefuse d oc t o' \<longrightarrow> oc \<noteq> OutcomeOK" using assms(1) mem by (auto simp: cut_inv_def)
    have "cut_inv (fan_step cf w ev)"
      unfolding w' cut_inv_def
      using assms(1) tool_step_cut[OF st cut] tool_step_interrupt[OF st]
      by (auto simp: cut_inv_def dest!: set_update_subset_insert[THEN subsetD])
    moreover have "\<exists>new. Entries (rn_session r') = Entries (rn_session (fn_runner w)) @ new \<and> no_ok new"
    proof (cases "step_payload pc")
      case None
      with tool_step_session[OF st] show ?thesis by (simp add: no_ok_def)
    next
      case (Some p)
      obtain s' res where ap: "Session_Append (cf_lib cf) (te_call te) (rn_session (fn_runner w)) p = (s', res)"
        by (metis prod.collapse)
      have "no_ok [new_entry (te_call te) p]"
        using Some cut(2) by (cases pc) (auto simp: step_payload_def no_ok_def new_entry_def)
      with ap Session_Append_entries[OF ap] tool_step_session[OF st] Some show ?thesis
        by (cases res) (auto simp: no_ok_def)
    qed
    ultimately show ?thesis by (simp add: w')
  qed
next
  case (Interrupted how)
  with assms show ?thesis
    by (auto simp: fan_step_def cut_inv_def interrupt_active_def no_ok_def split: prod.splits)
next
  case (Appended env p)
  obtain s' res where ap: "Session_Append (cf_lib cf) env (rn_session (fn_runner w)) p = (s', res)" by (metis prod.collapse)
  have "no_ok [new_entry env p]"
    using assms(2) Appended by (auto simp: no_ok_def new_entry_def answers_none_def answers_def)
  with ap Session_Append_entries[OF ap] assms(1) show ?thesis
    by (cases res) (auto simp: Appended fan_step_def cut_inv_def Runner_append_def no_ok_def)
qed

lemma run_cut:
  assumes "cut_inv w" and "\<forall>ev\<in>set evs. case ev of Appended _ p \<Rightarrow> answers_none p | Interrupted how \<Rightarrow> how \<noteq> [] | _ \<Rightarrow> True"
  shows "\<exists>new. Entries (rn_session (fn_runner (run_ops (fan_step cf) w evs))) =
    Entries (rn_session (fn_runner w)) @ new \<and> no_ok new"
  using assms
proof (induction evs arbitrary: w)
  case Nil
  then show ?case by (simp add: no_ok_def)
next
  case (Cons ev evs)
  from fan_step_cut[OF Cons.prems(1), of ev cf] Cons.prems(2) obtain n1 where
    1: "cut_inv (fan_step cf w ev)"
    "Entries (rn_session (fn_runner (fan_step cf w ev))) = Entries (rn_session (fn_runner w)) @ n1" "no_ok n1" by auto
  from Cons.IH[OF 1(1)] Cons.prems(2) obtain n2 where
    "Entries (rn_session (fn_runner (run_ops (fan_step cf) (fan_step cf w ev) evs))) =
       Entries (rn_session (fn_runner (fan_step cf w ev))) @ n2" "no_ok n2" by auto
  with 1 show ?case by (intro exI[of _ "n1 @ n2"]) (auto simp: no_ok_def)
qed

section \<open>Fresh ids along a schedule\<close>

text \<open>
  \<open>NewID\<close> is called under the session's lock and returns ever greater ids, so along a schedule the
  ids of the events increase and are above every id the session holds when it starts.
\<close>

fun event_ids :: "fan_event list \<Rightarrow> ulid list" where
  "event_ids [] = []"
| "event_ids (CallStep _ te # evs) = ce_id (te_call te) # event_ids evs"
| "event_ids (Interrupted _ # evs) = event_ids evs"
| "event_ids (Appended env _ # evs) = ce_id env # event_ids evs"

definition fresh_schedule :: "Session \<Rightarrow> fan_event list \<Rightarrow> bool" where
  "fresh_schedule s evs \<longleftrightarrow>
     strict_sorted (event_ids evs) \<and>
     (\<forall>i\<in>set (event_ids evs). i \<noteq> 0 \<and> (\<forall>e\<in>set (Entries s). en_ID e < i)) \<and>
     (\<forall>ev\<in>set evs. case ev of Appended _ p \<Rightarrow> answers_none p | Interrupted how \<Rightarrow> how \<noteq> [] | _ \<Rightarrow> True)"

lemma Append_new_ids:
  assumes "Session_Append U env s p = (s', r)" and "e \<in> set (Entries s')"
  shows "e \<in> set (Entries s) \<or> en_ID e = ce_id env"
  using Session_Append_entries[OF assms(1)] assms(2) by (cases r) (auto simp: new_entry_def)

lemma fan_step_new_ids:
  assumes "e \<in> set (Entries (rn_session (fn_runner (fan_step cf w ev))))"
  shows "e \<in> set (Entries (rn_session (fn_runner w))) \<or> en_ID e \<in> set (event_ids [ev])"
proof (cases ev)
  case (CallStep i te)
  show ?thesis
  proof (cases "i < length (fn_calls w)")
    case False
    with assms CallStep show ?thesis by (simp add: fan_step_def)
  next
    case True
    obtain tu pc where c: "fn_calls w ! i = (tu, pc)" by (metis prod.collapse)
    obtain r' pc' where st: "tool_step cf te tu (fn_runner w) pc = (r', pc')" by (metis prod.collapse)
    have r': "rn_session (fn_runner (fan_step cf w ev)) = rn_session r'" using True c st by (simp add: fan_step_def CallStep)
    show ?thesis
      using assms tool_step_session[OF st] Append_new_ids[OF prod.collapse[symmetric]]
      unfolding r' by (cases "step_payload pc") (fastforce simp: CallStep)+
  qed
next
  case (Interrupted how)
  with assms show ?thesis by (simp add: fan_step_def)
next
  case (Appended env p)
  with assms show ?thesis
    using Append_new_ids[OF prod.collapse[symmetric], of e "cf_lib cf" env "rn_session (fn_runner w)" p]
    by (auto simp: fan_step_def Runner_append_def split: prod.splits)
qed

lemma event_ids_Cons: "event_ids (ev # evs) = event_ids [ev] @ event_ids evs"
  by (cases ev) simp_all

lemma fresh_schedule_step:
  assumes "fresh_schedule (rn_session (fn_runner w)) (ev # evs)"
  shows "fan_event_ok w ev \<and> fresh_schedule (rn_session (fn_runner (fan_step cf w ev))) evs"
proof
  show "fan_event_ok w ev"
    using assms by (cases ev) (auto simp: fresh_schedule_def fan_event_ok_def fresh_def)
  have srt: "strict_sorted (event_ids evs)" "\<forall>a\<in>set (event_ids [ev]). \<forall>b\<in>set (event_ids evs). a < b"
    using assms event_ids_Cons[of ev evs] by (auto simp: fresh_schedule_def sorted_wrt_append)
  have "en_ID e < i" if "i \<in> set (event_ids evs)" "e \<in> set (Entries (rn_session (fn_runner (fan_step cf w ev))))" for i e
    using fan_step_new_ids[OF that(2)] that(1) srt(2) assms event_ids_Cons[of ev evs] by (auto simp: fresh_schedule_def)
  then show "fresh_schedule (rn_session (fn_runner (fan_step cf w ev))) evs"
    using assms srt(1) event_ids_Cons[of ev evs] by (auto simp: fresh_schedule_def)
qed

lemma fresh_schedule_ok:
  "fresh_schedule (rn_session (fn_runner w)) evs \<Longrightarrow> schedule_ok cf w evs"
proof (induction evs arbitrary: w)
  case Nil
  then show ?case by simp
next
  case (Cons ev evs)
  from fresh_schedule_step[OF Cons.prems, of cf] Cons.IH show ?case by simp
qed

definition sensible_events :: "fan_event list \<Rightarrow> bool" where
  "sensible_events evs \<longleftrightarrow>
     (\<forall>ev\<in>set evs. case ev of CallStep _ te \<Rightarrow> sensible te | Interrupted _ \<Rightarrow> True | Appended env _ \<Rightarrow> good_env env)"

lemma fresh_schedule_good:
  "fresh_schedule (rn_session (fn_runner w)) evs \<Longrightarrow> sensible_events evs \<Longrightarrow> schedule_good cf w evs"
proof (induction evs arbitrary: w)
  case Nil
  then show ?case by simp
next
  case (Cons ev evs)
  from fresh_schedule_step[OF Cons.prems(1), of cf] Cons.IH Cons.prems(2) show ?case
    by (auto simp: sensible_events_def fan_event_good_def)
qed

section \<open>Cancelling the running calls\<close>

text \<open>The context a call runs in at a point: while the asker or the tool has it.\<close>

definition pc_ctx :: "tool_pc \<Rightarrow> nat option" where
  "pc_ctx pc = (case pc of TAsk c _ _ _ \<Rightarrow> Some c | TRun c _ \<Rightarrow> Some c | _ \<Rightarrow> None)"

definition ctx_inv :: "fan \<Rightarrow> bool" where
  "ctx_inv w \<longleftrightarrow> distinct (map (bl_ID \<circ> fst) (fn_calls w)) \<and>
     (\<forall>(tu, pc)\<in>set (fn_calls w). \<forall>c. pc_ctx pc = Some c \<longrightarrow>
        (if fl_cancelled (rn_calls (fn_runner w)) then c \<in> rn_cancelled (fn_runner w)
         else map_of (fl_cancels (rn_calls (fn_runner w))) (bl_ID tu) = Some c))"

text \<open>What a step does to the running calls: it enters, leaves, or does not touch them.\<close>

lemma append_calls: "Runner_append cf env r p = (r', x) \<Longrightarrow> rn_calls r' = rn_calls r \<and> rn_cancelled r' = rn_cancelled r"
  by (auto simp: Runner_append_def split: prod.splits)

lemma calls_frame:
  "rn_calls (setState st r) = rn_calls r" "rn_cancelled (setState st r) = rn_cancelled r"
  "rn_calls (calls_remove i r) = inflight_remove (rn_calls r) i" "rn_cancelled (calls_remove i r) = rn_cancelled r"
  "rn_calls (calls_add i c r) = fst (inflight_add (rn_calls r) i c)"
  "rn_cancelled (calls_add i c r) = rn_cancelled r \<union> fst (snd (inflight_add (rn_calls r) i c))"
  by (simp_all add: setState_def calls_remove_def calls_add_def split: prod.split)

lemma tool_step_calls:
  assumes "tool_step cf te tu r pc = (r', pc')"
  shows "pc_ctx pc' = None \<and> (rn_calls r' = rn_calls r \<or> rn_calls r' = inflight_remove (rn_calls r) (bl_ID tu)) \<and>
      rn_cancelled r' = rn_cancelled r \<or>
    pc_ctx pc' = Some (te_ctx te) \<and> rn_calls r' = fst (inflight_add (rn_calls r) (bl_ID tu) (te_ctx te)) \<and>
      rn_cancelled r' = rn_cancelled r \<union> fst (snd (inflight_add (rn_calls r) (bl_ID tu) (te_ctx te)))"
proof -
  have app: "\<exists>r1 x. Runner_append cf (te_call te) r p = (r1, x) \<and> rn_calls r1 = rn_calls r \<and> rn_cancelled r1 = rn_cancelled r" for p
    using append_calls by (metis prod.exhaust)
  note splits = option.splits prod.splits if_splits sum.splits invoke_result.splits
  show ?thesis
  proof (cases pc)
    case TStart
    with assms show ?thesis by (auto simp: pc_ctx_def calls_frame split: splits)
  next
    case (TAsk ctx t dec input)
    with assms show ?thesis by (auto simp: pc_ctx_def calls_frame Let_def split: splits)
  next
    case (TDecide t dec input)
    obtain r1 x where a: "Runner_append cf (te_call te) r (PermissionDecision dec) = (r1, x)"
      "rn_calls r1 = rn_calls r" "rn_cancelled r1 = rn_cancelled r" using app by blast
    define r2 where "r2 = setState RunningTool r1"
    have r2: "rn_calls r2 = rn_calls r" "rn_cancelled r2 = rn_cancelled r" using a(2,3) by (simp_all add: r2_def calls_frame)
    consider "r' = r1" "pc_ctx pc' = None" | "r' = r2" "pc_ctx pc' = None"
      | "r' = calls_add (bl_ID tu) (te_ctx te) r2" "pc_ctx pc' = Some (te_ctx te)"
      using TDecide assms a(1)
      by (cases x; cases "pd_Decision dec = Deny"; cases "tl_Invoke t") (force simp: pc_ctx_def r2_def Let_def)+
    then show ?thesis using a(2,3) r2 by cases (simp_all add: calls_frame)
  next
    case (TRefuse dec outc t o')
    obtain r1 x where a: "Runner_append cf (te_call te) r (PermissionDecision dec) = (r1, x)"
      "rn_calls r1 = rn_calls r" "rn_cancelled r1 = rn_cancelled r" using app by blast
    have "r' = r1 \<and> pc_ctx pc' = None" using TRefuse assms a(1) by (cases x) (auto simp: pc_ctx_def)
    with a(2,3) show ?thesis by simp
  next
    case (TRun ctx input)
    with assms show ?thesis by (auto simp: pc_ctx_def calls_frame Let_def split: splits)
  next
    case (TResult tr o')
    obtain r1 x where a: "Runner_append cf (te_call te) r (ToolResult tr) = (r1, x)"
      "rn_calls r1 = rn_calls r" "rn_cancelled r1 = rn_cancelled r" using app by blast
    have "r' = r1 \<and> pc_ctx pc' = None" using TResult assms a(1) by (cases x) (auto simp: pc_ctx_def)
    with a(2,3) show ?thesis by simp
  qed (use assms in \<open>auto simp: pc_ctx_def split: splits\<close>)
qed

lemma fan_step_ctx:
  assumes "ctx_inv w"
  shows "ctx_inv (fan_step cf w ev)"
proof (cases ev)
  case (CallStep i te)
  show ?thesis
  proof (cases "i < length (fn_calls w)")
    case False
    with assms CallStep show ?thesis by (simp add: fan_step_def)
  next
    case True
    obtain tu pc where c: "fn_calls w ! i = (tu, pc)" by (metis prod.collapse)
    obtain r' pc' where st: "tool_step cf te tu (fn_runner w) pc = (r', pc')" by (metis prod.collapse)
    have w': "fan_step cf w ev = w\<lparr>fn_runner := r', fn_calls := (fn_calls w)[i := (tu, pc')]\<rparr>"
      using True c st by (simp add: fan_step_def CallStep)
    have dist: "distinct (map (bl_ID \<circ> fst) (fn_calls w))" using assms by (simp add: ctx_inv_def)
    have other: "bl_ID tu2 \<noteq> bl_ID tu" if "j < length (fn_calls w)" "j \<noteq> i" "fn_calls w ! j = (tu2, pc2)" for j tu2 pc2
    proof -
      have "bl_ID (fst (fn_calls w ! j)) \<noteq> bl_ID (fst (fn_calls w ! i))"
        using dist that(1,2) True by (simp add: distinct_conv_nth)
      with that(3) c show ?thesis by simp
    qed
    have "if fl_cancelled (rn_calls r') then k \<in> rn_cancelled r' else map_of (fl_cancels (rn_calls r')) (bl_ID tu2) = Some k"
      if mem: "(tu2, pc2) \<in> set ((fn_calls w)[i := (tu, pc')])" and k: "pc_ctx pc2 = Some k" for tu2 pc2 k
    proof -
      from mem obtain j where j: "j < length (fn_calls w)" "(fn_calls w)[i := (tu, pc')] ! j = (tu2, pc2)"
        by (auto simp: in_set_conv_nth)
      show ?thesis
      proof (cases "j = i")
        case True
        with j k tool_step_calls[OF st] show ?thesis by (auto simp: inflight_add_def update_conv')
      next
        case False
        with j have f: "fn_calls w ! j = (tu2, pc2)" by simp
        with j(1) have "(tu2, pc2) \<in> set (fn_calls w)" by (metis nth_mem)
        with assms k other[OF j(1) False f] tool_step_calls[OF st] show ?thesis
          by (fastforce simp: ctx_inv_def inflight_add_def inflight_remove_def update_conv' delete_conv')
      qed
    qed
    moreover have "map (bl_ID \<circ> fst) ((fn_calls w)[i := (tu, pc')]) = map (bl_ID \<circ> fst) (fn_calls w)"
      using True c by (simp add: map_update list_update_same_conv)
    ultimately show ?thesis using dist by (auto simp: ctx_inv_def w')
  qed
next
  case (Interrupted how)
  have "k \<in> rn_cancelled (fn_runner w) \<union> set (map snd (fl_cancels (rn_calls (fn_runner w))))"
    if "(tu, pc) \<in> set (fn_calls w)" "pc_ctx pc = Some k" for tu pc k
  proof -
    have "if fl_cancelled (rn_calls (fn_runner w)) then k \<in> rn_cancelled (fn_runner w)
      else map_of (fl_cancels (rn_calls (fn_runner w))) (bl_ID tu) = Some k"
      using assms that unfolding ctx_inv_def by blast
    then show ?thesis by (auto split: if_splits dest!: map_of_SomeD intro: image_eqI[rotated])
  qed
  with assms show ?thesis
    by (auto simp: ctx_inv_def fan_step_def interrupt_active_def inflight_cancelAll_def Interrupted)
next
  case (Appended env p)
  with assms show ?thesis by (auto simp: ctx_inv_def fan_step_def Runner_append_def split: prod.splits)
qed

interpretation contexts: guarded_machine "fan_step cf" "\<lambda>_ _. True" ctx_inv for cf
  by unfold_locales (rule fan_step_ctx)

lemma run_ctx: "ctx_inv w \<Longrightarrow> ctx_inv (run_ops (fan_step cf) w evs)"
  by (rule contexts.run_inv[OF _ contexts.admitted_all]) simp_all

lemma fan_step_latch:
  "fl_cancelled (rn_calls (fn_runner w)) \<or> (\<exists>how. ev = Interrupted how) \<Longrightarrow>
    fl_cancelled (rn_calls (fn_runner (fan_step cf w ev)))"
proof (cases ev)
  case (CallStep i te)
  moreover assume "fl_cancelled (rn_calls (fn_runner w)) \<or> (\<exists>how. ev = Interrupted how)"
  ultimately show ?thesis
    using tool_step_calls[of cf te "fst (fn_calls w ! i)" "fn_runner w" "snd (fn_calls w ! i)"]
    by (auto simp: fan_step_def inflight_add_def inflight_remove_def split: prod.splits)
qed (auto simp: fan_step_def interrupt_active_def inflight_cancelAll_def Runner_append_def split: prod.splits)

lemma run_latch:
  "fl_cancelled (rn_calls (fn_runner w)) \<or> (\<exists>how. Interrupted how \<in> set evs) \<Longrightarrow>
    fl_cancelled (rn_calls (fn_runner (run_ops (fan_step cf) w evs)))"
proof (induction evs arbitrary: w)
  case Nil
  then show ?case by simp
next
  case (Cons ev evs)
  then have "fl_cancelled (rn_calls (fn_runner (fan_step cf w ev))) \<or> (\<exists>how. Interrupted how \<in> set evs)"
    using fan_step_latch[of w ev cf] by auto
  with Cons.IH show ?case by simp
qed

section \<open>Properties\<close>

text \<open>Concrete values: one bash call in strict mode with someone to ask, who allows it.\<close>

definition cf0 :: Config where
  "cf0 = \<lparr>cf_lib = ulid0, cf_tool = (\<lambda>n. if n = ''bash'' then Some \<lparr>tl_Safety = Unsafe, tl_Invoke = True\<rparr> else None),
     cf_shell = words_parser, cf_quote = id, cf_gate = default_gate, cf_asker = True, cf_timeout = [],
     cf_errtext = (\<lambda>_. ''error'')\<rparr>"

definition te0 :: "nat \<Rightarrow> tool_env" where
  "te0 k = \<lparr>te_call = env0 k, te_ctx = k, te_ctxDone = False, te_hooks = [],
     te_answer = Answered \<lparr>an_Decision = Allow, an_Scope = ScopeOnce, an_Reason = []\<rparr>,
     te_result = Returned \<lparr>rt_Content = [TextBlock ''done''], rt_IsError = False, rt_err = None, rt_timedOut = False\<rparr>,
     te_dur = 1, te_after = []\<rparr>"

definition runner0 :: "Session \<Rightarrow> Runner" where
  "runner0 s = \<lparr>rn_session = s, rn_system = [], rn_state = RunningTool, rn_turn = 2, rn_interrupt = [],
     rn_turnUsage = zero_Usage, rn_streamCancel = None, rn_calls = newInflight, rn_cancelled = {}, rn_overrides = Map.empty\<rparr>"

definition quiet0 :: Session where
  "quiet0 = \<lparr>s_id = 7, s_log = OpenLog [], s_inherited = [], s_own = [new_entry (env0 0) (SessionOpened opened0)], s_locked = True\<rparr>"

definition evs0 :: "fan_event list" where
  "evs0 = map (\<lambda>k. CallStep 0 (te0 k)) [3, 4, 5, 6, 7, 8]"

definition evs1 :: "fan_event list" where
  "evs1 = [CallStep 0 (te0 3), Interrupted InterruptSteer, CallStep 1 (te0 4)]"

lemma sample_calls:
  "fresh_schedule (pending0 [''t1'']) evs0" "sensible_events evs0"
  "pending_calls (pending0 [''t1'']) [use0 ''t1'']" "named_calls [use0 ''t1'']" "tools_invocable cf0"
proof -
  show "fresh_schedule (pending0 [''t1'']) evs0"
    by (simp add: fresh_schedule_def evs0_def te0_def env0_def pending0_entries new_entry_def)
  show "sensible_events evs0"
    by (simp add: sensible_events_def evs0_def te0_def sensible_def)
  show "pending_calls (pending0 [''t1'']) [use0 ''t1'']"
    by (simp add: pending_calls_def open_use_def pending0_entries new_entry_def payload0_defs use0_def
        ToolUseBlock_def zero_Block_def tool_uses_of_def)
  show "named_calls [use0 ''t1'']" by (simp add: named_calls_def use0_def ToolUseBlock_def)
  show "tools_invocable cf0" by (auto simp: tools_invocable_def cf0_def split: if_splits)
qed

text \<open>
  C18: Whatever the interleaving of the calls of a message with each other, with interrupts and with
  the session's other clients, and whatever the writes, hooks, askers and tools do: the log stays
  well formed; a tool runs only after an allow decision for it is in the log and before it has a
  result; and a call that ended without an error has its result in the log.
\<close>

theorem tool_calls_safe:
  assumes "reachable (cf_lib cf) (rn_session r)" and "pending_calls (rn_session r) tus"
    and "fresh_schedule (rn_session r) evs"
  shows "wf_entries (ulid_ParseStrict (cf_lib cf)) (Entries (rn_session (fn_runner (run_calls cf r tus evs)))) \<and>
    (\<forall>(tu, pc)\<in>set (fn_calls (run_calls cf r tus evs)).
       let es = Entries (rn_session (fn_runner (run_calls cf r tus evs))) in
       (\<forall>ctx input. pc = TRun ctx input \<longrightarrow> bl_ID tu \<notin> result_ids es \<and>
          (\<exists>e\<in>set es. \<exists>d. en_Payload e = PermissionDecision d \<and> pd_ToolUseID d = bl_ID tu \<and> pd_Decision d = Allow)) \<and>
       (\<forall>o'. pc = TDone o' \<and> to_err o' = None \<longrightarrow> bl_ID tu \<in> result_ids es))"
proof -
  let ?w = "run_calls cf r tus evs"
  have inv: "fan_inv (cf_lib cf) ?w"
    by (rule run_calls_inv[OF assms(1,2) fresh_schedule_ok]) (simp add: start_calls_def assms(3))
  then have wf: "wf_entries (ulid_ParseStrict (cf_lib cf)) (Entries (rn_session (fn_runner ?w)))"
    using reachable_wf by (auto simp: fan_inv_def wf_session_def)
  have "pd_Decision d = Allow"
    if "e \<in> set (Entries (rn_session (fn_runner ?w)))" "en_Payload e = PermissionDecision d" "pd_Decision d \<noteq> Deny" for e d
    using that wf by (auto simp: wf_entries_def entry_ok_def Decision_Valid_def split: if_splits)
  with inv wf show ?thesis
    by (fastforce simp: fan_inv_def call_inv_def decided_use_def not_denied_def Let_def)
qed

theorem tool_calls_safe_witness:
  "wf_entries (ulid_ParseStrict ulid0) (Entries (rn_session (fn_runner (run_calls cf0 (runner0 (pending0 [''t1''])) [use0 ''t1''] evs0))))"
proof -
  have "reachable (cf_lib cf0) (rn_session (runner0 (pending0 [''t1''])))"
    using reachable_samples(1) by (simp add: cf0_def runner0_def)
  from tool_calls_safe[OF this, of "[use0 ''t1'']" evs0] sample_calls show ?thesis
    by (simp add: runner0_def cf0_def)
qed

text \<open>
  C19: The calls of a message all finish and are all answered, when the log takes writes, every tool can
  be invoked, the tools return (valid content, no panic), the asker's answers are decisions, and the
  tool uses are named, pending and of distinct ids: then every schedule that gives each call six steps
  ends with every call done without an error, and none of the tool uses is pending any more. (A tool
  that panics ends its call with an error and leaves its tool use pending.)
\<close>

theorem tool_calls_complete:
  assumes "reachable (cf_lib cf) (rn_session r)" and "log_ready (rn_session r)" and "tools_invocable cf"
    and "pending_calls (rn_session r) tus" and "named_calls tus"
    and "fresh_schedule (rn_session r) evs" and "sensible_events evs" and "\<forall>i<length tus. 6 \<le> steps_of i evs"
  shows "list_all (\<lambda>(tu, pc). \<exists>o'. pc = TDone o' \<and> to_err o' = None) (fn_calls (run_calls cf r tus evs)) \<and>
    map fst (fn_calls (run_calls cf r tus evs)) = tus \<and>
    (\<forall>tu\<in>set tus. \<not> is_pending (Entries (rn_session (fn_runner (run_calls cf r tus evs)))) (bl_ID tu))"
proof -
  let ?w = "run_calls cf r tus evs"
  have "schedule_good cf (start_calls r tus) evs"
    by (rule fresh_schedule_good) (simp_all add: start_calls_def assms)
  from run_calls_good[OF assms(1-5) this] have good: "fan_good cf ?w" .
  have len: "length (fn_calls ?w) = length tus" by (simp add: run_calls_def start_calls_def)
  have at: "\<exists>o'. fn_calls ?w ! i = (tus ! i, TDone o')" if "i < length tus" for i
    using run_calls_done[OF that] assms(8) that by blast
  have all: "\<exists>o'. pc = TDone o' \<and> to_err o' = None" "bl_ID tu \<in> result_ids (Entries (rn_session (fn_runner ?w)))"
    if "(tu, pc) \<in> set (fn_calls ?w)" for tu pc
  proof -
    from that len obtain i where i: "i < length tus" "fn_calls ?w ! i = (tu, pc)" by (metis in_set_conv_nth)
    with at obtain o' where "pc = TDone o'" by fastforce
    with good that show "\<exists>o'. pc = TDone o' \<and> to_err o' = None"
      "bl_ID tu \<in> result_ids (Entries (rn_session (fn_runner ?w)))"
      by (fastforce simp: fan_good_def call_good_def fan_inv_def call_inv_def)+
  qed
  have fst: "map fst (fn_calls ?w) = tus" using at len by (intro nth_equalityI) fastforce+
  have "bl_ID tu \<in> result_ids (Entries (rn_session (fn_runner ?w)))" if "tu \<in> set tus" for tu
    using that all(2) fst by (metis (no_types, lifting) imageE list.set_map prod.collapse)
  with all(1) fst show ?thesis by (auto simp: list_all_iff is_pending_iff)
qed

theorem tool_calls_complete_witness:
  "\<not> is_pending (Entries (rn_session (fn_runner (run_calls cf0 (runner0 (pending0 [''t1''])) [use0 ''t1''] evs0)))) ''t1''"
proof -
  have r: "reachable (cf_lib cf0) (rn_session (runner0 (pending0 [''t1''])))" "log_ready (rn_session (runner0 (pending0 [''t1''])))"
    using reachable_samples(1) pending0_entries by (simp_all add: cf0_def runner0_def)
  have "\<forall>i<length [use0 ''t1'']. 6 \<le> steps_of i evs0" by (simp add: evs0_def)
  from tool_calls_complete[OF r sample_calls(5), of "[use0 ''t1'']" evs0, OF _ sample_calls(4) _ sample_calls(2) this] sample_calls
  show ?thesis by (simp add: runner0_def use0_def ToolUseBlock_def)
qed

text \<open>
  Once an interrupt stands, no call records a clean result: from any state of the calls in
  which no clean result is already on its way to the log, every result appended by any
  continuation has an outcome other than ok, whatever the tools answered.
\<close>

theorem interrupt_leaves_no_ok:
  assumes "rn_interrupt (fn_runner w) \<noteq> []"
    and "\<forall>(tu, pc)\<in>set (fn_calls w). (\<forall>tr o'. pc = TResult tr o' \<longrightarrow> tr_Outcome tr \<noteq> OutcomeOK) \<and>
      (\<forall>d oc t o'. pc = TRefuse d oc t o' \<longrightarrow> oc \<noteq> OutcomeOK)"
    and "fresh_schedule (rn_session (fn_runner w)) evs"
  shows "\<exists>new. Entries (rn_session (fn_runner (run_ops (fan_step cf) w evs))) =
      Entries (rn_session (fn_runner w)) @ new \<and>
    (\<forall>e\<in>set new. \<forall>tr. en_Payload e = ToolResult tr \<longrightarrow> tr_Outcome tr \<noteq> OutcomeOK)"
  using run_cut[of w evs cf] assms unfolding no_ok_def
  by (force simp: cut_inv_def fresh_schedule_def)

theorem interrupt_leaves_no_ok_witness:
  "\<exists>new. Entries (rn_session (fn_runner (run_ops (fan_step cf0)
        (start_calls ((runner0 (pending0 [''t1'']))\<lparr>rn_interrupt := InterruptCancel\<rparr>) [use0 ''t1'']) evs0))) =
      Entries (pending0 [''t1'']) @ new \<and>
    (\<forall>e\<in>set new. \<forall>tr. en_Payload e = ToolResult tr \<longrightarrow> tr_Outcome tr \<noteq> OutcomeOK)"
proof -
  let ?w = "start_calls ((runner0 (pending0 [''t1'']))\<lparr>rn_interrupt := InterruptCancel\<rparr>) [use0 ''t1'']"
  have "rn_interrupt (fn_runner ?w) \<noteq> []" by (simp add: start_calls_def enum_defs)
  moreover have "fresh_schedule (rn_session (fn_runner ?w)) evs0"
    using sample_calls(1) by (simp add: start_calls_def runner0_def)
  ultimately show ?thesis
    using interrupt_leaves_no_ok[of ?w evs0 cf0] by (simp add: start_calls_def runner0_def)
qed

text \<open>
  C20: An interrupt reaches every call of a message whose tool uses have distinct ids: at any time
  after an interrupt, each call that is waiting for the asker or running its tool, whether it was then
  or started since, runs in a context that has been cancelled.
\<close>

theorem interrupt_cancels_every_call:
  assumes "distinct (map bl_ID tus)" and "Interrupted how \<in> set evs"
  shows "\<forall>(tu, pc)\<in>set (fn_calls (run_calls cf r tus evs)). \<forall>c. pc_ctx pc = Some c \<longrightarrow>
    c \<in> rn_cancelled (fn_runner (run_calls cf r tus evs))"
proof -
  have "ctx_inv (start_calls r tus)"
    using assms(1) by (auto simp: ctx_inv_def start_calls_def pc_ctx_def comp_def)
  then have "ctx_inv (run_calls cf r tus evs)"
    unfolding run_calls_def by (rule run_ctx)
  moreover have "fl_cancelled (rn_calls (fn_runner (run_calls cf r tus evs)))"
    using run_latch[of "start_calls r tus" evs cf] assms(2) unfolding run_calls_def by blast
  ultimately show ?thesis by (simp add: ctx_inv_def)
qed

theorem interrupt_cancels_every_call_witness:
  "map (pc_ctx \<circ> snd) (fn_calls (run_calls cf0 (runner0 quiet0) [use0 ''t1'', use0 ''t2''] evs1)) = [Some 3, Some 4] \<and>
   {3, 4} \<subseteq> rn_cancelled (fn_runner (run_calls cf0 (runner0 quiet0) [use0 ''t1'', use0 ''t2''] evs1))"
proof -
  have at: "map (pc_ctx \<circ> snd) (fn_calls (run_calls cf0 (runner0 quiet0) [use0 ''t1'', use0 ''t2''] evs1)) = [Some 3, Some 4]"
    by code_simp
  have "list_all (\<lambda>(tu, pc). \<forall>c. pc_ctx pc = Some c \<longrightarrow> c \<in> rn_cancelled (fn_runner (run_calls cf0 (runner0 quiet0) [use0 ''t1'', use0 ''t2''] evs1)))
    (fn_calls (run_calls cf0 (runner0 quiet0) [use0 ''t1'', use0 ''t2''] evs1))"
    unfolding list_all_iff
    by (rule interrupt_cancels_every_call[of _ InterruptSteer]) (simp_all add: use0_def ToolUseBlock_def evs1_def)
  with at show ?thesis by (auto simp: map_eq_Cons_conv)
qed

text \<open>
  With two calls of one id the second takes the place of the first in the set of running calls, and an
  interrupt does not reach the first.
\<close>

theorem duplicate_id_escapes_interrupt:
  "let w = run_calls cf0 (runner0 quiet0) [use0 ''t1'', use0 ''t1''] [CallStep 0 (te0 3), CallStep 1 (te0 4), Interrupted InterruptCancel] in
     map (pc_ctx \<circ> snd) (fn_calls w) = [Some 3, Some 4] \<and> 3 \<notin> rn_cancelled (fn_runner w) \<and> 4 \<in> rn_cancelled (fn_runner w)"
  by code_simp

end
