(* ===== verification/Turn.thy ===== *)
theory Turn
  imports Tool_Calls_Inv
begin

text \<open>
  The turn loop, the rest of \<open>internal/turn/runner.go\<close>: \<open>NewRunner\<close>, \<open>Run\<close>, \<open>Interrupt\<close>, the
  loop with its requests, its cut and failed endings and its tool calls. One goroutine executes
  \<open>Run\<close> at a time (\<open>startTurn\<close> of \<open>internal/server/server.go\<close> starts one only when none is
  active); beside it run the calls of the current message, callers of \<open>Interrupt\<close>, and the
  session's other clients. The goroutine is a program whose points \<open>turn_pc\<close> lie between its
  atomic actions, \<open>turn_step\<close> runs one action, and a schedule is a list of \<open>turn_event\<close>s. What an
  action takes from outside (the provider's stream, the hooks' results, whether the caller's
  context is done, the outcome of the log's writes) is its \<open>turn_env\<close>. A point reached through a
  done context carries \<open>True\<close>: such a \<open>Run\<close> returns the context's error whatever happens on the
  way. The observer's notifications and the log lines are not modelled.
\<close>

section \<open>Configuration and state\<close>

text \<open>
  \<open>tc_below\<close> is the floating point comparison \<open>float64(prompt) < CompactAt * float64(ContextWindow)\<close>;
  \<open>tc_compacts\<close> says whether \<open>CompactAt\<close> and \<open>ContextWindow\<close> are positive. The compactor shares the
  runner's map of overrides, as \<open>Config.Overrides\<close> documents.
\<close>

record TurnConfig =
  tc_base :: Config
  tc_System :: bytes
  tc_Tools :: "ToolDef list"
  tc_MaxTokens :: int
  tc_MaxSteps :: int
  tc_Compactor :: "ModelCompactor option"
  tc_compacts :: bool
  tc_below :: "int64 \<Rightarrow> bool"

text \<open>What \<open>Run\<close> returned: nil, an error, or the error of the caller's context.\<close>

datatype run_return = RetNil | RetErr go_error | RetCtx

datatype turn_pc =
    RReturned run_return
  | RMessage UserMessage bool
  | RLoop nat
  | RSend nat
  | RAssemble nat nat
  | RStream nat nat Request
  | RStreamed nat AssistantMessage "go_error option"
  | RCut AssistantMessage Interrupt bool
  | RAppend nat AssistantMessage "bytes \<rightharpoonup> bytes"
  | RCompact nat AssistantMessage "bytes \<rightharpoonup> bytes"
  | RSummarize nat AssistantMessage "bytes \<rightharpoonup> bytes" ModelCompactor "Entry list"
  | RCompacted nat AssistantMessage "bytes \<rightharpoonup> bytes" Compaction
  | RRefuse nat "bytes \<rightharpoonup> bytes" "Block list" "Block list"
  | RRefusing nat "bytes \<rightharpoonup> bytes" "Block list" Block tool_pc "Block list"
  | RCalls nat "(Block \<times> tool_pc) list"
  | REnd nat "toolOutcome list"
  | RFinish Interrupt bool
  | RRest State bool
  | RFail ErrorClass go_error bool
  | RFailSync go_error bool
  | RClear State run_return
  | RSet State run_return
  | RPanic

record Turn =
  tn_runner :: Runner
  tn_pc :: turn_pc

record turn_env =
  ue_call :: call_env
  ue_ctx :: nat
  ue_ctxDone :: bool
  ue_additions :: "bytes list option list"
  ue_headers :: "(bytes \<rightharpoonup> bytes) option list"
  ue_parts :: "Part list"
  ue_err :: "go_error option"
  ue_order :: "bytes list"
  ue_complete :: completer
  ue_summaries :: "bytes option list"
  ue_tool :: tool_env

definition NewRunner :: "Session \<Rightarrow> overrides \<Rightarrow> Runner" where
  "NewRunner s over =
     \<lparr>rn_session = s, rn_system = [], rn_state = Idle, rn_turn = 0, rn_interrupt = [], rn_turnUsage = zero_Usage,
      rn_streamCancel = None, rn_calls = newInflight, rn_cancelled = {}, rn_overrides = over\<rparr>"

definition resting :: "State \<Rightarrow> bool" where
  "resting s \<longleftrightarrow> s \<in> {Idle, Completed, Failed}"

section \<open>Entering and leaving\<close>

definition Runner_Sync :: "sync_io \<Rightarrow> Runner \<Rightarrow> Runner \<times> session_error option" where
  "Runner_Sync io r = (case Session_Sync io (rn_session r) of (s, e) \<Rightarrow> (r\<lparr>rn_session := s\<rparr>, e))"

text \<open>\<open>Interrupt\<close>: nothing at rest, the end of a steering turn on a cancel, otherwise the cut.\<close>

definition Runner_Interrupt :: "Config \<Rightarrow> call_env \<Rightarrow> Interrupt \<Rightarrow> Runner \<Rightarrow> Runner" where
  "Runner_Interrupt cf env how r =
     (if resting (rn_state r) then r
      else if rn_state r = Steering then
        (if how = InterruptCancel then
           (let r1 = fst (Runner_append cf env r (TurnInterrupted \<lparr>ti_TurnID = rn_turn r, ti_How = InterruptCancel\<rparr>));
                r2 = fst (Runner_Sync (ce_sync env) r1)
            in setState Idle r2)
         else r)
      else interrupt_active how r)"

datatype run_refusal = SteerOnly | SteerWithoutTurn | TurnActive

text \<open>The critical section \<open>Run\<close> starts with: a refusal, or whether a new turn starts.\<close>

definition claim_run :: "UserMessage \<Rightarrow> Runner \<Rightarrow> (run_refusal, Runner \<times> bool) result" where
  "claim_run msg r =
     (case
        (if rn_state r = Steering then
           (if um_Source msg \<noteq> SourceSteer then Inl SteerOnly else Inr (setState Streaming r, False))
         else if resting (rn_state r) then
           (if um_Source msg = SourceSteer then Inl SteerWithoutTurn else Inr (r, True))
         else Inl TurnActive) of
        Inl e \<Rightarrow> Inl e
      | Inr (r1, starting) \<Rightarrow> Inr (r1\<lparr>rn_interrupt := [], rn_calls := inflight_reset (rn_calls r1)\<rparr>, starting))"

text \<open>The system prompt with the handlers' additions, the empty ones left out.\<close>

fun system_additions :: "bytes \<Rightarrow> bytes list \<Rightarrow> bytes" where
  "system_additions sys [] = sys"
| "system_additions sys (add # adds) =
     (if add = [] then system_additions sys adds
      else system_additions ((if sys \<noteq> [] then sys @ [c_nl, c_nl] else sys) @ add) adds)"

fun before_turn :: "bytes \<Rightarrow> bytes list option list \<Rightarrow> bytes" where
  "before_turn sys [] = sys"
| "before_turn sys (None # rs) = before_turn sys rs"
| "before_turn sys (Some adds # rs) = before_turn (system_additions sys adds) rs"

definition startTurnState :: "TurnConfig \<Rightarrow> turn_env \<Rightarrow> Runner \<Rightarrow> Runner" where
  "startTurnState tc ue r =
     r\<lparr>rn_system := before_turn (tc_System tc) (ue_additions ue), rn_turnUsage := zero_Usage\<rparr>"

section \<open>One request\<close>

definition setStreamCancel :: "nat \<Rightarrow> Runner \<Rightarrow> Runner" where
  "setStreamCancel ctx r =
     r\<lparr>rn_streamCancel := Some ctx,
       rn_cancelled := (if rn_interrupt r \<noteq> [] then insert ctx (rn_cancelled r) else rn_cancelled r)\<rparr>"

fun merge_headers :: "(bytes \<rightharpoonup> bytes) \<Rightarrow> (bytes \<rightharpoonup> bytes) option list \<Rightarrow> (bytes \<rightharpoonup> bytes)" where
  "merge_headers h [] = h"
| "merge_headers h (None # rs) = merge_headers h rs"
| "merge_headers h (Some m # rs) = merge_headers (h ++ m) rs"

definition turn_request :: "TurnConfig \<Rightarrow> turn_env \<Rightarrow> Runner \<Rightarrow> Request" where
  "turn_request tc ue r =
     (let req = Assemble (rn_session r) (tc_Tools tc) (rn_system r) (tc_MaxTokens tc) (rn_overrides r)
      in req\<lparr>rq_Headers := merge_headers (rq_Headers req) (ue_headers ue)\<rparr>)"

text \<open>The message a stream adds up to; \<open>None\<close> would be a panic of the accumulator.\<close>

definition streamed_message :: "turn_env \<Rightarrow> Runner \<Rightarrow> AssistantMessage option" where
  "streamed_message ue r =
     (case add_parts newAccumulator (ue_parts ue) of
        None \<Rightarrow> None
      | Some acc \<Rightarrow>
          (case accumulator_blocks (ue_order ue) acc of
             None \<Rightarrow> None
           | Some bs \<Rightarrow>
               Some \<lparr>am_Model = Session_Model (rn_session r), am_Thinking = Session_Thinking (rn_session r),
                 am_Content = bs, am_Usage = ac_usage acc,
                 am_StopReason = (if ue_err ue = None \<and> ac_stop acc = [] then StopOther else ac_stop acc),
                 am_StopReasonRaw = ac_stopRaw acc\<rparr>))"

text \<open>The partial message of a cut stream.\<close>

definition cut_message :: "AssistantMessage \<Rightarrow> AssistantMessage" where
  "cut_message am = am\<lparr>am_StopReason := StopInterrupted, am_StopReasonRaw := [],
     am_Content := dropIncompleteToolUses (am_Content am)\<rparr>"

definition appendAssistant :: "Config \<Rightarrow> call_env \<Rightarrow> Runner \<Rightarrow> AssistantMessage \<Rightarrow> Runner \<times> (session_error, Entry) result" where
  "appendAssistant cf env r am =
     (case Runner_append cf env r (AssistantMessage am) of
        (r1, Inl e) \<Rightarrow> (r1, Inl e)
      | (r1, Inr e) \<Rightarrow> (r1\<lparr>rn_turnUsage := Usage_Add (rn_turnUsage r1) (am_Usage am)\<rparr>, Inr e))"

text \<open>
  \<open>maybeCompact\<close> with \<open>Compact\<close>, at its three actions: what is covered is read, the provider is asked for
  the summary when no hook gave one, and the compaction is appended; others may append in between. The
  summary request runs in the context of \<open>Run\<close>, which an interrupt does not cancel. A failure is
  dropped.
\<close>

definition compaction_due :: "TurnConfig \<Rightarrow> AssistantMessage \<Rightarrow> ModelCompactor option" where
  "compaction_due tc am =
     (case tc_Compactor tc of
        None \<Rightarrow> None
      | Some c \<Rightarrow>
          if \<not> tc_compacts tc then None
          else if tc_below tc (u_Input (am_Usage am) + u_CacheRead (am_Usage am) + u_CacheWrite (am_Usage am)) then None
          else Some c)"

definition compaction_payload :: "ModelCompactor \<Rightarrow> Entry list \<Rightarrow> bytes \<Rightarrow> Usage \<Rightarrow> Compaction" where
  "compaction_payload c cover summary usage =
     \<lparr>co_Summary = summary, co_FirstEntryID = compact_first (hd cover), co_LastEntryID = en_ID (last cover),
      co_Model = mc_Model c, co_Usage = usage\<rparr>"

text \<open>Where the loop goes on after a compaction, made or not.\<close>

definition after_compact :: "nat \<Rightarrow> AssistantMessage \<Rightarrow> (bytes \<rightharpoonup> bytes) \<Rightarrow> turn_pc" where
  "after_compact n am malformed =
     (let tus = filter (\<lambda>b. bl_Type b = BlockToolUse) (am_Content am) in
      if tus = [] then RRest Completed False else RRefuse n malformed [] tus)"

definition compact_cover ::
    "TurnConfig \<Rightarrow> turn_env \<Rightarrow> Runner \<Rightarrow> nat \<Rightarrow> AssistantMessage \<Rightarrow> (bytes \<rightharpoonup> bytes) \<Rightarrow> turn_pc" where
  "compact_cover tc ue r n am malformed =
     (case compaction_due tc am of
        None \<Rightarrow> after_compact n am malformed
      | Some c \<Rightarrow>
          (let cover = Cover (rn_session r) (rn_turn r); hs = hook_summary (ue_summaries ue) in
           if length cover < 2 then after_compact n am malformed
           else if hs \<noteq> [] then RCompacted n am malformed (compaction_payload c cover hs zero_Usage)
           else RSummarize n am malformed c cover))"

definition compact_summary ::
    "turn_env \<Rightarrow> Runner \<Rightarrow> nat \<Rightarrow> AssistantMessage \<Rightarrow> (bytes \<rightharpoonup> bytes) \<Rightarrow> ModelCompactor \<Rightarrow> Entry list \<Rightarrow> turn_pc" where
  "compact_summary ue r n am malformed c cover =
     (case summarize (c\<lparr>mc_Overrides := rn_overrides r\<rparr>) (ue_complete ue) (rn_session r) cover [] of
        Inl e \<Rightarrow> after_compact n am malformed
      | Inr (summary, usage) \<Rightarrow> RCompacted n am malformed (compaction_payload c cover summary usage))"

definition compact_append :: "TurnConfig \<Rightarrow> turn_env \<Rightarrow> Runner \<Rightarrow> Compaction \<Rightarrow> Runner" where
  "compact_append tc ue r v =
     r\<lparr>rn_session := fst (Session_Append (cf_lib (tc_base tc)) (ue_call ue) (rn_session r) (Compaction v))\<rparr>"

section \<open>Endings\<close>

definition turn_failed :: "Config \<Rightarrow> Runner \<Rightarrow> ErrorClass \<Rightarrow> go_error \<Rightarrow> TurnFailed" where
  "turn_failed cf r class err =
     (case err of
        ProviderErr pe \<Rightarrow> \<lparr>tf_TurnID = rn_turn r, tf_Class = class, tf_Message = pe_Message pe, tf_Retries = pe_Attempts pe\<rparr>
      | _ \<Rightarrow> \<lparr>tf_TurnID = rn_turn r, tf_Class = class, tf_Message = cf_errtext cf err, tf_Retries = 0\<rparr>)"

definition returns :: "bool \<Rightarrow> run_return \<Rightarrow> run_return" where
  "returns ctx ret = (if ctx then RetCtx else ret)"

definition internal_failure :: "session_error \<Rightarrow> bool \<Rightarrow> turn_pc" where
  "internal_failure e ctx = RFail ErrInternal (SessionErr e) ctx"

text \<open>\<open>endTurn\<close>: the first ending an outcome asks for, or the next iteration of the loop.\<close>

fun endTurn :: "nat \<Rightarrow> Runner \<Rightarrow> toolOutcome list \<Rightarrow> turn_pc" where
  "endTurn n r [] = RLoop n"
| "endTurn n r (o' # os) =
     (case to_err o' of
        Some e \<Rightarrow> RFail (to_class o') e False
      | None \<Rightarrow>
          if to_ctxErr o' then RFinish InterruptCancel True
          else if to_interrupt o' \<noteq> [] then
            RFinish (if observeInterrupt r = [] then to_interrupt o' else observeInterrupt r) False
          else endTurn n r os)"

definition all_done :: "(Block \<times> tool_pc) list \<Rightarrow> bool" where
  "all_done cs \<longleftrightarrow> list_all (\<lambda>(tu, pc). case pc of TDone _ \<Rightarrow> True | _ \<Rightarrow> False) cs"

definition outcome_of :: "Block \<times> tool_pc \<Rightarrow> toolOutcome" where
  "outcome_of c = (case snd c of TDone o' \<Rightarrow> o' | _ \<Rightarrow> no_outcome)"

text \<open>\<open>finishInterrupt\<close>, \<open>rest\<close> and \<open>fail\<close>, up to the clearing of the interrupt they all end with.\<close>

definition finishInterrupt :: "TurnConfig \<Rightarrow> turn_env \<Rightarrow> Runner \<Rightarrow> Interrupt \<Rightarrow> bool \<Rightarrow> Runner \<times> turn_pc" where [simp]:
  "finishInterrupt tc ue r how ctx =
     (if how = InterruptSteer then (r, RRest Steering ctx)
      else
        (case Runner_append (tc_base tc) (ue_call ue) r (TurnInterrupted \<lparr>ti_TurnID = rn_turn r, ti_How = how\<rparr>) of
           (r1, Inl e) \<Rightarrow> (r1, internal_failure e ctx)
         | (r1, Inr _) \<Rightarrow> (r1, RRest Idle ctx)))"

definition rest :: "TurnConfig \<Rightarrow> turn_env \<Rightarrow> Runner \<Rightarrow> State \<Rightarrow> bool \<Rightarrow> Runner \<times> turn_pc" where [simp]:
  "rest tc ue r s ctx =
     (case Runner_Sync (ce_sync (ue_call ue)) r of
        (r1, Some e) \<Rightarrow>
          (r1, RFail ErrInternal (OtherErr (''sync session log: '' @ cf_errtext (tc_base tc) (SessionErr e))) ctx)
      | (r1, None) \<Rightarrow> (r1, RClear s (returns ctx RetNil)))"

definition fail :: "TurnConfig \<Rightarrow> turn_env \<Rightarrow> Runner \<Rightarrow> ErrorClass \<Rightarrow> go_error \<Rightarrow> bool \<Rightarrow> Runner \<times> turn_pc" where [simp]:
  "fail tc ue r cls err ctx =
     (fst (Runner_append (tc_base tc) (ue_call ue) r (TurnFailed (turn_failed (tc_base tc) r cls err))), RFailSync err ctx)"

definition fail_sync :: "TurnConfig \<Rightarrow> turn_env \<Rightarrow> Runner \<Rightarrow> go_error \<Rightarrow> bool \<Rightarrow> Runner \<times> turn_pc" where [simp]:
  "fail_sync tc ue r err ctx =
     (fst (Runner_Sync (ce_sync (ue_call ue)) r), RClear Failed (returns ctx (RetErr err)))"

section \<open>The loop\<close>

text \<open>One atomic action of the goroutine that executes \<open>Run\<close>.\<close>

fun turn_step :: "TurnConfig \<Rightarrow> turn_env \<Rightarrow> Runner \<Rightarrow> turn_pc \<Rightarrow> Runner \<times> turn_pc" where
  "turn_step tc ue r (RReturned ret) = (r, RReturned ret)"
| "turn_step tc ue r (RMessage msg starting) =
     (case Runner_append (tc_base tc) (ue_call ue) r (UserMessage msg) of
        (r1, Inl e) \<Rightarrow> (r1, internal_failure e False)
      | (r1, Inr e) \<Rightarrow>
          (if starting then startTurnState tc ue (r1\<lparr>rn_turn := en_ID e\<rparr>) else r1, RLoop 0))"
| "turn_step tc ue r (RLoop n) =
     (if tc_MaxSteps tc > 0 \<and> int (Suc n) > tc_MaxSteps tc
      then (r, RFail ErrInternal (OtherErr (''step limit '' @ show_int (tc_MaxSteps tc) @ '' reached'')) False)
      else (setState Streaming r, RSend (Suc n)))"
| "turn_step tc ue r (RSend n) = (setStreamCancel (ue_ctx ue) r, RAssemble n (ue_ctx ue))"
| "turn_step tc ue r (RAssemble n ctx) = (r, RStream n ctx (turn_request tc ue r))"
| "turn_step tc ue r (RStream n ctx req) =
     (case streamed_message ue r of None \<Rightarrow> (r, RPanic) | Some am \<Rightarrow> (r, RStreamed n am (ue_err ue)))"
| "turn_step tc ue r (RStreamed n am err) =
     (if observeInterrupt r \<noteq> [] then (r, RCut (cut_message am) (observeInterrupt r) False)
      else case err of
        Some e \<Rightarrow>
          if ue_ctxDone ue then (r, RCut (cut_message am) InterruptCancel True)
          else (r, RFail (case e of ProviderErr pe \<Rightarrow> pe_Class pe | _ \<Rightarrow> ErrTransport) e False)
      | None \<Rightarrow>
          (case sanitizeToolInputs (am_Content am) of
             (content, malformed) \<Rightarrow> (r, RAppend n (am\<lparr>am_Content := content\<rparr>) malformed)))"
| "turn_step tc ue r (RCut am how ctx) =
     (case appendAssistant (tc_base tc) (ue_call ue) r am of
        (r1, Inl e) \<Rightarrow> (r1, internal_failure e False)
      | (r1, Inr _) \<Rightarrow> (r1, RFinish how ctx))"
| "turn_step tc ue r (RAppend n am malformed) =
     (case appendAssistant (tc_base tc) (ue_call ue) r am of
        (r1, Inl e) \<Rightarrow> (r1, internal_failure e False)
      | (r1, Inr _) \<Rightarrow> (r1, RCompact n am malformed))"
| "turn_step tc ue r (RCompact n am malformed) = (r, compact_cover tc ue r n am malformed)"
| "turn_step tc ue r (RSummarize n am malformed c cover) = (r, compact_summary ue r n am malformed c cover)"
| "turn_step tc ue r (RCompacted n am malformed v) = (compact_append tc ue r v, after_compact n am malformed)"
| "turn_step tc ue r (RRefuse n malformed runnable []) = (r, RCalls n (map (\<lambda>tu. (tu, TStart)) runnable))"
| "turn_step tc ue r (RRefuse n malformed runnable (tu # tus)) =
     (case malformed (bl_ID tu) of
        None \<Rightarrow> (r, RRefuse n malformed (runnable @ [tu]) tus)
      | Some raw \<Rightarrow>
          (r, RRefusing n malformed runnable tu
             (TRefuse (classDeny r tu ''malformed input'') OutcomeError (''malformed tool input: '' @ raw) no_outcome) tus))"
| "turn_step tc ue r (RRefusing n malformed runnable tu pc tus) =
     (case pc of
        TDone o' \<Rightarrow>
          (case to_err o' of
             Some e \<Rightarrow> (r, RFail ErrInternal e False)
           | None \<Rightarrow> (r, RRefuse n malformed runnable tus))
      | _ \<Rightarrow>
          (case tool_step (tc_base tc) ((ue_tool ue)\<lparr>te_call := ue_call ue\<rparr>) tu r pc of
             (r1, pc1) \<Rightarrow> (r1, RRefusing n malformed runnable tu pc1 tus)))"
| "turn_step tc ue r (RCalls n cs) =
     (if all_done cs then (r, REnd n (map outcome_of cs)) else (r, RCalls n cs))"
| "turn_step tc ue r (REnd n os) = (r, endTurn n r os)"
| "turn_step tc ue r (RFinish how ctx) = finishInterrupt tc ue r how ctx"
| "turn_step tc ue r (RRest s ctx) = rest tc ue r s ctx"
| "turn_step tc ue r (RFail cls err ctx) = fail tc ue r cls err ctx"
| "turn_step tc ue r (RFailSync err ctx) = fail_sync tc ue r err ctx"
| "turn_step tc ue r (RClear s ret) = (clearInterrupt r, RSet s ret)"
| "turn_step tc ue r (RSet s ret) = (setState s r, RReturned ret)"
| "turn_step tc ue r RPanic = (r, RPanic)"

text \<open>
  The events of a schedule: a call of \<open>Run\<close> (refused, or taken up when no \<open>Run\<close> is executing), an
  action of its goroutine, an action of one of the message's calls, a call of \<open>Interrupt\<close>, and an
  entry another client of the session appends.
\<close>

datatype turn_event =
    RunCalled UserMessage
  | RunStep turn_env
  | ToolStep nat tool_env
  | InterruptCalled call_env Interrupt
  | OtherAppend call_env payload

definition turn_event_step :: "TurnConfig \<Rightarrow> Turn \<Rightarrow> turn_event \<Rightarrow> Turn" where
  "turn_event_step tc w ev =
     (case ev of
        RunCalled msg \<Rightarrow>
          (case tn_pc w of
             RReturned _ \<Rightarrow>
               (case claim_run msg (tn_runner w) of
                  Inl _ \<Rightarrow> w
                | Inr (r, starting) \<Rightarrow> w\<lparr>tn_runner := r, tn_pc := RMessage msg starting\<rparr>)
           | _ \<Rightarrow> w)
      | RunStep ue \<Rightarrow>
          (case turn_step tc ue (tn_runner w) (tn_pc w) of (r, pc) \<Rightarrow> w\<lparr>tn_runner := r, tn_pc := pc\<rparr>)
      | ToolStep i te \<Rightarrow>
          (case tn_pc w of
             RCalls n cs \<Rightarrow>
               (let f = fan_step (tc_base tc) \<lparr>fn_runner = tn_runner w, fn_calls = cs\<rparr> (CallStep i te)
                in w\<lparr>tn_runner := fn_runner f, tn_pc := RCalls n (fn_calls f)\<rparr>)
           | _ \<Rightarrow> w)
      | InterruptCalled env how \<Rightarrow> w\<lparr>tn_runner := Runner_Interrupt (tc_base tc) env how (tn_runner w)\<rparr>
      | OtherAppend env p \<Rightarrow> w\<lparr>tn_runner := fst (Runner_append (tc_base tc) env (tn_runner w) p)\<rparr>)"

definition new_turn :: "Session \<Rightarrow> overrides \<Rightarrow> Turn" where
  "new_turn s over = \<lparr>tn_runner = NewRunner s over, tn_pc = RReturned RetNil\<rparr>"

definition run_turn :: "TurnConfig \<Rightarrow> Turn \<Rightarrow> turn_event list \<Rightarrow> Turn" where
  "run_turn tc w evs = run_ops (turn_event_step tc) w evs"

section \<open>Compaction\<close>

lemma after_compact_cases:
  obtains "after_compact n am malformed = RRest Completed False" "filter (\<lambda>b. bl_Type b = BlockToolUse) (am_Content am) = []"
  | "after_compact n am malformed = RRefuse n malformed [] (filter (\<lambda>b. bl_Type b = BlockToolUse) (am_Content am))"
  by (cases "filter (\<lambda>b. bl_Type b = BlockToolUse) (am_Content am) = []") (simp_all add: after_compact_def)

lemma compact_cover_cases:
  obtains (past) "compact_cover tc ue r n am malformed = after_compact n am malformed"
  | (hooked) v where "compact_cover tc ue r n am malformed = RCompacted n am malformed v"
  | (asks) c cover where "compact_cover tc ue r n am malformed = RSummarize n am malformed c cover"
proof (cases "compaction_due tc am")
  case None
  then show thesis by (intro past) (simp add: compact_cover_def)
next
  case (Some c)
  let ?cover = "Cover (rn_session r) (rn_turn r)" and ?hs = "hook_summary (ue_summaries ue)"
  show thesis
  proof (cases "length ?cover < 2")
    case True
    with Some show thesis by (intro past) (simp add: compact_cover_def Let_def)
  next
    case False
    show thesis
    proof (cases "?hs = []")
      case True
      with Some False show thesis by (intro asks) (simp add: compact_cover_def Let_def)
    next
      case hs: False
      with Some False show thesis by (intro hooked) (simp add: compact_cover_def Let_def)
    qed
  qed
qed

lemma compact_summary_cases:
  obtains (past) "compact_summary ue r n am malformed c cover = after_compact n am malformed"
  | (answered) v where "compact_summary ue r n am malformed c cover = RCompacted n am malformed v"
proof (cases "summarize (c\<lparr>mc_Overrides := rn_overrides r\<rparr>) (ue_complete ue) (rn_session r) cover []")
  case (Inl e)
  then show thesis by (intro past) (simp add: compact_summary_def)
next
  case (Inr su)
  then show thesis by (cases su) (intro answered, simp add: compact_summary_def)
qed

text \<open>
  With nothing in between, the three actions leave the session \<open>Compact\<close> leaves and go on to the tool uses
  of the message.
\<close>

fun settle_compaction :: "nat \<Rightarrow> TurnConfig \<Rightarrow> turn_env \<Rightarrow> Runner \<times> turn_pc \<Rightarrow> Runner \<times> turn_pc" where
  "settle_compaction k tc ue (r, RSummarize n am m c cover) =
     (if k = 0 then (r, RSummarize n am m c cover) else settle_compaction (k - 1) tc ue (turn_step tc ue r (RSummarize n am m c cover)))"
| "settle_compaction k tc ue (r, RCompacted n am m v) = turn_step tc ue r (RCompacted n am m v)"
| "settle_compaction k tc ue (r, pc) = (r, pc)"

lemma compact_steps_refine:
  assumes "compaction_due tc am = Some c"
  shows "settle_compaction 1 tc ue (turn_step tc ue r (RCompact n am malformed)) =
    (r\<lparr>rn_session := fst (Compact (cf_lib (tc_base tc)) (ue_call ue) (c\<lparr>mc_Overrides := rn_overrides r\<rparr>)
       (ue_complete ue) (ue_summaries ue) (rn_session r) (rn_turn r) [])\<rparr>, after_compact n am malformed)"
proof -
  have past: "settle_compaction k tc ue (r', after_compact n am malformed) = (r', after_compact n am malformed)" for k r'
    by (rule after_compact_cases[of n am malformed]) simp_all
  show ?thesis
    using assms past
    by (auto simp: compact_cover_def compact_summary_def compact_append_def compaction_payload_def Compact_def Let_def
        split: sum.splits prod.splits)
qed

end
