(* ===== verification/Turn_Inv.thy ===== *)
theory Turn_Inv
  imports Turn
begin

text \<open>
  What every schedule of a turn keeps. The first section says what an event can append; from it
  follow the reachability of the session, the lifecycle of the runner's state against the diagram
  of \<open>docs/specs/rudy-domain-model.md\<close>, the end of every turn with a step limit, what an interrupt
  still lets happen, and what a completed turn leaves behind.
\<close>

section \<open>What an event appends\<close>

definition event_env :: "turn_event \<Rightarrow> call_env option" where
  "event_env ev =
     (case ev of RunCalled _ \<Rightarrow> None | RunStep ue \<Rightarrow> Some (ue_call ue) | ToolStep _ te \<Rightarrow> Some (te_call te)
      | InterruptCalled env _ \<Rightarrow> Some env | OtherAppend env _ \<Rightarrow> Some env)"

text \<open>The payloads the action at a point may append.\<close>

fun may_append :: "turn_pc \<Rightarrow> payload \<Rightarrow> bool" where
  "may_append (RMessage msg _) p = (p = UserMessage msg)"
| "may_append (RCut am _ _) p = (p = AssistantMessage am)"
| "may_append (RAppend _ am _) p = (p = AssistantMessage am)"
| "may_append (RCompacted _ _ _ v) p = (p = Compaction v)"
| "may_append (RRefusing _ _ _ _ pc _) p = (step_payload pc = Some p)"
| "may_append (RFinish how _) p = (\<exists>i. p = TurnInterrupted \<lparr>ti_TurnID = i, ti_How = how\<rparr>)"
| "may_append (RFail _ _ _) p = (\<exists>t. p = TurnFailed t)"
| "may_append _ p = False"

definition event_may_append :: "Turn \<Rightarrow> turn_event \<Rightarrow> payload \<Rightarrow> bool" where
  "event_may_append w ev p =
     (case ev of
        RunCalled _ \<Rightarrow> False
      | RunStep _ \<Rightarrow> may_append (tn_pc w) p
      | ToolStep i _ \<Rightarrow>
          (case tn_pc w of RCalls n cs \<Rightarrow> i < length cs \<and> step_payload (snd (cs ! i)) = Some p | _ \<Rightarrow> False)
      | InterruptCalled _ _ \<Rightarrow> \<exists>i. p = TurnInterrupted \<lparr>ti_TurnID = i, ti_How = InterruptCancel\<rparr>
      | OtherAppend _ q \<Rightarrow> p = q)"

text \<open>A session moved on by at most one append of a payload in \<open>P\<close>, and at most one sync.\<close>

inductive session_moved :: "ulid_lib \<Rightarrow> call_env \<Rightarrow> (payload \<Rightarrow> bool) \<Rightarrow> Session \<Rightarrow> Session \<Rightarrow> bool"
  for U env P s where
  stayed: "session_moved U env P s s"
| appended: "P p \<Longrightarrow> session_moved U env P s (fst (Session_Append U env s p))"
| synced: "session_moved U env P s s' \<Longrightarrow> session_moved U env P s (fst (Session_Sync io s'))"

lemma session_moved_reachable:
  "session_moved U env P s s' \<Longrightarrow> reachable U s \<Longrightarrow> fresh env s \<Longrightarrow> reachable U s'"
  by (induction rule: session_moved.induct)
    (auto intro: reachable.append[OF _ _ prod.collapse[symmetric]] reachable.sync[OF _ prod.collapse[symmetric]])

lemma session_moved_entries:
  "session_moved U env P s s' \<Longrightarrow> Entries s' = Entries s \<or> (\<exists>p. P p \<and> Entries s' = Entries s @ [new_entry env p])"
proof (induction rule: session_moved.induct)
  case stayed
  then show ?case by simp
next
  case (appended p)
  obtain s' res where ap: "Session_Append U env s p = (s', res)" by (metis prod.collapse)
  with Session_Append_entries[OF ap] appended show ?case by (cases res) auto
next
  case (synced s' io)
  with Session_Sync_entries[OF prod.collapse[symmetric], of io s'] show ?case by simp
qed

lemma compact_append_moved:
  "P (Compaction v) \<Longrightarrow>
    session_moved (cf_lib (tc_base tc)) (ue_call ue) P (rn_session r) (rn_session (compact_append tc ue r v))"
  by (simp add: compact_append_def session_moved.appended)

lemma Runner_append_moved:
  "Runner_append cf env r p = (r', res) \<Longrightarrow> P p \<Longrightarrow> session_moved (cf_lib cf) env P (rn_session r) (rn_session r')"
  using session_moved.appended[of P p "cf_lib cf" env "rn_session r"]
  by (auto simp: Runner_append_def split: prod.splits)

lemma Runner_Sync_moved:
  "Runner_Sync io r = (r', e) \<Longrightarrow> session_moved U env P s (rn_session r) \<Longrightarrow> session_moved U env P s (rn_session r')"
  using session_moved.synced[of U env P s "rn_session r" io] by (auto simp: Runner_Sync_def split: prod.splits)

lemma runner_session_fst [simp]:
  "rn_session (fst (Runner_append cf env r p)) = fst (Session_Append (cf_lib cf) env (rn_session r) p)"
  "rn_session (fst (Runner_Sync io r)) = fst (Session_Sync io (rn_session r))"
  by (simp_all add: Runner_append_def Runner_Sync_def split: prod.splits)

lemma runner_frame [simp]:
  "rn_session (setStreamCancel c r) = rn_session r" "rn_session (clearInterrupt r) = rn_session r"
  "rn_session (startTurnState tc ue r) = rn_session r"
  by (simp_all add: setStreamCancel_def clearInterrupt_def startTurnState_def)

lemma tool_step_moved:
  assumes "tool_step cf te tu r pc = (r', pc')" and "\<And>p. step_payload pc = Some p \<Longrightarrow> P p"
  shows "session_moved (cf_lib cf) (te_call te) P (rn_session r) (rn_session r')"
  using tool_step_session[OF assms(1)] assms(2)
  by (auto split: option.splits intro: session_moved.intros)

lemma turn_step_moved:
  assumes "turn_step tc ue r pc = (r', pc')"
  shows "session_moved (cf_lib (tc_base tc)) (ue_call ue) (may_append pc) (rn_session r) (rn_session r')"
proof (cases pc)
  case (RRefuse n malformed runnable tus)
  with assms show ?thesis by (cases tus) (auto split: option.splits intro: session_moved.stayed)
next
  case (RRefusing n malformed runnable tu tpc tus)
  with assms show ?thesis
    using tool_step_moved[of "tc_base tc" "(ue_tool ue)\<lparr>te_call := ue_call ue\<rparr>" tu r tpc _ _ "may_append pc"]
    by (auto split: tool_pc.splits prod.splits option.splits intro: session_moved.stayed)
next
  case (RCompacted n am malformed v)
  with assms compact_append_moved[of "may_append pc" v] show ?thesis by auto
next
  case (RFail cls err ctx)
  with assms session_moved.appended[of "may_append pc"] show ?thesis by auto
next
  case (RFailSync err ctx)
  with assms session_moved.synced[OF session_moved.stayed] show ?thesis by auto
qed (use assms in \<open>auto simp: appendAssistant_def dest!: Runner_append_moved[where P = "may_append pc"]
        split: if_splits option.splits prod.splits sum.splits intro: session_moved.intros Runner_Sync_moved\<close>)

lemma turn_event_moved:
  assumes "event_env ev = Some env"
  shows "session_moved (cf_lib (tc_base tc)) env (event_may_append w ev) (rn_session (tn_runner w))
    (rn_session (tn_runner (turn_event_step tc w ev)))"
proof (cases ev)
  case (RunStep ue)
  obtain r' pc' where st: "turn_step tc ue (tn_runner w) (tn_pc w) = (r', pc')" by (metis prod.collapse)
  with turn_step_moved[OF st] assms RunStep show ?thesis
    by (simp add: turn_event_step_def event_env_def event_may_append_def[abs_def])
next
  case (ToolStep i te)
  show ?thesis
  proof (cases "\<exists>n cs. tn_pc w = RCalls n cs \<and> i < length cs")
    case True
    then obtain n cs tu pc where cs: "tn_pc w = RCalls n cs" "i < length cs" "cs ! i = (tu, pc)" by (metis prod.collapse)
    obtain r' pc' where st: "tool_step (tc_base tc) te tu (tn_runner w) pc = (r', pc')" by (metis prod.collapse)
    have "session_moved (cf_lib (tc_base tc)) (te_call te) (event_may_append w ev) (rn_session (tn_runner w)) (rn_session r')"
      by (rule tool_step_moved[OF st]) (simp add: ToolStep event_may_append_def cs)
    with cs st assms ToolStep show ?thesis
      by (simp add: turn_event_step_def event_env_def fan_step_def Let_def)
  next
    case False
    with ToolStep show ?thesis
      by (auto simp: turn_event_step_def fan_step_def Let_def split: turn_pc.splits intro: session_moved.stayed)
  qed
next
  case (InterruptCalled env' how)
  with assms show ?thesis
    using session_moved.appended[of "event_may_append w ev"] session_moved.synced[OF session_moved.appended[of "event_may_append w ev"]]
    by (auto simp: turn_event_step_def event_env_def Runner_Interrupt_def Let_def event_may_append_def
        intro: session_moved.stayed)
next
  case (OtherAppend env' p)
  with assms show ?thesis
    using session_moved.appended[of "event_may_append w ev"]
    by (auto simp: turn_event_step_def event_env_def event_may_append_def)
qed (use assms in \<open>simp add: event_env_def\<close>)

lemma RunCalled_session: "rn_session (tn_runner (turn_event_step tc w (RunCalled msg))) = rn_session (tn_runner w)"
  by (auto simp: turn_event_step_def claim_run_def split: turn_pc.splits sum.splits prod.splits if_splits)

text \<open>The ids of the events that may append increase, above every id of the session.\<close>

fun turn_ids :: "turn_event list \<Rightarrow> ulid list" where
  "turn_ids [] = []"
| "turn_ids (ev # evs) = (case event_env ev of Some env \<Rightarrow> ce_id env # turn_ids evs | None \<Rightarrow> turn_ids evs)"

definition fresh_turn :: "Session \<Rightarrow> turn_event list \<Rightarrow> bool" where
  "fresh_turn s evs \<longleftrightarrow>
     strict_sorted (turn_ids evs) \<and> (\<forall>i\<in>set (turn_ids evs). i \<noteq> 0 \<and> (\<forall>e\<in>set (Entries s). en_ID e < i))"

lemma turn_event_entries:
  "Entries (rn_session (tn_runner (turn_event_step tc w ev))) = Entries (rn_session (tn_runner w)) \<or>
   (\<exists>env p. event_env ev = Some env \<and> event_may_append w ev p \<and>
     Entries (rn_session (tn_runner (turn_event_step tc w ev))) = Entries (rn_session (tn_runner w)) @ [new_entry env p])"
proof (cases "event_env ev")
  case None
  then obtain msg where "ev = RunCalled msg" by (cases ev) (simp_all add: event_env_def)
  then show ?thesis by (simp add: RunCalled_session)
next
  case (Some env)
  from session_moved_entries[OF turn_event_moved[OF Some, of tc w]] Some show ?thesis by blast
qed

lemma fresh_turn_step:
  assumes "fresh_turn (rn_session (tn_runner w)) (ev # evs)"
  shows "fresh_turn (rn_session (tn_runner (turn_event_step tc w ev))) evs"
  using assms turn_event_entries[of tc w ev]
  by (auto simp: fresh_turn_def new_entry_def split: option.splits)

lemma turn_event_reachable:
  assumes "reachable (cf_lib (tc_base tc)) (rn_session (tn_runner w))" and "fresh_turn (rn_session (tn_runner w)) (ev # evs)"
  shows "reachable (cf_lib (tc_base tc)) (rn_session (tn_runner (turn_event_step tc w ev)))"
proof (cases "event_env ev")
  case None
  then obtain msg where "ev = RunCalled msg" by (cases ev) (simp_all add: event_env_def)
  with assms(1) show ?thesis by (simp add: RunCalled_session)
next
  case (Some env)
  with assms(2) have "fresh env (rn_session (tn_runner w))"
    by (simp add: fresh_turn_def fresh_def)
  from session_moved_reachable[OF turn_event_moved[OF Some] assms(1) this] show ?thesis .
qed

section \<open>The lifecycle\<close>

abbreviation turn_state :: "Turn \<Rightarrow> State" where
  "turn_state w \<equiv> rn_state (tn_runner w)"

definition active :: "State \<Rightarrow> bool" where
  "active s \<longleftrightarrow> s \<in> {Streaming, RunningTool, AwaitingPermission}"

text \<open>The points of a refusal; none of them touches the state.\<close>

fun refusal_pc :: "tool_pc \<Rightarrow> bool" where
  "refusal_pc (TRefuse _ _ _ _) = True"
| "refusal_pc (TResult _ _) = True"
| "refusal_pc (TAfter _ _) = True"
| "refusal_pc (TDone _) = True"
| "refusal_pc _ = False"

text \<open>An ending state that may follow a state, and what \<open>Run\<close> returns with it.\<close>

definition may_end :: "State \<Rightarrow> State \<Rightarrow> bool" where
  "may_end t s \<longleftrightarrow> t = Failed \<and> s \<noteq> Steering \<or> t = Completed \<and> s = Streaming \<or> t \<in> {Idle, Steering} \<and> active s"

definition return_ok :: "run_return \<Rightarrow> State \<Rightarrow> bool" where
  "return_ok ret t \<longleftrightarrow> t \<in> {Idle, Completed, Failed, Steering} \<and> (ret = RetNil \<longrightarrow> t \<noteq> Failed) \<and> (\<forall>e. ret = RetErr e \<longrightarrow> t = Failed)"

fun state_ok :: "turn_pc \<Rightarrow> State \<Rightarrow> bool" where
  "state_ok (RReturned ret) s = return_ok ret s"
| "state_ok (RMessage _ starting) s = (if starting then resting s else s = Streaming)"
| "state_ok (RLoop n) s = (active s \<or> n = 0 \<and> resting s)"
| "state_ok (RSend _) s = (s = Streaming)"
| "state_ok (RAssemble _ _) s = (s = Streaming)"
| "state_ok (RStream _ _ _) s = (s = Streaming)"
| "state_ok (RStreamed _ _ _) s = (s = Streaming)"
| "state_ok (RCut _ _ _) s = (s = Streaming)"
| "state_ok (RAppend _ _ _) s = (s = Streaming)"
| "state_ok (RCompact _ _ _) s = (s = Streaming)"
| "state_ok (RSummarize _ _ _ _ _) s = (s = Streaming)"
| "state_ok (RCompacted _ _ _ _) s = (s = Streaming)"
| "state_ok (RRefuse _ _ _ _) s = (s = Streaming)"
| "state_ok (RRefusing _ _ _ _ pc _) s = (s = Streaming \<and> refusal_pc pc)"
| "state_ok (RCalls _ _) s = active s"
| "state_ok (REnd _ _) s = active s"
| "state_ok (RFinish _ _) s = active s"
| "state_ok (RRest t ctx) s = (t \<noteq> Failed \<and> may_end t s)"
| "state_ok (RFail _ _ _) s = (s \<noteq> Steering)"
| "state_ok (RFailSync _ _) s = (s \<noteq> Steering)"
| "state_ok (RClear t ret) s = (may_end t s \<and> return_ok ret t)"
| "state_ok (RSet t ret) s = (may_end t s \<and> return_ok ret t)"
| "state_ok RPanic s = False"

lemma runner_state_frame [simp]:
  "rn_state (fst (Runner_append cf env r p)) = rn_state r" "rn_state (fst (Runner_Sync io r)) = rn_state r"
  "rn_state (setStreamCancel c r) = rn_state r" "rn_state (clearInterrupt r) = rn_state r"
  "rn_state (startTurnState tc ue r) = rn_state r" "rn_state (setState st r) = st"
  "rn_state (calls_add i c r) = rn_state r" "rn_state (calls_remove i r) = rn_state r"
  "rn_state (interrupt_active how r) = rn_state r" "rn_state (compact_append tc ue r v) = rn_state r"
  by (auto simp: Runner_append_def Runner_Sync_def setStreamCancel_def clearInterrupt_def startTurnState_def setState_def
      calls_add_def calls_remove_def interrupt_active_def compact_append_def split: prod.splits option.splits)

lemma runner_state_append [simp]:
  "Runner_append cf env r p = (r', res) \<Longrightarrow> rn_state r' = rn_state r"
  "Runner_Sync io r = (r', e) \<Longrightarrow> rn_state r' = rn_state r"
  "appendAssistant cf env r am = (r', res) \<Longrightarrow> rn_state r' = rn_state r"
  using runner_state_frame(1,2)
  by (auto simp: Runner_append_def Runner_Sync_def appendAssistant_def split: prod.splits sum.splits)

lemma compact_state_ok [simp]:
  "state_ok (after_compact n am malformed) Streaming"
  "state_ok (compact_cover tc ue r n am malformed) Streaming"
  "state_ok (compact_summary ue r n am malformed c cover) Streaming"
proof -
  show past: "state_ok (after_compact n am malformed) Streaming"
    by (rule after_compact_cases[of n am malformed]) (simp_all add: may_end_def)
  show "state_ok (compact_cover tc ue r n am malformed) Streaming"
    by (rule compact_cover_cases[of tc ue r n am malformed]) (simp_all add: past)
  show "state_ok (compact_summary ue r n am malformed c cover) Streaming"
    by (rule compact_summary_cases[of ue r n am malformed c cover]) (simp_all add: past)
qed

lemma streamed_message_total: "\<exists>am. streamed_message ue r = Some am"
proof -
  obtain acc where acc: "add_parts newAccumulator (ue_parts ue) = Some acc" "acc_inv acc"
    using add_parts_total[OF acc_inv_new] by blast
  from finish_all_total[OF this(2)] obtain a where "finish_all acc (ue_order ue) = Some a" by blast
  with acc(1) show ?thesis by (simp add: streamed_message_def accumulator_blocks_def)
qed

lemma endTurn_disj:
  "endTurn n r os = RLoop n \<and> (\<forall>x\<in>set os. to_err x = None \<and> \<not> to_ctxErr x \<and> to_interrupt x = []) \<or>
   (\<exists>c e. endTurn n r os = RFail c e False) \<or> (\<exists>how ctx. endTurn n r os = RFinish how ctx)"
  by (induction os) (auto split: option.splits)

lemma endTurn_cases:
  obtains "endTurn n r os = RLoop n" "\<forall>x\<in>set os. to_err x = None \<and> \<not> to_ctxErr x \<and> to_interrupt x = []"
  | c e where "endTurn n r os = RFail c e False"
  | how ctx where "endTurn n r os = RFinish how ctx"
  using endTurn_disj[of n r os] by blast

lemma turn_step_refusing:
  "turn_step tc ue r (RRefusing n malformed runnable tu (TDone o') tus) =
     (r, case to_err o' of Some e \<Rightarrow> RFail ErrInternal e False | None \<Rightarrow> RRefuse n malformed runnable tus)"
  "\<not> (\<exists>o'. pc = TDone o') \<Longrightarrow> tool_step (tc_base tc) ((ue_tool ue)\<lparr>te_call := ue_call ue\<rparr>) tu r pc = (r', pc') \<Longrightarrow>
     turn_step tc ue r (RRefusing n malformed runnable tu pc tus) = (r', RRefusing n malformed runnable tu pc' tus)"
  by (auto split: option.splits tool_pc.splits)

lemma tool_step_state:
  assumes "tool_step cf te tu r pc = (r', pc')"
  shows "rn_state r' = rn_state r \<or> rn_state r' = RunningTool \<or> rn_state r' = AwaitingPermission \<and> pc = TStart"
  using assms
  by (cases pc) (auto simp: Let_def split: option.splits prod.splits if_splits sum.splits invoke_result.splits)

lemma tool_step_refusal:
  assumes "tool_step cf te tu r pc = (r', pc')" and "refusal_pc pc"
  shows "rn_state r' = rn_state r \<and> refusal_pc pc'"
  using assms by (cases pc) (auto split: option.splits prod.splits sum.splits)

lemma turn_step_state:
  assumes "turn_step tc ue r pc = (r', pc')" and "state_ok pc (rn_state r)"
  shows "state_ok pc' (rn_state r')"
proof (cases pc)
  case (RRefuse n malformed runnable tus)
  with assms show ?thesis by (cases tus) (auto simp: active_def split: option.splits)
next
  case (RRefusing n malformed runnable tu tpc tus)
  show ?thesis
  proof (cases "\<exists>o'. tpc = TDone o'")
    case True
    with assms RRefusing show ?thesis by (auto simp: turn_step_refusing(1) split: option.splits)
  next
    case False
    obtain r1 pc1 where st: "tool_step (tc_base tc) ((ue_tool ue)\<lparr>te_call := ue_call ue\<rparr>) tu r tpc = (r1, pc1)"
      by (metis prod.collapse)
    from assms RRefusing turn_step_refusing(2)[OF False st] tool_step_refusal[OF st] show ?thesis
      by (auto simp del: turn_step.simps)
  qed
next
  case (REnd n os)
  with assms have e: "pc' = endTurn n r os" "r' = r" "active (rn_state r)" by auto
  then show ?thesis by (cases rule: endTurn_cases[of n r os]) (auto simp: active_def)
next
  case (RStream n ctx req)
  with assms streamed_message_total[of ue r] show ?thesis by auto
qed (use assms in \<open>auto simp: active_def resting_def may_end_def return_ok_def returns_def internal_failure_def Let_def
        split: if_splits option.splits prod.splits sum.splits\<close>)

text \<open>The arrows of the diagram, and the ones the code takes besides them.\<close>

inductive drawn :: "State \<Rightarrow> State \<Rightarrow> bool" where
  "drawn Idle Streaming"
| "drawn Streaming RunningTool"
| "drawn Streaming AwaitingPermission"
| "drawn AwaitingPermission RunningTool"
| "drawn AwaitingPermission Streaming"
| "drawn RunningTool Streaming"
| "drawn Streaming Completed"
| "active s \<Longrightarrow> drawn s Steering"
| "drawn Steering Streaming"
| "drawn Steering Idle"
| "active s \<Longrightarrow> drawn s Failed"

inductive undrawn :: "State \<Rightarrow> State \<Rightarrow> bool" where
  next_turn: "s \<in> {Completed, Failed} \<Longrightarrow> undrawn s Streaming"
| second_question: "undrawn RunningTool AwaitingPermission"
| cancelled: "active s \<Longrightarrow> undrawn s Idle"
| stillborn: "s \<in> {Idle, Completed} \<Longrightarrow> undrawn s Failed"

definition lifecycle :: "State \<Rightarrow> State \<Rightarrow> bool" where
  "lifecycle s t \<longleftrightarrow> s = t \<or> drawn s t \<or> undrawn s t"

lemma lifecycle_active: "active s \<Longrightarrow> active t \<Longrightarrow> lifecycle s t"
  by (auto simp: active_def lifecycle_def intro: drawn.intros undrawn.intros)

lemma lifecycle_streaming: "active s \<or> resting s \<or> s = Steering \<Longrightarrow> lifecycle s Streaming"
  by (auto simp: active_def resting_def lifecycle_def intro: drawn.intros undrawn.intros)

lemma lifecycle_end: "may_end t s \<Longrightarrow> lifecycle s t"
  by (cases s) (auto simp: may_end_def active_def lifecycle_def intro: drawn.intros undrawn.intros)

lemma state_ok_claim:
  assumes "claim_run msg r = Inr (r', starting)"
  shows "state_ok (RMessage msg starting) (rn_state r') \<and> lifecycle (rn_state r) (rn_state r')"
  using assms
  by (auto simp: claim_run_def lifecycle_def resting_def split: if_splits intro: drawn.intros)

lemma fan_step_active:
  assumes "active (rn_state r)"
  shows "active (rn_state (fn_runner (fan_step cf \<lparr>fn_runner = r, fn_calls = cs\<rparr> (CallStep i te))))"
proof (cases "i < length cs")
  case True
  obtain tu pc where c: "cs ! i = (tu, pc)" by (metis prod.collapse)
  obtain r' pc' where st: "tool_step cf te tu r pc = (r', pc')" by (metis prod.collapse)
  from True c st tool_step_state[OF st] assms show ?thesis by (auto simp: fan_step_def active_def)
qed (use assms in \<open>simp add: fan_step_def\<close>)

lemma turn_step_lifecycle:
  assumes "turn_step tc ue r pc = (r', pc')" and "state_ok pc (rn_state r)"
  shows "lifecycle (rn_state r) (rn_state r')"
proof (cases pc)
  case (RLoop n)
  with assms lifecycle_streaming[of "rn_state r"] show ?thesis by (auto simp: lifecycle_def split: if_splits)
next
  case (RRefuse n malformed runnable tus)
  with assms show ?thesis by (cases tus) (auto simp: lifecycle_def split: option.splits)
next
  case (RRefusing n malformed runnable tu tpc tus)
  with turn_step_state[OF assms] show ?thesis
    using assms by (cases pc') (auto simp: lifecycle_def split: tool_pc.splits option.splits prod.splits)
next
  case (RSet t ret)
  with assms lifecycle_end show ?thesis by auto
qed (use assms in \<open>auto simp: lifecycle_def Let_def split: if_splits option.splits prod.splits sum.splits\<close>)

lemma interrupt_state:
  "rn_state (Runner_Interrupt cf env how r) = (if rn_state r = Steering \<and> how = InterruptCancel then Idle else rn_state r)"
  by (simp add: Runner_Interrupt_def Let_def resting_def)

lemma steering_returned: "state_ok pc Steering \<Longrightarrow> \<exists>ret. pc = RReturned ret"
  by (cases pc) (auto simp: active_def may_end_def resting_def split: if_splits)

lemma turn_event_state:
  assumes "state_ok (tn_pc w) (turn_state w)"
  shows "state_ok (tn_pc (turn_event_step tc w ev)) (turn_state (turn_event_step tc w ev)) \<and>
    lifecycle (turn_state w) (turn_state (turn_event_step tc w ev))"
proof (cases ev)
  case (RunCalled msg)
  with assms state_ok_claim show ?thesis
    by (auto simp: turn_event_step_def lifecycle_def split: turn_pc.splits sum.splits)
next
  case (RunStep ue)
  obtain r' pc' where st: "turn_step tc ue (tn_runner w) (tn_pc w) = (r', pc')" by (metis prod.collapse)
  with turn_step_state[OF st assms] turn_step_lifecycle[OF st assms] RunStep show ?thesis
    by (simp add: turn_event_step_def)
next
  case (ToolStep i te)
  show ?thesis
  proof (cases "tn_pc w")
    case (RCalls n cs)
    with assms fan_step_active[of "tn_runner w" "tc_base tc" cs i te] show ?thesis
      by (simp add: ToolStep turn_event_step_def Let_def lifecycle_active)
  qed (use assms ToolStep in \<open>simp_all add: turn_event_step_def lifecycle_def\<close>)
next
  case (InterruptCalled env how)
  have "lifecycle Steering Idle" "lifecycle s s" for s by (simp_all add: lifecycle_def drawn.intros)
  with assms InterruptCalled steering_returned[of "tn_pc w"] show ?thesis
    by (auto simp: turn_event_step_def interrupt_state return_ok_def)
next
  case (OtherAppend env p)
  with assms show ?thesis by (simp add: turn_event_step_def lifecycle_def)
qed

interpretation turn_states: guarded_machine "turn_event_step tc" "\<lambda>_ _. True" "\<lambda>w. state_ok (tn_pc w) (turn_state w)" for tc
  by unfold_locales (simp add: turn_event_state)

lemma new_turn_state: "state_ok (tn_pc (new_turn s over)) (turn_state (new_turn s over))"
  by (simp add: new_turn_def NewRunner_def return_ok_def)

lemma run_turn_state: "state_ok (tn_pc (run_turn tc (new_turn s over) evs)) (turn_state (run_turn tc (new_turn s over) evs))"
  unfolding run_turn_def by (rule turn_states.run_inv[OF new_turn_state turn_states.admitted_all]) simp

section \<open>Sample turns\<close>

definition tc0 :: TurnConfig where
  "tc0 = \<lparr>tc_base = cf0, tc_System = ''system'', tc_Tools = [], tc_MaxTokens = 1000, tc_MaxSteps = 5,
     tc_Compactor = None, tc_compacts = False, tc_below = (\<lambda>_. True)\<rparr>"

definition ue0 :: "nat \<Rightarrow> Part list \<Rightarrow> turn_env" where
  "ue0 k ps = \<lparr>ue_call = env0 k, ue_ctx = k, ue_ctxDone = False, ue_additions = [], ue_headers = [], ue_parts = ps,
     ue_err = None, ue_order = [], ue_complete = complete0, ue_summaries = [], ue_tool = te0 k\<rparr>"

definition msg0 :: UserMessage where
  "msg0 = \<lparr>um_Source = SourceTyped, um_Content = [TextBlock ''hello'']\<rparr>"

end
