(* ===== verification/Turn_Samples.thy ===== *)
theory Turn_Samples
  imports Turn_Inv
begin

text \<open>
  Concrete schedules of a turn on the sample session, with the states they lead to: a turn that has
  just sent its first request (\<open>start0\<close>), and one that was steered while its stream held a complete
  tool use (\<open>steer0\<close>) and is about to rest. They are evaluated step by step, each append by the
  lemma on appends to a session whose log takes writes.
\<close>

definition start0 :: "turn_event list" where
  "start0 = [RunCalled msg0, RunStep (ue0 3 []), RunStep (ue0 4 []), RunStep (ue0 5 [])]"

lemmas turn_eval = run_turn_def turn_event_step_def tc0_def ue0_def cf0_def Runner_append_def Runner_Sync_def
  setState_def startTurnState_def setStreamCancel_def

lemma start0_run:
  obtains s where "run_turn tc0 (new_turn root0 Map.empty) start0 =
      \<lparr>tn_runner = (NewRunner s Map.empty)\<lparr>rn_system := ''system'', rn_state := Streaming, rn_turn := 4,
         rn_streamCancel := Some 5\<rparr>, tn_pc = RAssemble 1 5\<rparr>"
    "log_ready s" "s_inherited s = []" "Entries s = entries0 0 [SessionOpened opened0] @ [new_entry (env0 3) (UserMessage msg0)]"
proof -
  have "append_guard (ulid_ParseStrict ulid0) [] (entries0 0 [SessionOpened opened0]) (UserMessage msg0) = None" by code_simp
  with root0_shape have "append_guard (ulid_ParseStrict ulid0) [] (Entries root0) (UserMessage msg0) = None" by simp
  from sample_append[OF _ _ this, of 3] root0_shape obtain s where
    s: "Session_Append ulid0 (env0 3) root0 (UserMessage msg0) = (s, Inr (new_entry (env0 3) (UserMessage msg0)))"
    "Entries s = Entries root0 @ [new_entry (env0 3) (UserMessage msg0)]" "log_ready s" "s_inherited s = []" by metis
  have id: "en_ID (new_entry (env0 3) (UserMessage msg0)) = 4" by (simp add: new_entry_def env0_def)
  have "run_turn tc0 (new_turn root0 Map.empty) start0 =
      \<lparr>tn_runner = (NewRunner s Map.empty)\<lparr>rn_system := ''system'', rn_state := Streaming, rn_turn := 4,
         rn_streamCancel := Some 5\<rparr>, tn_pc = RAssemble 1 5\<rparr>"
    using s(1) id
    by (simp add: turn_eval start0_def new_turn_def NewRunner_def claim_run_def resting_def newInflight_def
      inflight_reset_def msg0_def enum_defs)
  with that s root0_shape show ?thesis by simp
qed

definition parts1 :: "Part list" where
  "parts1 = [part0 PartToolUseStart ''t1'' ''bash'' [], part0 PartToolUseDelta ''t1'' [] ''{}'', part0 PartToolUseEnd ''t1'' [] []]"

definition steer0 :: "turn_event list" where
  "steer0 = [RunStep (ue0 6 []), InterruptCalled (env0 7) InterruptSteer, RunStep (ue0 8 parts1), RunStep (ue0 9 []),
     RunStep (ue0 10 []), RunStep (ue0 11 [])]"

definition rest0 :: "turn_event list" where
  "rest0 = [RunStep (ue0 13 []), RunStep (ue0 14 []), RunStep (ue0 15 [])]"

definition cut0 :: AssistantMessage where
  "cut0 = \<lparr>am_Model = model0, am_Thinking = thinking_in (entries0 0 [SessionOpened opened0]), am_Content = [use0 ''t1''], am_Usage = zero_Usage,
     am_StopReason = StopInterrupted, am_StopReasonRaw = []\<rparr>"

lemma parts1_message:
  assumes "Entries (rn_session r) = entries0 0 [SessionOpened opened0] @ [new_entry (env0 3) (UserMessage msg0)]"
  obtains am where "streamed_message (ue0 8 parts1) r = Some am" "cut_message am = cut0"
proof -
  have "map_option (\<lambda>a. (ac_blocksOut a, ac_usage a, ac_stop a, ac_stopRaw a)) (add_parts newAccumulator parts1) =
    Some ([use0 ''t1''], zero_Usage, [], [])" by code_simp
  then obtain acc where acc: "add_parts newAccumulator parts1 = Some acc" "ac_blocksOut acc = [use0 ''t1'']"
    "ac_usage acc = zero_Usage" "ac_stop acc = []" "ac_stopRaw acc = []" by auto
  have "model_in (Entries (rn_session r)) = model0" "thinking_in (Entries (rn_session r)) = thinking_in (entries0 0 [SessionOpened opened0])"
    unfolding assms by code_simp+
  then have "streamed_message (ue0 8 parts1) r = Some (cut0\<lparr>am_StopReason := StopOther\<rparr>)"
    using acc
    by (simp add: streamed_message_def ue0_def accumulator_blocks_def Session_Model_def Session_Thinking_def cut0_def)
  moreover have "cut_message (cut0\<lparr>am_StopReason := StopOther\<rparr>) = cut0" by code_simp
  ultimately show ?thesis using that by blast
qed

text \<open>The steered turn when its stream has ended, and what it does from there.\<close>

lemma streamed0_run:
  obtains r am where "run_turn tc0 (new_turn root0 Map.empty) (start0 @ take 3 steer0) = \<lparr>tn_runner = r, tn_pc = RStreamed 1 am None\<rparr>"
    "cut_message am = cut0" "rn_state r = Streaming" "rn_interrupt r = InterruptSteer" "log_ready (rn_session r)"
    "s_inherited (rn_session r) = []"
    "Entries (rn_session r) = entries0 0 [SessionOpened opened0] @ [new_entry (env0 3) (UserMessage msg0)]"
proof -
  obtain s where s: "run_turn tc0 (new_turn root0 Map.empty) start0 =
      \<lparr>tn_runner = (NewRunner s Map.empty)\<lparr>rn_system := ''system'', rn_state := Streaming, rn_turn := 4,
         rn_streamCancel := Some 5\<rparr>, tn_pc = RAssemble 1 5\<rparr>"
    "log_ready s" "s_inherited s = []" "Entries s = entries0 0 [SessionOpened opened0] @ [new_entry (env0 3) (UserMessage msg0)]"
    by (rule start0_run)
  define r where "r = interrupt_active InterruptSteer ((NewRunner s Map.empty)\<lparr>rn_system := ''system'', rn_state := Streaming,
    rn_turn := 4, rn_streamCancel := Some 5\<rparr>)"
  have r: "rn_session r = s" "rn_state r = Streaming" "rn_interrupt r = InterruptSteer"
    by (simp_all add: r_def NewRunner_def interrupt_active_def inflight_cancelAll_def enum_defs)
  obtain am where am: "streamed_message (ue0 8 parts1) r = Some am" "cut_message am = cut0"
    by (rule parts1_message[of r]) (simp add: r s)
  have "run_turn tc0 (new_turn root0 Map.empty) (start0 @ take 3 steer0) = \<lparr>tn_runner = r, tn_pc = RStreamed 1 am None\<rparr>"
    using s(1) am(1) by (simp add: run_turn_def turn_event_step_def steer0_def r_def Runner_Interrupt_def resting_def ue0_def)
  with that am(2) r s(2-4) show ?thesis by simp
qed

lemma steer0_run:
  obtains s r where "run_turn tc0 (new_turn root0 Map.empty) (start0 @ steer0) = \<lparr>tn_runner = r, tn_pc = RRest Steering False\<rparr>"
    "rn_session r = s" "rn_state r = Streaming" "rn_interrupt r = InterruptSteer" "log_ready s" "s_inherited s = []"
    "Entries s = entries0 0 [SessionOpened opened0] @ [new_entry (env0 3) (UserMessage msg0), new_entry (env0 10) (AssistantMessage cut0)]"
proof -
  obtain r am where r: "run_turn tc0 (new_turn root0 Map.empty) (start0 @ take 3 steer0) = \<lparr>tn_runner = r, tn_pc = RStreamed 1 am None\<rparr>"
    "cut_message am = cut0" "rn_state r = Streaming" "rn_interrupt r = InterruptSteer" "log_ready (rn_session r)"
    "s_inherited (rn_session r) = []"
    "Entries (rn_session r) = entries0 0 [SessionOpened opened0] @ [new_entry (env0 3) (UserMessage msg0)]"
    by (rule streamed0_run)
  let ?s = "rn_session r"
  have "append_guard (ulid_ParseStrict ulid0) [] (entries0 0 [SessionOpened opened0] @ [new_entry (env0 3) (UserMessage msg0)])
    (AssistantMessage cut0) = None" by code_simp
  then have g: "append_guard (ulid_ParseStrict ulid0) [] (Entries ?s) (AssistantMessage cut0) = None" unfolding r(7) .
  obtain s1 where s1: "Session_Append ulid0 (env0 10) ?s (AssistantMessage cut0) = (s1, Inr (new_entry (env0 10) (AssistantMessage cut0)))"
    "Entries s1 = Entries ?s @ [new_entry (env0 10) (AssistantMessage cut0)]" "log_ready s1" "s_inherited s1 = []"
    by (rule sample_append[OF r(5,6) g, of 10])
  have "run_turn tc0 \<lparr>tn_runner = r, tn_pc = RStreamed 1 am None\<rparr> (drop 3 steer0) =
    \<lparr>tn_runner = r\<lparr>rn_session := s1, rn_turnUsage := Usage_Add (rn_turnUsage r) (am_Usage cut0)\<rparr>, tn_pc = RRest Steering False\<rparr>"
    using r(2,4) s1(1) by (simp add: run_turn_def turn_event_step_def steer0_def observeInterrupt_def appendAssistant_def
      Runner_append_def tc0_def cf0_def ue0_def enum_defs)
  moreover have "start0 @ steer0 = (start0 @ take 3 steer0) @ drop 3 steer0" by simp
  ultimately have "run_turn tc0 (new_turn root0 Map.empty) (start0 @ steer0) =
    \<lparr>tn_runner = r\<lparr>rn_session := s1, rn_turnUsage := Usage_Add (rn_turnUsage r) (am_Usage cut0)\<rparr>, tn_pc = RRest Steering False\<rparr>"
    using r(1) unfolding run_turn_def by (simp only: run_ops_append)
  with that s1 r show ?thesis by simp
qed

end
