(* ===== verification/Turn_Settled.thy ===== *)
theory Turn_Settled
  imports Turn_Samples
begin

text \<open>
  What every turn keeps of the log, the lifecycle of its state against the diagram of the domain
  model, and what a completed turn leaves behind: no tool use of the turn without a result. The
  invariant \<open>settled\<close> names, for each point of the turn, the tool uses that may still be open.
\<close>

section \<open>One call answers its tool use\<close>

definition call_ids :: "Entry list \<Rightarrow> Block \<Rightarrow> tool_pc \<Rightarrow> bool" where
  "call_ids es tu pc \<longleftrightarrow>
     (case pc of
        TAsk _ _ d _ \<Rightarrow> pd_ToolUseID d = bl_ID tu
      | TDecide _ d _ \<Rightarrow> pd_ToolUseID d = bl_ID tu
      | TRefuse d _ _ _ \<Rightarrow> pd_ToolUseID d = bl_ID tu
      | TResult tr _ \<Rightarrow> tr_ToolUseID tr = bl_ID tu
      | TAfter _ _ \<Rightarrow> bl_ID tu \<in> result_ids es
      | TDone o' \<Rightarrow> to_err o' = None \<longrightarrow> bl_ID tu \<in> result_ids es
      | _ \<Rightarrow> True)"

lemma call_ids_mono: "call_ids es tu pc \<Longrightarrow> result_ids es \<subseteq> result_ids es' \<Longrightarrow> call_ids es' tu pc"
  by (auto simp: call_ids_def split: tool_pc.splits)

lemma result_ids_mono: "result_ids es \<subseteq> result_ids (es @ new)"
  by (auto simp: result_ids_def)

lemma Runner_append_result:
  assumes "Runner_append cf env r (ToolResult tr) = (r', Inr e)"
  shows "tr_ToolUseID tr \<in> result_ids (Entries (rn_session r'))"
  using assms by (cases rule: Runner_append_cases) (auto simp: new_entry_def)

lemma tool_step_ids:
  assumes "tool_step cf te tu r pc = (r', pc')" and "call_ids (Entries (rn_session r)) tu pc"
  shows "call_ids (Entries (rn_session r')) tu pc'"
proof (cases pc)
  case TStart
  with assms(1) first_decision_id[of cf r tu] show ?thesis
    by (auto simp: call_ids_def classDeny_def split: option.splits prod.splits if_splits)
next
  case (TResult tr o')
  with assms show ?thesis
    by (auto simp: call_ids_def dest: Runner_append_result split: prod.splits sum.splits)
next
  case (TAfter i o')
  with assms show ?thesis by (auto simp: call_ids_def split: option.splits)
qed (use assms in \<open>auto simp: call_ids_def answered_id text_result_def killed_result_def run_result_def Let_def
      split: option.splits prod.splits if_splits sum.splits invoke_result.splits\<close>)

section \<open>The open tool uses of a turn\<close>

text \<open>The ids of the tool uses after the entries \<open>old\<close> that have no result.\<close>

definition open_ids :: "Entry list \<Rightarrow> Entry list \<Rightarrow> bytes set" where
  "open_ids old es = bl_ID ` set (tool_uses (drop (length old) es)) - result_ids es"

definition uses_in :: "AssistantMessage \<Rightarrow> bytes set" where
  "uses_in am = bl_ID ` {b \<in> set (am_Content am). bl_Type b = BlockToolUse}"

fun settled :: "Entry list \<Rightarrow> turn_pc \<Rightarrow> Runner \<Rightarrow> bool" where
  "settled old (RCompact _ am _) r = (open_ids old (Entries (rn_session r)) \<subseteq> uses_in am)"
| "settled old (RSummarize _ am _ _ _) r = (open_ids old (Entries (rn_session r)) \<subseteq> uses_in am)"
| "settled old (RCompacted _ am _ _) r = (open_ids old (Entries (rn_session r)) \<subseteq> uses_in am)"
| "settled old (RRefuse _ _ runnable tus) r =
     (open_ids old (Entries (rn_session r)) \<subseteq> bl_ID ` set (runnable @ tus))"
| "settled old (RRefusing _ _ runnable tu pc tus) r =
     (open_ids old (Entries (rn_session r)) \<subseteq> bl_ID ` set (runnable @ tu # tus) \<and> call_ids (Entries (rn_session r)) tu pc)"
| "settled old (RCalls _ cs) r =
     (open_ids old (Entries (rn_session r)) \<subseteq> bl_ID ` fst ` set cs \<and>
      (\<forall>(tu, pc)\<in>set cs. call_ids (Entries (rn_session r)) tu pc))"
| "settled old (REnd _ os) r =
     ((\<forall>x\<in>set os. to_err x = None) \<longrightarrow> open_ids old (Entries (rn_session r)) = {})"
| "settled old (RCut _ _ _) r = True"
| "settled old (RFinish _ _) r = True"
| "settled old (RRest s _) r = (s = Completed \<longrightarrow> open_ids old (Entries (rn_session r)) = {})"
| "settled old (RFail _ _ _) r = True"
| "settled old (RFailSync _ _) r = True"
| "settled old (RClear s _) r = (s = Completed \<longrightarrow> open_ids old (Entries (rn_session r)) = {})"
| "settled old (RSet s _) r = (s = Completed \<longrightarrow> open_ids old (Entries (rn_session r)) = {})"
| "settled old (RReturned _) r = (rn_state r = Completed \<longrightarrow> open_ids old (Entries (rn_session r)) = {})"
| "settled old pc r = (open_ids old (Entries (rn_session r)) = {})"

text \<open>What a payload adds to the open tool uses.\<close>

lemma open_ids_snoc:
  assumes "length old \<le> length es"
  shows "open_ids old (es @ [new_entry env p]) \<subseteq> open_ids old es \<union> bl_ID ` set (tool_uses_of p)"
  using assms by (auto simp: open_ids_def new_entry_def split: payload.splits)

lemma uses_of_message: "bl_ID ` set (tool_uses_of (AssistantMessage am)) = uses_in am"
  by (auto simp: tool_uses_of_def uses_in_def)

lemma moved_settled:
  assumes "session_moved U env P s s'" and "length old \<le> length (Entries s)" and "\<And>p. P p \<Longrightarrow> tool_uses_of p = []"
  shows "open_ids old (Entries s') \<subseteq> open_ids old (Entries s) \<and> result_ids (Entries s) \<subseteq> result_ids (Entries s') \<and>
    length old \<le> length (Entries s')"
  using session_moved_entries[OF assms(1)] assms(2,3) open_ids_snoc[OF assms(2), of env] result_ids_mono by fastforce

lemma step_payload_uses: "step_payload pc = Some p \<Longrightarrow> tool_uses_of p = []"
  by (auto simp: step_payload_def tool_uses_of_def split: tool_pc.splits)

lemma may_append_uses:
  "may_append pc p \<Longrightarrow> (\<forall>am how ctx. pc \<noteq> RCut am how ctx) \<Longrightarrow> (\<forall>n am m. pc \<noteq> RAppend n am m) \<Longrightarrow> tool_uses_of p = []"
  by (cases pc) (auto simp: tool_uses_of_def dest: step_payload_uses[unfolded tool_uses_of_def])

lemma turn_step_open:
  assumes "turn_step tc ue r pc = (r', pc')" and "length old \<le> length (Entries (rn_session r))"
    and "\<forall>am how ctx. pc \<noteq> RCut am how ctx" and "\<forall>n am m. pc \<noteq> RAppend n am m"
  shows "open_ids old (Entries (rn_session r')) \<subseteq> open_ids old (Entries (rn_session r))"
    and "result_ids (Entries (rn_session r)) \<subseteq> result_ids (Entries (rn_session r'))"
  using moved_settled[OF turn_step_moved[OF assms(1)] assms(2)] may_append_uses[OF _ assms(3,4)] by blast+

lemma all_done_settled:
  assumes "all_done cs" and "\<forall>(tu, pc)\<in>set cs. call_ids es tu pc" and "\<forall>x\<in>set (map outcome_of cs). to_err x = None"
    and "open_ids old es \<subseteq> bl_ID ` fst ` set cs"
  shows "open_ids old es = {}"
proof -
  have "bl_ID tu \<in> result_ids es" if "(tu, pc) \<in> set cs" for tu pc
  proof -
    have "case pc of TDone _ \<Rightarrow> True | _ \<Rightarrow> False"
      using assms(1) that by (auto simp: all_done_def list_all_iff)
    then obtain o' where o': "pc = TDone o'" by (cases pc) auto
    have "to_err o' = None" using assms(3) that by (force simp: outcome_of_def o')
    with assms(2) that o' show ?thesis by (auto simp: call_ids_def)
  qed
  then have "bl_ID ` fst ` set cs \<subseteq> result_ids es" by auto
  with assms(4) show ?thesis by (auto simp: open_ids_def)
qed

lemma compact_settled:
  assumes "open_ids old (Entries (rn_session r)) \<subseteq> uses_in am"
  shows "settled old (after_compact n am m) r" "settled old (compact_cover tc ue r' n am m) r"
    "settled old (compact_summary ue r' n am m c cover) r"
proof -
  show past: "settled old (after_compact n am m) r"
    using assms by (cases rule: after_compact_cases[of n am m]) (auto simp: uses_in_def filter_empty_conv)
  show "settled old (compact_cover tc ue r' n am m) r"
    using assms past by (cases rule: compact_cover_cases[of tc ue r' n am m]) simp_all
  show "settled old (compact_summary ue r' n am m c cover) r"
    using assms past by (cases rule: compact_summary_cases[of ue r' n am m c cover]) simp_all
qed

lemma turn_step_settled:
  assumes "turn_step tc ue r pc = (r', pc')" and "length old \<le> length (Entries (rn_session r))" and "settled old pc r"
  shows "settled old pc' r'"
proof (cases pc)
  case (RAppend n am m)
  obtain r1 res where ap: "Runner_append (tc_base tc) (ue_call ue) r (AssistantMessage am) = (r1, res)" by (metis prod.collapse)
  show ?thesis
    using ap
  proof (cases rule: Runner_append_cases)
    case refused
    with assms(1) ap show ?thesis by (auto simp: RAppend appendAssistant_def internal_failure_def)
  next
    case appended
    with assms ap open_ids_snoc[OF assms(2), of "ue_call ue" "AssistantMessage am"] show ?thesis
      by (auto simp: RAppend appendAssistant_def uses_of_message)
  qed
next
  case (RCut am how ctx)
  with assms show ?thesis by (auto simp: internal_failure_def split: prod.splits sum.splits)
next
  case (RRefuse n malformed runnable tus)
  with assms show ?thesis by (cases tus) (auto simp: call_ids_def classDeny_def image_image split: option.splits)
next
  case (RRefusing n malformed runnable tu tpc tus)
  show ?thesis
  proof (cases "\<exists>o'. tpc = TDone o'")
    case True
    then obtain o' where o': "tpc = TDone o'" by blast
    have "bl_ID tu \<notin> open_ids old (Entries (rn_session r))" if "to_err o' = None"
      using assms(3) that by (simp add: RRefusing o' call_ids_def open_ids_def)
    with assms RRefusing o' show ?thesis by (auto simp: turn_step_refusing(1) split: option.splits)
  next
    case False
    obtain r1 pc1 where st: "tool_step (tc_base tc) ((ue_tool ue)\<lparr>te_call := ue_call ue\<rparr>) tu r tpc = (r1, pc1)"
      by (metis prod.collapse)
    have "pc' = RRefusing n malformed runnable tu pc1 tus" "r' = r1"
      using assms(1) RRefusing turn_step_refusing(2)[OF False st] by (auto simp del: turn_step.simps)
    with turn_step_open(1)[OF assms(1,2)] tool_step_ids[OF st] assms(3) RRefusing show ?thesis by auto
  qed
next
  case (RCalls n cs)
  show ?thesis
  proof (cases "all_done cs")
    case True
    with all_done_settled[OF this] assms RCalls show ?thesis by auto
  next
    case False
    with assms RCalls show ?thesis by auto
  qed
next
  case (REnd n os)
  with assms(1) have "pc' = endTurn n r os" "r' = r" by auto
  with assms(3) REnd show ?thesis by (cases rule: endTurn_cases[of n r os]) auto
next
  case (RCompact n am m)
  with assms compact_settled(2) show ?thesis by auto
next
  case (RSummarize n am m c cover)
  with assms compact_settled(3) show ?thesis by auto
next
  case (RCompacted n am m v)
  have "open_ids old (Entries (rn_session r')) \<subseteq> uses_in am"
    using turn_step_open(1)[OF assms(1,2)] assms(3) RCompacted by auto
  with compact_settled(1) assms(1) RCompacted show ?thesis by auto
next
  case (RMessage msg st)
  have "open_ids old (Entries (rn_session r')) = {}" using turn_step_open(1)[OF assms(1,2)] assms(3) RMessage by auto
  with assms(1) RMessage show ?thesis by (auto simp: internal_failure_def split: prod.splits sum.splits)
next
  case (RRest st ctx)
  have "st = Completed \<longrightarrow> open_ids old (Entries (rn_session r')) = {}"
    using turn_step_open(1)[OF assms(1,2)] assms(3) RRest by auto
  with assms(1) RRest show ?thesis by (auto split: prod.splits option.splits)
next
  case (RStream n c req)
  with assms streamed_message_total[of ue r] show ?thesis by auto
qed (use assms in \<open>auto simp: internal_failure_def clearInterrupt_def split: if_splits option.splits prod.splits sum.splits\<close>)

text \<open>The events of the rest of a turn: no other \<open>Run\<close>, and nobody else writes assistant messages.\<close>

definition beside_turn :: "turn_event \<Rightarrow> bool" where
  "beside_turn ev \<longleftrightarrow>
     (case ev of RunCalled _ \<Rightarrow> False | OtherAppend _ p \<Rightarrow> (\<forall>am. p \<noteq> AssistantMessage am)
      | InterruptCalled _ how \<Rightarrow> how \<noteq> [] | _ \<Rightarrow> True)"

lemma no_message_uses: "\<forall>am. p \<noteq> AssistantMessage am \<Longrightarrow> tool_uses_of p = []"
  by (cases p) (auto simp: tool_uses_of_def)

lemma settled_grows:
  assumes "settled old pc r" and "rn_state r' = rn_state r \<or> (\<forall>ret. pc \<noteq> RReturned ret) \<or> rn_state r' \<noteq> Completed"
    and "open_ids old (Entries (rn_session r')) \<subseteq> open_ids old (Entries (rn_session r))"
    and "result_ids (Entries (rn_session r)) \<subseteq> result_ids (Entries (rn_session r'))"
  shows "settled old pc r'"
  using assms call_ids_mono[OF _ assms(4)] by (cases pc) auto

lemma event_uses:
  assumes "beside_turn ev" and "event_may_append w ev p" and "\<forall>ue. ev \<noteq> RunStep ue"
  shows "tool_uses_of p = []"
  using assms
  by (cases ev) (auto simp: event_may_append_def beside_turn_def no_message_uses step_payload_uses split: turn_pc.splits)

lemma Runner_Interrupt_state:
  "rn_state (Runner_Interrupt cf env how r) = rn_state r \<or> rn_state (Runner_Interrupt cf env how r) = Idle"
  by (simp add: Runner_Interrupt_def Let_def)

lemma tool_steps_settled:
  assumes "tn_pc w = RCalls n cs" and "settled old (tn_pc w) (tn_runner w)" and "length old \<le> length (Entries (rn_session (tn_runner w)))"
  shows "settled old (tn_pc (turn_event_step tc w (ToolStep i te))) (tn_runner (turn_event_step tc w (ToolStep i te)))"
proof (cases "i < length cs")
  case False
  with assms show ?thesis by (simp add: turn_event_step_def fan_step_def Let_def)
next
  case True
  obtain tu pc where c: "cs ! i = (tu, pc)" by (metis prod.collapse)
  obtain r' pc' where st: "tool_step (tc_base tc) te tu (tn_runner w) pc = (r', pc')" by (metis prod.collapse)
  have w': "turn_event_step tc w (ToolStep i te) = w\<lparr>tn_runner := r', tn_pc := RCalls n (cs[i := (tu, pc')])\<rparr>"
    using True c st assms(1) by (simp add: turn_event_step_def fan_step_def Let_def)
  let ?es = "Entries (rn_session (tn_runner w))" and ?es' = "Entries (rn_session r')"
  have g: "open_ids old ?es' \<subseteq> open_ids old ?es" "result_ids ?es \<subseteq> result_ids ?es'"
    using moved_settled[OF tool_step_moved[OF st, of "\<lambda>p. step_payload pc = Some p"] assms(3)] step_payload_uses by blast+
  have mem: "(tu, pc) \<in> set cs" using True c by (metis nth_mem)
  have ids: "call_ids ?es tu2 pc2" if "(tu2, pc2) \<in> set cs" for tu2 pc2 using assms(1,2) that by auto
  have "call_ids ?es' tu2 pc2" if "(tu2, pc2) \<in> set (cs[i := (tu, pc')])" for tu2 pc2
    using that set_update_subset_insert[of cs i "(tu, pc')"] tool_step_ids[OF st ids[OF mem]] call_ids_mono[OF ids g(2)] by auto
  moreover have "map fst (cs[i := (tu, pc')]) = map fst cs" using True c by (simp add: map_update list_update_same_conv)
  then have "fst ` set (cs[i := (tu, pc')]) = fst ` set cs" by (metis list.set_map)
  ultimately show ?thesis using g(1) assms(1,2) unfolding w' by auto
qed

lemma turn_event_settled:
  assumes "settled old (tn_pc w) (tn_runner w)" and "length old \<le> length (Entries (rn_session (tn_runner w)))" and "beside_turn ev"
  shows "settled old (tn_pc (turn_event_step tc w ev)) (tn_runner (turn_event_step tc w ev)) \<and>
    length old \<le> length (Entries (rn_session (tn_runner (turn_event_step tc w ev))))"
proof
  show "length old \<le> length (Entries (rn_session (tn_runner (turn_event_step tc w ev))))"
    using turn_event_entries[of tc w ev] assms(2) by auto
  have other: "open_ids old (Entries (rn_session (tn_runner (turn_event_step tc w ev)))) \<subseteq> open_ids old (Entries (rn_session (tn_runner w)))"
    "result_ids (Entries (rn_session (tn_runner w))) \<subseteq> result_ids (Entries (rn_session (tn_runner (turn_event_step tc w ev))))"
    if "\<forall>ue. ev \<noteq> RunStep ue"
  proof -
    have env: "event_env ev \<noteq> None" using assms(3) by (cases ev) (simp_all add: event_env_def beside_turn_def)
    then obtain env where "event_env ev = Some env" by blast
    from moved_settled[OF turn_event_moved[OF this] assms(2)] event_uses[OF assms(3) _ that]
    show "open_ids old (Entries (rn_session (tn_runner (turn_event_step tc w ev)))) \<subseteq> open_ids old (Entries (rn_session (tn_runner w)))"
      "result_ids (Entries (rn_session (tn_runner w))) \<subseteq> result_ids (Entries (rn_session (tn_runner (turn_event_step tc w ev))))"
      by blast+
  qed
  show "settled old (tn_pc (turn_event_step tc w ev)) (tn_runner (turn_event_step tc w ev))"
  proof (cases ev)
    case (RunStep ue)
    obtain r' pc' where st: "turn_step tc ue (tn_runner w) (tn_pc w) = (r', pc')" by (metis prod.collapse)
    from turn_step_settled[OF st assms(2,1)] st RunStep show ?thesis by (simp add: turn_event_step_def)
  next
    case (ToolStep i te)
    show ?thesis
    proof (cases "\<exists>n cs. tn_pc w = RCalls n cs")
      case True
      with tool_steps_settled assms(1,2) ToolStep show ?thesis by blast
    next
      case False
      with ToolStep assms(1) show ?thesis by (auto simp: turn_event_step_def split: turn_pc.splits)
    qed
  next
    case (InterruptCalled env how)
    with other settled_grows[OF assms(1), of "tn_runner (turn_event_step tc w ev)"]
      Runner_Interrupt_state[of "tc_base tc" env how "tn_runner w"] show ?thesis
      by (auto simp: turn_event_step_def)
  next
    case (OtherAppend env p)
    with other settled_grows[OF assms(1), of "tn_runner (turn_event_step tc w ev)"] show ?thesis
      by (auto simp: turn_event_step_def)
  qed (use assms(3) in \<open>simp add: beside_turn_def\<close>)
qed

interpretation turn_uses: guarded_machine "turn_event_step tc" "\<lambda>_. beside_turn"
    "\<lambda>w. settled old (tn_pc w) (tn_runner w) \<and> length old \<le> length (Entries (rn_session (tn_runner w)))" for tc old
  by unfold_locales (use turn_event_settled in blast)

lemma run_turn_settled:
  assumes "settled old (tn_pc w) (tn_runner w)" and "length old \<le> length (Entries (rn_session (tn_runner w)))" and "list_all beside_turn evs"
  shows "settled old (tn_pc (run_turn tc w evs)) (tn_runner (run_turn tc w evs))"
proof -
  have "turn_uses.admitted tc w evs" using assms(3) by (induction evs arbitrary: w) auto
  with turn_uses.run_inv[of old w tc evs] assms(1,2) show ?thesis by (simp add: run_turn_def)
qed

section \<open>Properties\<close>

text \<open>
  C21: Whatever the schedule, the runner's state refines the turn lifecycle of the domain model: every
  event leaves it or moves it along an arrow of the diagram, or along one of four kinds of arrow the
  diagram does not draw (the next turn after a completed or failed one, a second question while
  another call runs, a cancel of an active turn, a turn whose first message is refused); when no
  \<open>Run\<close> is executing the state is idle, completed, failed or steering, and it agrees with what the
  last \<open>Run\<close> returned.
\<close>

theorem turn_lifecycle:
  "let w = run_turn tc (new_turn s over) evs in
     lifecycle (turn_state w) (turn_state (turn_event_step tc w ev)) \<and>
     (case tn_pc w of RReturned ret \<Rightarrow> return_ok ret (turn_state w) | _ \<Rightarrow> True)"
  using turn_event_state[OF run_turn_state, of tc tc s over evs ev] run_turn_state[of tc s over evs]
  by (auto simp: Let_def split: turn_pc.splits)

lemma run_turn_reachable:
  assumes "reachable (cf_lib (tc_base tc)) (rn_session (tn_runner w))" and "fresh_turn (rn_session (tn_runner w)) evs"
  shows "reachable (cf_lib (tc_base tc)) (rn_session (tn_runner (run_turn tc w evs)))"
  using assms
proof (induction evs arbitrary: w)
  case Nil
  then show ?case by (simp add: run_turn_def)
next
  case (Cons ev evs)
  from Cons.IH[OF turn_event_reachable[OF Cons.prems] fresh_turn_step[OF Cons.prems(2)]] show ?case
    by (simp add: run_turn_def)
qed

lemma run_turn_grows: "\<exists>new. Entries (rn_session (tn_runner (run_turn tc w evs))) = Entries (rn_session (tn_runner w)) @ new"
proof (induction evs arbitrary: w)
  case Nil
  then show ?case by (simp add: run_turn_def)
next
  case (Cons ev evs)
  have "run_turn tc w (ev # evs) = run_turn tc (turn_event_step tc w ev) evs" by (simp add: run_turn_def)
  with Cons[of "turn_event_step tc w ev"] turn_event_entries[of tc w ev] show ?case by fastforce
qed

text \<open>
  C22: A turn that completes leaves nothing undone: from any reachable moment at which no \<open>Run\<close> is
  executing and no tool use is pending, if a \<open>Run\<close> ends in the completed state then no tool use is
  pending, however its calls were interleaved with each other, with interrupts and with the
  entries of other clients; and the log is well formed.
\<close>

theorem completed_turn_settled:
  assumes "w = run_turn tc (new_turn s over) before" and "tn_pc w = RReturned ret"
    and "reachable (cf_lib (tc_base tc)) s" and "fresh_turn s (before @ RunCalled msg # evs)"
    and "PendingToolUses (rn_session (tn_runner w)) = []" and "list_all beside_turn evs"
    and "tn_pc (run_turn tc w (RunCalled msg # evs)) = RReturned ret'"
    and "turn_state (run_turn tc w (RunCalled msg # evs)) = Completed"
  shows "PendingToolUses (rn_session (tn_runner (run_turn tc w (RunCalled msg # evs)))) = [] \<and>
    wf_entries (ulid_ParseStrict (cf_lib (tc_base tc))) (Entries (rn_session (tn_runner (run_turn tc w (RunCalled msg # evs)))))"
proof
  let ?w1 = "turn_event_step tc w (RunCalled msg)" and ?w2 = "run_turn tc w (RunCalled msg # evs)"
  let ?old = "Entries (rn_session (tn_runner w))" and ?es = "Entries (rn_session (tn_runner ?w2))"
  have w2: "?w2 = run_turn tc ?w1 evs" by (simp add: run_turn_def)
  have e1: "Entries (rn_session (tn_runner ?w1)) = ?old" by (simp add: RunCalled_session)
  then have "open_ids ?old (Entries (rn_session (tn_runner ?w1))) = {}" by (simp add: open_ids_def)
  then have "settled ?old (tn_pc ?w1) (tn_runner ?w1)"
    using assms(2) by (auto simp: turn_event_step_def split: sum.splits)
  from run_turn_settled[OF this _ assms(6), of tc] e1 have "settled ?old (tn_pc ?w2) (tn_runner ?w2)" unfolding w2 by simp
  with assms(7,8) have open0: "open_ids ?old ?es = {}" by simp
  have "\<exists>new. ?es = ?old @ new" using run_turn_grows[of tc ?w1 evs] e1 w2 by simp
  then obtain new where new: "?es = ?old @ new" by blast
  have "bl_ID b \<in> result_ids ?old" if "b \<in> set (tool_uses ?old)" for b
    using assms(5) that by (auto simp: PendingToolUses_def PendingToolUsesIn_eq filter_empty_conv)
  moreover have "bl_ID b \<in> result_ids ?es" if "b \<in> set (tool_uses new)" for b
    using open0 that by (auto simp: open_ids_def new)
  ultimately show "PendingToolUses (rn_session (tn_runner ?w2)) = []"
    by (auto simp: PendingToolUses_def PendingToolUsesIn_eq filter_empty_conv new simp del: result_ids_simps(2))
      (auto simp: new)
next
  have "run_turn tc w (RunCalled msg # evs) = run_turn tc (new_turn s over) (before @ RunCalled msg # evs)"
    by (simp add: assms(1) run_turn_def)
  with run_turn_reachable[of tc "new_turn s over"] assms(3,4)
  have "reachable (cf_lib (tc_base tc)) (rn_session (tn_runner (run_turn tc w (RunCalled msg # evs))))"
    by (simp add: new_turn_def NewRunner_def)
  then show "wf_entries (ulid_ParseStrict (cf_lib (tc_base tc))) (Entries (rn_session (tn_runner (run_turn tc w (RunCalled msg # evs)))))"
    using reachable_wf by (auto simp: wf_session_def)
qed

text \<open>A whole turn on the sample session: one request, answered with text.\<close>

definition text1 :: "Part list" where
  "text1 = [part0 PartTextDelta [] [] ''hi'', part0 PartStop [] [] []]"

definition finish0 :: "turn_event list" where
  "finish0 = [RunStep (ue0 6 []), RunStep (ue0 7 text1), RunStep (ue0 8 []), RunStep (ue0 9 []), RunStep (ue0 10 []),
     RunStep (ue0 11 []), RunStep (ue0 12 []), RunStep (ue0 13 [])]"

definition reply0 :: AssistantMessage where
  "reply0 = \<lparr>am_Model = model0, am_Thinking = ThinkingOff, am_Content = [TextBlock ''hi''], am_Usage = zero_Usage,
     am_StopReason = StopToolUse, am_StopReasonRaw = []\<rparr>"

lemma text1_message:
  assumes "Entries (rn_session r) = entries0 0 [SessionOpened opened0] @ [new_entry (env0 3) (UserMessage msg0)]"
  shows "streamed_message (ue0 7 text1) r = Some reply0"
proof -
  have "map_option (\<lambda>a. (ac_blocksOut a, ac_usage a, ac_stop a, ac_stopRaw a)) (add_parts newAccumulator text1) =
    Some ([TextBlock ''hi''], zero_Usage, StopToolUse, [])" by code_simp
  then obtain acc where acc: "add_parts newAccumulator text1 = Some acc" "ac_blocksOut acc = [TextBlock ''hi'']"
    "ac_usage acc = zero_Usage" "ac_stop acc = StopToolUse" "ac_stopRaw acc = []" by auto
  have "model_in (Entries (rn_session r)) = model0" "thinking_in (Entries (rn_session r)) = ThinkingOff"
    unfolding assms by code_simp+
  with acc show ?thesis
    by (simp add: streamed_message_def ue0_def accumulator_blocks_def Session_Model_def Session_Thinking_def reply0_def enum_defs)
qed

lemma finish0_run:
  "tn_pc (run_turn tc0 (new_turn root0 Map.empty) (start0 @ finish0)) = RReturned RetNil \<and>
   turn_state (run_turn tc0 (new_turn root0 Map.empty) (start0 @ finish0)) = Completed"
proof -
  obtain s where s: "run_turn tc0 (new_turn root0 Map.empty) start0 =
      \<lparr>tn_runner = (NewRunner s Map.empty)\<lparr>rn_system := ''system'', rn_state := Streaming, rn_turn := 4,
         rn_streamCancel := Some 5\<rparr>, tn_pc = RAssemble 1 5\<rparr>"
    "log_ready s" "s_inherited s = []" "Entries s = entries0 0 [SessionOpened opened0] @ [new_entry (env0 3) (UserMessage msg0)]"
    by (rule start0_run)
  have "append_guard (ulid_ParseStrict ulid0) [] (entries0 0 [SessionOpened opened0] @ [new_entry (env0 3) (UserMessage msg0)])
    (AssistantMessage reply0) = None" by code_simp
  then have g: "append_guard (ulid_ParseStrict ulid0) [] (Entries s) (AssistantMessage reply0) = None" unfolding s(4) .
  obtain s1 where s1: "Session_Append ulid0 (env0 9) s (AssistantMessage reply0) = (s1, Inr (new_entry (env0 9) (AssistantMessage reply0)))"
    "log_ready s1" by (rule sample_append[OF s(2,3) g, of 9])
  obtain s2 where s2: "Session_Sync SyncOK s1 = (s2, None)" using Session_Sync_ready[OF s1(2)] by metis
  define r where "r = (NewRunner s Map.empty)\<lparr>rn_system := ''system'', rn_state := Streaming, rn_turn := 4, rn_streamCancel := Some 5\<rparr>"
  have r: "rn_session r = s" "rn_state r = Streaming" "rn_interrupt r = []" by (simp_all add: r_def NewRunner_def)
  have am: "streamed_message (ue0 7 text1) r = Some reply0" by (rule text1_message) (simp add: r s)
  have san: "sanitizeToolInputs (am_Content reply0) = (am_Content reply0, Map.empty)"
    "filter (\<lambda>b. bl_Type b = BlockToolUse) (am_Content reply0) = []"
    by (simp_all add: reply0_def malformed_input_def TextBlock_def enum_defs)
  have "run_turn tc0 \<lparr>tn_runner = r, tn_pc = RAssemble 1 5\<rparr> finish0 =
    \<lparr>tn_runner = setState Completed (clearInterrupt (r\<lparr>rn_turnUsage := Usage_Add (rn_turnUsage r) (am_Usage reply0), rn_session := s2\<rparr>)),
      tn_pc = RReturned RetNil\<rparr>"
    using am r s1(1) s2 san by (simp add: run_turn_def turn_event_step_def finish0_def observeInterrupt_def appendAssistant_def
      Runner_append_def Runner_Sync_def compact_cover_def compaction_due_def after_compact_def returns_def tc0_def cf0_def ue0_def env0_def)
  with s(1) show ?thesis by (simp add: run_turn_def r_def)
qed

theorem completed_turn_settled_witness:
  "PendingToolUses (rn_session (tn_runner (run_turn tc0 (new_turn root0 Map.empty) (start0 @ finish0)))) = []"
proof -
  let ?evs = "tl start0 @ finish0"
  have evs: "RunCalled msg0 # ?evs = start0 @ finish0" by (simp add: start0_def)
  have "reachable (cf_lib (tc_base tc0)) root0" using reachable_root0 by (simp add: tc0_def cf0_def)
  moreover have "fresh_turn root0 ([] @ RunCalled msg0 # ?evs)"
    using root0_shape by (simp add: fresh_turn_def event_env_def start0_def finish0_def ue0_def env0_def new_entry_def)
  moreover have "PendingToolUses (rn_session (tn_runner (new_turn root0 Map.empty))) = []"
    using root0_shape by (simp add: PendingToolUses_def PendingToolUsesIn_eq new_turn_def NewRunner_def new_entry_def tool_uses_of_def)
  moreover have "list_all beside_turn ?evs" by (simp add: start0_def finish0_def beside_turn_def)
  ultimately show ?thesis
    using completed_turn_settled[of "new_turn root0 Map.empty" tc0 root0 Map.empty "[]" RetNil msg0 ?evs RetNil] finish0_run
    unfolding evs by (simp add: run_turn_def new_turn_def)
qed

end
