(* ===== verification/Turn_Cut.thy ===== *)
theory Turn_Cut
  imports Turn_Settled
begin

text \<open>
  What an interrupt still lets a turn do, and what a steered turn leaves behind. \<open>stream_inv\<close> ties the
  context of the streamed request in flight to the runner's cancel slot; \<open>cut_ok\<close> is what holds at every
  point after an interrupt, and \<open>cut_budget\<close> how many assistant messages may still come.
\<close>

section \<open>The request in flight\<close>

fun stream_inv :: "turn_pc \<Rightarrow> Runner \<Rightarrow> bool" where
  "stream_inv (RAssemble _ c) r = (rn_streamCancel r = Some c)"
| "stream_inv (RStream _ c _) r = (rn_streamCancel r = Some c)"
| "stream_inv (RCut am _ _) r = (am_StopReason am = StopInterrupted)"
| "stream_inv _ r = True"

lemma runner_stream_frame [simp]:
  "rn_streamCancel (fst (Runner_append cf env r p)) = rn_streamCancel r"
  "rn_streamCancel (interrupt_active how r) = rn_streamCancel r"
  "rn_streamCancel (fst (Runner_Sync io r)) = rn_streamCancel r"
  "rn_streamCancel (setState st r) = rn_streamCancel r"
  by (auto simp: Runner_append_def Runner_Sync_def interrupt_active_def setState_def split: prod.splits)

lemma compact_stream [simp]:
  "stream_inv (after_compact n am m) r" "stream_inv (compact_cover tc ue r' n am m) r"
  "stream_inv (compact_summary ue r' n am m c cover) r"
proof -
  show past: "stream_inv (after_compact n am m) r" by (rule after_compact_cases[of n am m]) simp_all
  show "stream_inv (compact_cover tc ue r' n am m) r"
    by (rule compact_cover_cases[of tc ue r' n am m]) (simp_all add: past)
  show "stream_inv (compact_summary ue r' n am m c cover) r"
    by (rule compact_summary_cases[of ue r' n am m c cover]) (simp_all add: past)
qed

lemma turn_step_stream:
  assumes "turn_step tc ue r pc = (r', pc')" and "stream_inv pc r"
  shows "stream_inv pc' r'"
proof (cases pc)
  case (RRefuse n malformed runnable tus)
  with assms show ?thesis by (cases tus) (auto split: option.splits)
next
  case (RRefusing n malformed runnable tu tpc tus)
  with assms show ?thesis by (auto split: tool_pc.splits prod.splits option.splits)
next
  case (REnd n os)
  with assms have "pc' = endTurn n r os" by auto
  then show ?thesis by (cases rule: endTurn_cases[of n r os]) auto
qed (use assms in \<open>auto simp: setStreamCancel_def cut_message_def internal_failure_def Let_def
        split: if_splits option.splits prod.splits sum.splits\<close>)

lemma turn_event_stream:
  assumes "stream_inv (tn_pc w) (tn_runner w)"
  shows "stream_inv (tn_pc (turn_event_step tc w ev)) (tn_runner (turn_event_step tc w ev))"
proof (cases ev)
  case (RunStep ue)
  obtain r' pc' where st: "turn_step tc ue (tn_runner w) (tn_pc w) = (r', pc')" by (metis prod.collapse)
  from turn_step_stream[OF st assms] st RunStep show ?thesis by (simp add: turn_event_step_def)
next
  case (InterruptCalled env how)
  with assms show ?thesis
    by (cases "tn_pc w") (auto simp: turn_event_step_def Runner_Interrupt_def Let_def)
next
  case (OtherAppend env p)
  with assms show ?thesis by (cases "tn_pc w") (auto simp: turn_event_step_def)
qed (use assms in \<open>auto simp: turn_event_step_def Let_def split: turn_pc.splits sum.splits\<close>)

interpretation streams: guarded_machine "turn_event_step tc" "\<lambda>_ _. True" "\<lambda>w. stream_inv (tn_pc w) (tn_runner w)" for tc
  by unfold_locales (rule turn_event_stream)

lemma run_turn_stream:
  "stream_inv (tn_pc (run_turn tc (new_turn s over) evs)) (tn_runner (run_turn tc (new_turn s over) evs))"
  unfolding run_turn_def
  by (rule streams.run_inv[OF _ streams.admitted_all]) (simp_all add: new_turn_def)

section \<open>After an interrupt\<close>

text \<open>The points at which the turn is over but for its records.\<close>

fun closing :: "turn_pc \<Rightarrow> bool" where
  "closing (RReturned _) = True"
| "closing (RFinish _ _) = True"
| "closing (RRest _ _) = True"
| "closing (RFail _ _ _) = True"
| "closing (RFailSync _ _) = True"
| "closing (RClear _ _) = True"
| "closing (RSet _ _) = True"
| "closing RPanic = True"
| "closing _ = False"

fun cut_ok :: "turn_pc \<Rightarrow> Runner \<Rightarrow> bool" where
  "cut_ok (RCut am _ _) r = (am_StopReason am = StopInterrupted)"
| "cut_ok (RAssemble _ c) r = (rn_interrupt r \<noteq> [] \<and> c \<in> rn_cancelled r)"
| "cut_ok (RStream _ c _) r = (rn_interrupt r \<noteq> [] \<and> c \<in> rn_cancelled r)"
| "cut_ok pc r = (closing pc \<or> rn_interrupt r \<noteq> [])"

lemma runner_interrupt_frame [simp]:
  "rn_interrupt (fst (Runner_append cf env r p)) = rn_interrupt r" "rn_interrupt (fst (Runner_Sync io r)) = rn_interrupt r"
  "rn_interrupt (setState st r) = rn_interrupt r" "rn_interrupt (setStreamCancel c r) = rn_interrupt r"
  "rn_interrupt (startTurnState tc ue r) = rn_interrupt r" "rn_interrupt (compact_append tc ue r v) = rn_interrupt r"
  "rn_cancelled (fst (Runner_append cf env r p)) = rn_cancelled r" "rn_cancelled (fst (Runner_Sync io r)) = rn_cancelled r"
  "rn_cancelled (setState st r) = rn_cancelled r" "rn_streamCancel (compact_append tc ue r v) = rn_streamCancel r"
  by (auto simp: Runner_append_def Runner_Sync_def setState_def setStreamCancel_def startTurnState_def compact_append_def
      split: prod.splits option.splits)

lemma runner_interrupt_append [simp]:
  "Runner_append cf env r p = (r', res) \<Longrightarrow> rn_interrupt r' = rn_interrupt r"
  "Runner_Sync io r = (r', e) \<Longrightarrow> rn_interrupt r' = rn_interrupt r"
  "appendAssistant cf env r am = (r', res) \<Longrightarrow> rn_interrupt r' = rn_interrupt r"
  by (auto simp: Runner_append_def Runner_Sync_def appendAssistant_def split: prod.splits sum.splits)

text \<open>The answer that is about to be recorded, if the turn is at that point.\<close>

fun answering :: "turn_pc \<Rightarrow> AssistantMessage option" where
  "answering (RAppend _ am _) = Some am"
| "answering _ = None"

lemma compact_cut [simp]:
  "rn_interrupt r \<noteq> [] \<Longrightarrow> cut_ok (after_compact n am m) r"
  "rn_interrupt r \<noteq> [] \<Longrightarrow> cut_ok (compact_cover tc ue r' n am m) r"
  "rn_interrupt r \<noteq> [] \<Longrightarrow> cut_ok (compact_summary ue r' n am m c cover) r"
  "answering (after_compact n am m) = None" "answering (compact_cover tc ue r' n am m) = None"
  "answering (compact_summary ue r' n am m c cover) = None"
proof -
  have past: "answering (after_compact n am m) = None \<and> (rn_interrupt r \<noteq> [] \<longrightarrow> cut_ok (after_compact n am m) r)"
    by (rule after_compact_cases[of n am m]) simp_all
  moreover have cover: "answering (compact_cover tc ue r' n am m) = None \<and>
      (rn_interrupt r \<noteq> [] \<longrightarrow> cut_ok (compact_cover tc ue r' n am m) r)"
    by (rule compact_cover_cases[of tc ue r' n am m]) (simp_all add: past)
  moreover have "answering (compact_summary ue r' n am m c cover) = None \<and>
      (rn_interrupt r \<noteq> [] \<longrightarrow> cut_ok (compact_summary ue r' n am m c cover) r)"
    by (rule compact_summary_cases[of ue r' n am m c cover]) (simp_all add: past)
  ultimately show "rn_interrupt r \<noteq> [] \<Longrightarrow> cut_ok (after_compact n am m) r"
    "rn_interrupt r \<noteq> [] \<Longrightarrow> cut_ok (compact_cover tc ue r' n am m) r"
    "rn_interrupt r \<noteq> [] \<Longrightarrow> cut_ok (compact_summary ue r' n am m c cover) r"
    "answering (after_compact n am m) = None" "answering (compact_cover tc ue r' n am m) = None"
    "answering (compact_summary ue r' n am m c cover) = None" by simp_all
qed

lemma turn_step_cut:
  assumes "turn_step tc ue r pc = (r', pc')" and "cut_ok pc r"
  shows "cut_ok pc' r' \<and> answering pc' = None \<and>
    (closing pc \<or> (\<exists>am how ctx. pc = RCut am how ctx) \<longrightarrow> closing pc')"
proof (cases pc)
  case (RRefuse n malformed runnable tus)
  with assms show ?thesis by (cases tus) (auto split: option.splits)
next
  case (RRefusing n malformed runnable tu tpc tus)
  show ?thesis
  proof (cases "\<exists>o'. tpc = TDone o'")
    case True
    with assms RRefusing show ?thesis by (auto simp: turn_step_refusing(1) split: option.splits)
  next
    case False
    obtain r1 pc1 where st: "tool_step (tc_base tc) ((ue_tool ue)\<lparr>te_call := ue_call ue\<rparr>) tu r tpc = (r1, pc1)"
      by (metis prod.collapse)
    from assms RRefusing turn_step_refusing(2)[OF False st] tool_step_interrupt[OF st] show ?thesis
      by (auto simp del: turn_step.simps)
  qed
next
  case (REnd n os)
  with assms have "pc' = endTurn n r os" "r' = r" "rn_interrupt r \<noteq> []" by auto
  with REnd show ?thesis by (cases rule: endTurn_cases[of n r os]) auto
qed (use assms in \<open>auto simp: setStreamCancel_def cut_message_def internal_failure_def observeInterrupt_def Let_def
        split: if_splits option.splits prod.splits sum.splits\<close>)

definition assistants :: "Entry list \<Rightarrow> AssistantMessage list" where
  "assistants es = List.map_filter (\<lambda>e. case en_Payload e of AssistantMessage am \<Rightarrow> Some am | _ \<Rightarrow> None) es"

lemma assistants_simps [simp]:
  "assistants [] = []" "assistants (xs @ ys) = assistants xs @ assistants ys"
  "assistants [new_entry env p] = (case p of AssistantMessage am \<Rightarrow> [am] | _ \<Rightarrow> [])"
  by (auto simp: assistants_def List.map_filter_def new_entry_def split: payload.splits)

lemma step_payload_answer: "step_payload pc = Some p \<Longrightarrow> p \<noteq> AssistantMessage am"
  by (auto simp: step_payload_def split: tool_pc.splits)

lemma assistant_from:
  assumes "beside_turn ev" and "event_may_append w ev (AssistantMessage am)"
  shows "\<exists>ue. ev = RunStep ue \<and> ((\<exists>how ctx. tn_pc w = RCut am how ctx) \<or> (\<exists>n m. tn_pc w = RAppend n am m))"
proof (cases ev)
  case (RunStep ue)
  with assms(2) show ?thesis
    by (cases "tn_pc w") (auto simp: event_may_append_def dest: step_payload_answer)
next
  case (ToolStep i te)
  with assms(2) show ?thesis by (auto simp: event_may_append_def split: turn_pc.splits dest: step_payload_answer)
qed (use assms in \<open>auto simp: event_may_append_def beside_turn_def\<close>)

lemma interrupt_active_cut:
  "rn_interrupt r \<noteq> [] \<Longrightarrow> how \<noteq> [] \<Longrightarrow> rn_interrupt (interrupt_active how r) \<noteq> []"
  "how \<noteq> [] \<Longrightarrow> rn_interrupt (interrupt_active how r) \<noteq> []"
  "c \<in> rn_cancelled r \<Longrightarrow> c \<in> rn_cancelled (interrupt_active how r)"
  "rn_streamCancel r = Some c \<Longrightarrow> c \<in> rn_cancelled (interrupt_active how r)"
  by (auto simp: interrupt_active_def inflight_cancelAll_def enum_defs)

lemma turn_event_cut_pc:
  assumes "cut_ok (tn_pc w) (tn_runner w)" and "beside_turn ev"
  shows "cut_ok (tn_pc (turn_event_step tc w ev)) (tn_runner (turn_event_step tc w ev)) \<and>
    (closing (tn_pc w) \<longrightarrow> closing (tn_pc (turn_event_step tc w ev))) \<and>
    (answering (tn_pc (turn_event_step tc w ev)) = None \<or> tn_pc (turn_event_step tc w ev) = tn_pc w)"
proof (cases ev)
  case (RunStep ue)
  obtain r' pc' where st: "turn_step tc ue (tn_runner w) (tn_pc w) = (r', pc')" by (metis prod.collapse)
  from turn_step_cut[OF st assms(1)] st RunStep show ?thesis by (simp add: turn_event_step_def)
next
  case (ToolStep i te)
  show ?thesis
  proof (cases "tn_pc w")
    case (RCalls n cs)
    have "rn_interrupt (fn_runner (fan_step (tc_base tc) \<lparr>fn_runner = tn_runner w, fn_calls = cs\<rparr> (CallStep i te))) =
      rn_interrupt (tn_runner w)"
      using tool_step_interrupt by (auto simp: fan_step_def split: prod.splits)
    with assms ToolStep RCalls show ?thesis by (simp add: turn_event_step_def Let_def)
  qed (use assms ToolStep in \<open>simp_all add: turn_event_step_def\<close>)
next
  case (InterruptCalled env how)
  with assms show ?thesis
    by (cases "tn_pc w")
      (auto simp: turn_event_step_def beside_turn_def Runner_Interrupt_def Let_def interrupt_active_cut)
next
  case (OtherAppend env p)
  with assms show ?thesis by (cases "tn_pc w") (auto simp: turn_event_step_def)
qed (use assms(2) in \<open>simp add: beside_turn_def\<close>)

text \<open>How many more assistant messages there may be, and which.\<close>

definition cut_budget :: "turn_pc \<Rightarrow> nat" where
  "cut_budget pc = (if closing pc then 0 else if answering pc \<noteq> None then 2 else 1)"

definition may_answer :: "turn_pc \<Rightarrow> AssistantMessage \<Rightarrow> bool" where
  "may_answer pc am \<longleftrightarrow> am_StopReason am = StopInterrupted \<or> answering pc = Some am"

lemma cut_budget_mono:
  assumes "closing pc \<longrightarrow> closing pc'" and "answering pc' = None \<or> pc' = pc"
  shows "cut_budget pc' \<le> cut_budget pc"
  using assms by (auto simp: cut_budget_def)

lemma may_answer_mono: "may_answer pc' am \<Longrightarrow> answering pc' = None \<or> pc' = pc \<Longrightarrow> may_answer pc am"
  by (auto simp: may_answer_def)

lemma answer_recorded:
  assumes "turn_step tc ue r pc = (r', pc')" and "cut_ok pc r" and "may_append pc (AssistantMessage am)"
  shows "may_answer pc am" "Suc (cut_budget pc') \<le> cut_budget pc"
proof -
  have "(\<exists>how ctx. pc = RCut am how ctx) \<or> (\<exists>n m. pc = RAppend n am m)"
    using assms(3) by (cases pc) (auto dest: step_payload_answer)
  with turn_step_cut[OF assms(1,2)] assms(2) show "may_answer pc am" "Suc (cut_budget pc') \<le> cut_budget pc"
    by (auto simp: may_answer_def cut_budget_def)
qed

lemma turn_event_cut:
  assumes "cut_ok (tn_pc w) (tn_runner w)" and "beside_turn ev"
  obtains new where
    "Entries (rn_session (tn_runner (turn_event_step tc w ev))) = Entries (rn_session (tn_runner w)) @ new"
    "\<forall>am\<in>set (assistants new). may_answer (tn_pc w) am"
    "length (assistants new) + cut_budget (tn_pc (turn_event_step tc w ev)) \<le> cut_budget (tn_pc w)"
proof -
  let ?w' = "turn_event_step tc w ev"
  have mono: "cut_budget (tn_pc ?w') \<le> cut_budget (tn_pc w)"
    using turn_event_cut_pc[OF assms, of tc] cut_budget_mono by blast
  from turn_event_entries[of tc w ev] show ?thesis
  proof (elim disjE exE conjE)
    assume "Entries (rn_session (tn_runner ?w')) = Entries (rn_session (tn_runner w))"
    with mono that[of "[]"] show ?thesis by simp
  next
    fix env p
    assume p: "event_may_append w ev p"
      "Entries (rn_session (tn_runner ?w')) = Entries (rn_session (tn_runner w)) @ [new_entry env p]"
    show ?thesis
    proof (cases "\<exists>am. p = AssistantMessage am")
      case True
      then obtain am where am: "p = AssistantMessage am" by blast
      from assistant_from[OF assms(2) p(1)[unfolded am]] obtain ue where ue: "ev = RunStep ue" by blast
      obtain r' pc' where st: "turn_step tc ue (tn_runner w) (tn_pc w) = (r', pc')" by (metis prod.collapse)
      have "may_append (tn_pc w) (AssistantMessage am)" using p(1) by (simp add: event_may_append_def ue am)
      note rec = answer_recorded[OF st assms(1) this]
      have pc': "tn_pc ?w' = pc'" using st by (simp add: ue turn_event_step_def)
      show ?thesis by (rule that[OF p(2)]) (simp_all add: am rec pc')
    next
      case False
      then have "assistants [new_entry env p] = []" by (cases p) auto
      with mono that[OF p(2)] show ?thesis by (simp del: assistants_simps(3))
    qed
  qed
qed

lemma run_cut_turn:
  assumes "cut_ok (tn_pc w) (tn_runner w)" and "list_all beside_turn evs"
  shows "cut_ok (tn_pc (run_turn tc w evs)) (tn_runner (run_turn tc w evs)) \<and>
    (\<exists>new. Entries (rn_session (tn_runner (run_turn tc w evs))) = Entries (rn_session (tn_runner w)) @ new \<and>
      (\<forall>am\<in>set (assistants new). may_answer (tn_pc w) am) \<and> length (assistants new) \<le> cut_budget (tn_pc w))"
  using assms
proof (induction evs arbitrary: w)
  case Nil
  then show ?case by (simp add: run_turn_def)
next
  case (Cons ev evs)
  let ?w1 = "turn_event_step tc w ev"
  have ev: "beside_turn ev" "list_all beside_turn evs" using Cons.prems(2) by simp_all
  obtain new1 where n1: "Entries (rn_session (tn_runner ?w1)) = Entries (rn_session (tn_runner w)) @ new1"
    "\<forall>am\<in>set (assistants new1). may_answer (tn_pc w) am"
    "length (assistants new1) + cut_budget (tn_pc ?w1) \<le> cut_budget (tn_pc w)"
    by (rule turn_event_cut[OF Cons.prems(1) ev(1)])
  note pc1 = turn_event_cut_pc[OF Cons.prems(1) ev(1), of tc]
  then have c1: "cut_ok (tn_pc ?w1) (tn_runner ?w1)" by simp
  have r: "run_turn tc w (ev # evs) = run_turn tc ?w1 evs" by (simp add: run_turn_def)
  from Cons.IH[OF c1 ev(2)] obtain new2 where n2:
    "cut_ok (tn_pc (run_turn tc ?w1 evs)) (tn_runner (run_turn tc ?w1 evs))"
    "Entries (rn_session (tn_runner (run_turn tc ?w1 evs))) = Entries (rn_session (tn_runner ?w1)) @ new2"
    "\<forall>am\<in>set (assistants new2). may_answer (tn_pc ?w1) am" "length (assistants new2) \<le> cut_budget (tn_pc ?w1)"
    by blast
  have "Entries (rn_session (tn_runner (run_turn tc ?w1 evs))) = Entries (rn_session (tn_runner w)) @ (new1 @ new2)"
    using n1(1) n2(2) by simp
  moreover have "\<forall>am\<in>set (assistants (new1 @ new2)). may_answer (tn_pc w) am"
    using n1(2) n2(3) pc1 may_answer_mono[of "tn_pc ?w1" _ "tn_pc w"] by auto
  moreover have "length (assistants (new1 @ new2)) \<le> cut_budget (tn_pc w)" using n1(3) n2(4) by simp
  ultimately show ?case unfolding r using n2(1) by blast
qed

text \<open>
  C25: An interrupt ends the turn's conversation. Take any reachable moment of a turn in an active
  state: after an interrupt there, in any continuation that does not call \<open>Run\<close> again and in which
  nobody else writes assistant messages, at most one more assistant message is recorded, with the stop
  reason \<open>interrupted\<close>; only where the interrupt fell between a complete answer and its record is that
  answer recorded too, as it is. A streamed request that is in flight or sent later runs in a cancelled
  context. (The summary request of a compaction runs in the context of \<open>Run\<close>, which an interrupt does
  not cancel.)
\<close>

theorem interrupt_ends_conversation:
  assumes "w = run_turn tc (new_turn s over) evs" and "active (turn_state w)"
    and "how \<noteq> []" and "list_all beside_turn evs'"
  shows "\<exists>new. Entries (rn_session (tn_runner (run_turn tc w (InterruptCalled env how # evs')))) =
      Entries (rn_session (tn_runner w)) @ new \<and>
    length (assistants new) \<le> (case tn_pc w of RAppend _ _ _ \<Rightarrow> 2 | _ \<Rightarrow> 1) \<and>
    (\<forall>am\<in>set (assistants new). am_StopReason am = StopInterrupted \<or> (\<exists>n m. tn_pc w = RAppend n am m)) \<and>
    (\<forall>n c req. tn_pc (run_turn tc w (InterruptCalled env how # evs')) = RStream n c req \<longrightarrow>
      c \<in> rn_cancelled (tn_runner (run_turn tc w (InterruptCalled env how # evs'))))"
proof -
  let ?w1 = "turn_event_step tc w (InterruptCalled env how)"
  have str: "stream_inv (tn_pc w) (tn_runner w)" unfolding assms(1) by (rule run_turn_stream)
  have r1: "?w1 = w\<lparr>tn_runner := interrupt_active how (tn_runner w)\<rparr>"
    using assms(2) by (auto simp: turn_event_step_def Runner_Interrupt_def resting_def active_def)
  have c1: "cut_ok (tn_pc ?w1) (tn_runner ?w1)"
    using str interrupt_active_cut(2)[OF assms(3)] unfolding r1
    by (cases "tn_pc w") (auto intro: interrupt_active_cut(4))
  have r: "run_turn tc w (InterruptCalled env how # evs') = run_turn tc ?w1 evs'" by (simp add: run_turn_def)
  have e1: "Entries (rn_session (tn_runner ?w1)) = Entries (rn_session (tn_runner w))" "tn_pc ?w1 = tn_pc w" by (simp_all add: r1)
  have budget: "cut_budget (tn_pc w) \<le> (case tn_pc w of RAppend _ _ _ \<Rightarrow> 2 | _ \<Rightarrow> 1)"
    by (cases "tn_pc w") (simp_all add: cut_budget_def)
  have which: "may_answer (tn_pc w) am \<Longrightarrow> am_StopReason am = StopInterrupted \<or> (\<exists>n m. tn_pc w = RAppend n am m)" for am
    by (cases "tn_pc w") (simp_all add: may_answer_def)
  from run_cut_turn[OF c1 assms(4), of tc] obtain new where new:
    "cut_ok (tn_pc (run_turn tc ?w1 evs')) (tn_runner (run_turn tc ?w1 evs'))"
    "Entries (rn_session (tn_runner (run_turn tc ?w1 evs'))) = Entries (rn_session (tn_runner w)) @ new"
    "\<forall>am\<in>set (assistants new). may_answer (tn_pc w) am" "length (assistants new) \<le> cut_budget (tn_pc w)"
    unfolding e1 by blast
  then show ?thesis unfolding r using budget which by (intro exI[of _ new]) auto
qed

theorem interrupt_ends_conversation_witness:
  "\<exists>new. Entries (rn_session (tn_runner (run_turn tc0 (run_turn tc0 (new_turn root0 Map.empty) start0)
      (InterruptCalled (env0 6) InterruptCancel # map (\<lambda>k. RunStep (ue0 k stream0)) [7..<30])))) =
    Entries (rn_session (tn_runner (run_turn tc0 (new_turn root0 Map.empty) start0))) @ new \<and> length (assistants new) \<le> 1"
proof -
  let ?w = "run_turn tc0 (new_turn root0 Map.empty) start0"
  have "active (turn_state ?w)" and pc: "tn_pc ?w = RAssemble 1 5"
    by (rule start0_run; simp add: active_def)+
  from interrupt_ends_conversation[OF refl this(1), of InterruptCancel "map (\<lambda>k. RunStep (ue0 k stream0)) [7..<30]" "env0 6"]
  show ?thesis by (auto simp: pc list_all_iff beside_turn_def enum_defs)
qed

section \<open>What an interrupt may leave behind\<close>

lemma rest0_run:
  assumes "log_ready (rn_session r)"
  obtains s where "run_turn tc0 \<lparr>tn_runner = r, tn_pc = RRest Steering False\<rparr> rest0 =
      \<lparr>tn_runner = setState Steering (clearInterrupt (r\<lparr>rn_session := s\<rparr>)), tn_pc = RReturned RetNil\<rparr>"
    "Entries s = Entries (rn_session r)"
proof -
  obtain s where s: "Session_Sync SyncOK (rn_session r) = (s, None)" "Entries s = Entries (rn_session r)"
    using Session_Sync_ready[OF assms] by metis
  with that show ?thesis
    by (simp add: run_turn_def turn_event_step_def rest0_def Runner_Sync_def ue0_def env0_def returns_def)
qed

text \<open>A tool use nobody has decided or answered, and the events that leave it so.\<close>

definition undecided_use :: "Entry list \<Rightarrow> bytes \<Rightarrow> bool" where
  "undecided_use es i \<longleftrightarrow> is_pending es i \<and> i \<notin> decided_ids es"

definition leaves_use :: "bytes \<Rightarrow> turn_event \<Rightarrow> bool" where
  "leaves_use i ev \<longleftrightarrow>
     (case ev of
        RunCalled _ \<Rightarrow> False
      | OtherAppend _ p \<Rightarrow>
          (case p of PermissionDecision d \<Rightarrow> pd_ToolUseID d \<noteq> i | ToolResult tr \<Rightarrow> tr_ToolUseID tr \<noteq> i | _ \<Rightarrow> True)
      | _ \<Rightarrow> True)"

lemma undecided_use_snoc:
  assumes "undecided_use es i" and "\<forall>d. p = PermissionDecision d \<longrightarrow> pd_ToolUseID d \<noteq> i"
    and "\<forall>tr. p = ToolResult tr \<longrightarrow> tr_ToolUseID tr \<noteq> i"
  shows "undecided_use (es @ [new_entry env p]) i"
proof -
  have "result_ids [new_entry env p] \<subseteq> - {i}" "decided_ids [new_entry env p] \<subseteq> - {i}"
    using assms(2,3) by (auto simp: result_ids_def decided_ids_def new_entry_def)
  with assms(1) show ?thesis by (auto simp: undecided_use_def is_pending_iff)
qed

lemma returned_leaves_use:
  assumes "tn_pc w = RReturned ret" and "leaves_use i ev" and "undecided_use (Entries (rn_session (tn_runner w))) i"
  shows "tn_pc (turn_event_step tc w ev) = RReturned ret \<and>
    undecided_use (Entries (rn_session (tn_runner (turn_event_step tc w ev)))) i"
proof
  show "tn_pc (turn_event_step tc w ev) = RReturned ret"
    using assms(1,2) by (cases ev) (simp_all add: turn_event_step_def leaves_use_def)
  have "p = q \<or> (\<exists>t. p = TurnInterrupted t)" if "event_may_append w ev p" "\<forall>env r. ev = OtherAppend env r \<longrightarrow> r = q" for p q
    using that assms(1) by (cases ev) (auto simp: event_may_append_def)
  then have "(\<forall>d. p = PermissionDecision d \<longrightarrow> pd_ToolUseID d \<noteq> i) \<and> (\<forall>tr. p = ToolResult tr \<longrightarrow> tr_ToolUseID tr \<noteq> i)"
    if "event_may_append w ev p" for p
    using that assms(1,2) by (cases ev) (auto simp: event_may_append_def leaves_use_def)
  with turn_event_entries[of tc w ev] assms(3) undecided_use_snoc
  show "undecided_use (Entries (rn_session (tn_runner (turn_event_step tc w ev)))) i" by fastforce
qed

lemma run_returned_leaves_use:
  assumes "tn_pc w = RReturned ret" and "list_all (leaves_use i) evs" and "undecided_use (Entries (rn_session (tn_runner w))) i"
  shows "tn_pc (run_turn tc w evs) = RReturned ret \<and> undecided_use (Entries (rn_session (tn_runner (run_turn tc w evs)))) i"
  using assms
proof (induction evs arbitrary: w)
  case Nil
  then show ?case by (simp add: run_turn_def)
next
  case (Cons ev evs)
  with Cons.IH[of "turn_event_step tc w ev"] returned_leaves_use[of w ret i ev tc] show ?case by (simp add: run_turn_def)
qed

lemma steered_stream_rests:
  assumes "tn_pc w = RStreamed n am err" and "rn_interrupt (tn_runner w) = InterruptSteer" and "log_ready (rn_session (tn_runner w))"
    and "append_guard (ulid_ParseStrict (cf_lib (tc_base tc))) (s_inherited (rn_session (tn_runner w)))
      (s_own (rn_session (tn_runner w))) (AssistantMessage (cut_message am)) = None"
    and "length ues = 6" and "\<forall>ue\<in>set ues. good_env (ue_call ue)"
  obtains env where "tn_pc (run_turn tc w (map RunStep ues)) = RReturned RetNil" "turn_state (run_turn tc w (map RunStep ues)) = Steering"
    "Entries (rn_session (tn_runner (run_turn tc w (map RunStep ues)))) =
      Entries (rn_session (tn_runner w)) @ [new_entry env (AssistantMessage (cut_message am))]"
proof -
  obtain u1 u2 u3 u4 u5 u6 where ues: "ues = [u1, u2, u3, u4, u5, u6]"
    using assms(5) by (auto simp: eval_nat_numeral length_Suc_conv)
  let ?r = "tn_runner w"
  obtain s1 where s1: "Session_Append (cf_lib (tc_base tc)) (ue_call u2) (rn_session ?r) (AssistantMessage (cut_message am)) =
      (s1, Inr (new_entry (ue_call u2) (AssistantMessage (cut_message am))))"
    "Entries s1 = Entries (rn_session ?r) @ [new_entry (ue_call u2) (AssistantMessage (cut_message am))]" "log_ready s1"
    using Session_Append_succeeds[OF assms(4,3), of "ue_call u2"] assms(6) ues by auto
  obtain s2 where s2: "Session_Sync SyncOK s1 = (s2, None)" "Entries s2 = Entries s1"
    using Session_Sync_ready[OF s1(3)] by metis
  have io: "ce_sync (ue_call u4) = SyncOK" using assms(6) ues by (simp add: good_env_def)
  have w: "w = \<lparr>tn_runner = ?r, tn_pc = RStreamed n am err\<rparr>" using assms(1) by (cases w) simp
  have "run_turn tc \<lparr>tn_runner = ?r, tn_pc = RStreamed n am err\<rparr> (map RunStep ues) =
    \<lparr>tn_runner = setState Steering (clearInterrupt (?r\<lparr>rn_turnUsage := Usage_Add (rn_turnUsage ?r) (am_Usage (cut_message am)), rn_session := s2\<rparr>)),
      tn_pc = RReturned RetNil\<rparr>"
    using assms(2) s1(1) s2(1) io
    by (simp add: ues run_turn_def turn_event_step_def observeInterrupt_def appendAssistant_def Runner_append_def Runner_Sync_def
        returns_def enum_defs)
  with w that[of "ue_call u2"] s1(2) s2(2) show ?thesis by (simp add: clearInterrupt_def)
qed

text \<open>
  C26: A turn steered while its stream held a complete tool use leaves that tool use unanswered. Take any
  moment at which the stream has ended, a steer is standing, the log takes writes and accepts the cut
  message, and a tool use that \<open>dropIncompleteToolUses\<close> keeps has an id without decision or result. The
  next six actions of \<open>Run\<close>, none of whose writes fails, end it without an error in the steering state;
  the tool use is then recorded and pending without a decision. It stays so, and \<open>Run\<close> stays returned,
  through whatever happens before the message that resumes the turn, as long as no other client writes
  its decision or result.
\<close>

theorem interrupted_use_unanswered:
  assumes "tn_pc w = RStreamed n am err" and "observeInterrupt (tn_runner w) = InterruptSteer" and "log_ready (rn_session (tn_runner w))"
    and "append_guard (ulid_ParseStrict (cf_lib (tc_base tc))) (s_inherited (rn_session (tn_runner w)))
      (s_own (rn_session (tn_runner w))) (AssistantMessage (cut_message am)) = None"
    and "tu \<in> set (dropIncompleteToolUses (am_Content am))" and "bl_Type tu = BlockToolUse"
    and "bl_ID tu \<notin> decided_ids (Entries (rn_session (tn_runner w))) \<union> result_ids (Entries (rn_session (tn_runner w)))"
    and "length ues = 6" and "\<forall>ue\<in>set ues. good_env (ue_call ue)" and "list_all (leaves_use (bl_ID tu)) evs"
  shows "turn_state (run_turn tc w (map RunStep ues)) = Steering \<and>
    tn_pc (run_turn tc w (map RunStep ues @ evs)) = RReturned RetNil \<and>
    undecided_use (Entries (rn_session (tn_runner (run_turn tc w (map RunStep ues @ evs))))) (bl_ID tu)"
proof -
  have "rn_interrupt (tn_runner w) = InterruptSteer" using assms(2) by (simp add: observeInterrupt_def)
  from steered_stream_rests[OF assms(1) this assms(3,4,8,9)] obtain env where
    w1: "tn_pc (run_turn tc w (map RunStep ues)) = RReturned RetNil" "turn_state (run_turn tc w (map RunStep ues)) = Steering"
    "Entries (rn_session (tn_runner (run_turn tc w (map RunStep ues)))) =
      Entries (rn_session (tn_runner w)) @ [new_entry env (AssistantMessage (cut_message am))]" .
  have "tu \<in> set (tool_uses_of (AssistantMessage (cut_message am)))"
    using assms(5,6) by (simp add: tool_uses_of_def cut_message_def)
  then have "undecided_use (Entries (rn_session (tn_runner (run_turn tc w (map RunStep ues))))) (bl_ID tu)"
    using assms(7) by (auto simp: w1(3) undecided_use_def is_pending_iff new_entry_def)
  from run_returned_leaves_use[OF w1(1) assms(10) this] w1(2) show ?thesis by (simp add: run_turn_def run_ops_append)
qed

theorem interrupted_use_unanswered_witness:
  "let w = run_turn tc0 (new_turn root0 Map.empty) (start0 @ steer0 @ rest0) in
     tn_pc w = RReturned RetNil \<and> undecided_use (Entries (rn_session (tn_runner w))) ''t1''"
proof -
  obtain r am where r: "run_turn tc0 (new_turn root0 Map.empty) (start0 @ take 3 steer0) = \<lparr>tn_runner = r, tn_pc = RStreamed 1 am None\<rparr>"
    "cut_message am = cut0" "rn_interrupt r = InterruptSteer" "log_ready (rn_session r)" "s_inherited (rn_session r) = []"
    "Entries (rn_session r) = entries0 0 [SessionOpened opened0] @ [new_entry (env0 3) (UserMessage msg0)]"
    by (rule streamed0_run) blast
  let ?w = "\<lparr>tn_runner = r, tn_pc = RStreamed 1 am None\<rparr>" and ?ues = "map (\<lambda>k. ue0 k []) [9, 10, 11, 13, 14, 15]"
  let ?es = "entries0 0 [SessionOpened opened0] @ [new_entry (env0 3) (UserMessage msg0)]"
  have own: "s_own (rn_session r) = ?es" using r(5,6) by (simp add: Entries_def)
  have "append_guard (ulid_ParseStrict ulid0) [] ?es (AssistantMessage cut0) = None" by code_simp
  then have g: "append_guard (ulid_ParseStrict (cf_lib (tc_base tc0))) (s_inherited (rn_session r)) (s_own (rn_session r))
      (AssistantMessage (cut_message am)) = None"
    unfolding r(2,5) own by (simp add: tc0_def cf0_def)
  have "am_Content (cut_message am) = [use0 ''t1'']" by (simp add: r(2) cut0_def)
  then have "use0 ''t1'' \<in> set (dropIncompleteToolUses (am_Content am))" by (simp add: cut_message_def)
  moreover have "bl_Type (use0 ''t1'') = BlockToolUse" "bl_ID (use0 ''t1'') = ''t1''" by code_simp+
  moreover have "decided_ids ?es \<union> result_ids ?es = {}"
    by (auto simp: decided_ids_def result_ids_def new_entry_def)
  moreover have "\<forall>ue\<in>set ?ues. good_env (ue_call ue)" by (simp add: ue0_def good_env0)
  ultimately have "tn_pc (run_turn tc0 ?w (map RunStep ?ues @ [])) = RReturned RetNil \<and>
    undecided_use (Entries (rn_session (tn_runner (run_turn tc0 ?w (map RunStep ?ues @ []))))) ''t1''"
    using interrupted_use_unanswered[of ?w 1 am None tc0 "use0 ''t1''" ?ues "[]"] g r(3,4,6) by (simp add: observeInterrupt_def)
  moreover have "start0 @ steer0 @ rest0 = (start0 @ take 3 steer0) @ map RunStep ?ues" by (simp add: steer0_def rest0_def)
  then have "run_turn tc0 (new_turn root0 Map.empty) (start0 @ steer0 @ rest0) = run_turn tc0 ?w (map RunStep ?ues)"
    using r(1) by (simp only: run_turn_def run_ops_append)
  ultimately show ?thesis by (simp add: Let_def)
qed

text \<open>
  A cancel can be lost: one that arrives while a steered turn is coming to rest, when the runner is
  still in an active state, is accepted, and yet the turn ends in the steering state, with no
  interrupt standing and no \<open>turn_interrupted\<close> in the log.
\<close>

theorem late_cancel_dropped:
  "let w = run_turn tc0 (new_turn root0 Map.empty) (start0 @ steer0 @ InterruptCalled (env0 12) InterruptCancel # rest0) in
     tn_pc w = RReturned RetNil \<and> turn_state w = Steering \<and> rn_interrupt (tn_runner w) = [] \<and>
     KindTurnInterrupted \<notin> en_Kind ` set (Entries (rn_session (tn_runner w)))"
proof -
  obtain s r where r: "run_turn tc0 (new_turn root0 Map.empty) (start0 @ steer0) = \<lparr>tn_runner = r, tn_pc = RRest Steering False\<rparr>"
    "log_ready (rn_session r)" "rn_state r = Streaming" "Entries (rn_session r) = entries0 0 [SessionOpened opened0] @
      [new_entry (env0 3) (UserMessage msg0), new_entry (env0 10) (AssistantMessage cut0)]"
    by (rule steer0_run) blast
  let ?r = "interrupt_active InterruptCancel r"
  have "turn_event_step tc0 \<lparr>tn_runner = r, tn_pc = RRest Steering False\<rparr> (InterruptCalled (env0 12) InterruptCancel) =
      \<lparr>tn_runner = ?r, tn_pc = RRest Steering False\<rparr>"
    using r(3) by (simp add: turn_event_step_def Runner_Interrupt_def resting_def)
  moreover have "log_ready (rn_session ?r)" using r(2) by simp
  from rest0_run[OF this] obtain s' where s': "run_turn tc0 \<lparr>tn_runner = ?r, tn_pc = RRest Steering False\<rparr> rest0 =
      \<lparr>tn_runner = setState Steering (clearInterrupt (?r\<lparr>rn_session := s'\<rparr>)), tn_pc = RReturned RetNil\<rparr>"
    "Entries s' = Entries (rn_session ?r)" by blast
  moreover have "start0 @ steer0 @ InterruptCalled (env0 12) InterruptCancel # rest0 =
    (start0 @ steer0) @ InterruptCalled (env0 12) InterruptCancel # rest0" by simp
  ultimately have w: "run_turn tc0 (new_turn root0 Map.empty) (start0 @ steer0 @ InterruptCalled (env0 12) InterruptCancel # rest0) =
      \<lparr>tn_runner = setState Steering (clearInterrupt (?r\<lparr>rn_session := s'\<rparr>)), tn_pc = RReturned RetNil\<rparr>"
    using r(1) unfolding run_turn_def by (simp only: run_ops_append run_ops.simps)
  have "KindTurnInterrupted \<notin> en_Kind ` set (entries0 0 [SessionOpened opened0] @
      [new_entry (env0 3) (UserMessage msg0), new_entry (env0 10) (AssistantMessage cut0)])" by code_simp
  then show ?thesis unfolding w Let_def using s'(2) r(4) by (simp add: clearInterrupt_def)
qed

end
