(* ===== verification/Turn_End.thy ===== *)
theory Turn_End
  imports Turn_Settled
begin

text \<open>
  Every \<open>Run\<close> with a step limit comes to its end: each action of its goroutine and of its calls
  lowers a rank, nothing else raises it, and as long as \<open>Run\<close> has not returned some action is
  possible. The number of streamed requests is at most the limit, and so is the number of summary
  requests its compactions send.
\<close>

section \<open>A rank that the actions lower\<close>

lemma finite_descents:
  fixes f :: "nat \<Rightarrow> 'a"
  assumes "wf R" and "\<And>i. f (Suc i) = f i \<or> (f (Suc i), f i) \<in> R"
  shows "finite {i. (f (Suc i), f i) \<in> R}"
proof -
  obtain z where z: "z \<in> range f" "\<And>y. (y, z) \<in> R \<Longrightarrow> y \<notin> range f"
    by (rule wfE_min[OF assms(1), of "f 0" "range f"]) auto
  then obtain k where k: "(f j, f k) \<notin> R" for j by auto
  have const: "f j = f k" if "j \<ge> k" for j
    using that
  proof (induction rule: dec_induct)
    case (step j)
    with assms(2)[of j] k[of "Suc j"] show ?case by auto
  qed simp
  have "i < k" if "(f (Suc i), f i) \<in> R" for i
    using that const[of i] k[of "Suc i"] by (cases "i < k") auto
  then have "{i. (f (Suc i), f i) \<in> R} \<subseteq> {..<k}" by auto
  then show ?thesis by (rule finite_subset) simp
qed

definition calls_left :: "(Block \<times> tool_pc) list \<Rightarrow> nat" where
  "calls_left cs = sum_list (map (pc_left \<circ> snd) cs)"

fun turn_rank :: "nat \<Rightarrow> turn_pc \<Rightarrow> nat \<times> nat \<times> nat" where
  "turn_rank M (RMessage _ _) = (M + 2, 0, 0)"
| "turn_rank M (RLoop n) = (M - n + 1, 0, 0)"
| "turn_rank M (RSend n) = (M - n + 1, 11, 0)"
| "turn_rank M (RAssemble n _) = (M - n + 1, 10, 0)"
| "turn_rank M (RStream n _ _) = (M - n + 1, 9, 0)"
| "turn_rank M (RStreamed n _ _) = (M - n + 1, 8, 0)"
| "turn_rank M (RAppend n _ _) = (M - n + 1, 7, 0)"
| "turn_rank M (RCompact n _ _) = (M - n + 1, 6, 0)"
| "turn_rank M (RSummarize n _ _ _ _) = (M - n + 1, 5, 0)"
| "turn_rank M (RCompacted n _ _ _) = (M - n + 1, 4, 0)"
| "turn_rank M (RRefuse n _ _ tus) = (M - n + 1, 3, 8 * length tus)"
| "turn_rank M (RRefusing n _ _ _ pc tus) = (M - n + 1, 3, 8 * length tus + pc_left pc + 1)"
| "turn_rank M (RCalls n cs) = (M - n + 1, 2, calls_left cs)"
| "turn_rank M (REnd n _) = (M - n + 1, 1, 0)"
| "turn_rank M (RCut _ _ _) = (0, 7, 0)"
| "turn_rank M (RFinish _ _) = (0, 6, 0)"
| "turn_rank M (RRest _ _) = (0, 5, 0)"
| "turn_rank M (RFail _ _ _) = (0, 4, 0)"
| "turn_rank M (RFailSync _ _) = (0, 3, 0)"
| "turn_rank M (RClear _ _) = (0, 2, 0)"
| "turn_rank M (RSet _ _) = (0, 1, 0)"
| "turn_rank M (RReturned _) = (0, 0, 0)"
| "turn_rank M RPanic = (0, 0, 0)"

abbreviation rank_less :: "((nat \<times> nat \<times> nat) \<times> (nat \<times> nat \<times> nat)) set" where
  "rank_less \<equiv> less_than <*lex*> less_than <*lex*> less_than"

text \<open>
  An event that is an action of the turn: a step of the goroutine that is neither returned nor
  waiting for its calls, or a step of a call that is not done.
\<close>

definition progresses :: "Turn \<Rightarrow> turn_event \<Rightarrow> bool" where
  "progresses w ev \<longleftrightarrow>
     (case ev of
        RunStep _ \<Rightarrow> (case tn_pc w of RReturned _ \<Rightarrow> False | RPanic \<Rightarrow> False | RCalls _ cs \<Rightarrow> all_done cs | _ \<Rightarrow> True)
      | ToolStep i _ \<Rightarrow>
          (case tn_pc w of RCalls _ cs \<Rightarrow> i < length cs \<and> pc_left (snd (cs ! i)) > 0 | _ \<Rightarrow> False)
      | _ \<Rightarrow> False)"

lemma pc_left_refuse: "pc_left (TRefuse d oc t o') < 7"
  by (simp add: pc_left_def)

lemma calls_left_step:
  assumes "i < length cs" and "cs ! i = (tu, pc)" and "pc_left pc' < pc_left pc"
  shows "calls_left (cs[i := (tu, pc')]) < calls_left cs"
proof -
  have "cs = take i cs @ (tu, pc) # drop (Suc i) cs" using assms(1,2) by (metis id_take_nth_drop)
  moreover have "cs[i := (tu, pc')] = take i cs @ (tu, pc') # drop (Suc i) cs"
    using assms(1) by (simp add: upd_conv_take_nth_drop)
  moreover have "calls_left (take i cs @ (tu, pc') # drop (Suc i) cs) < calls_left (take i cs @ (tu, pc) # drop (Suc i) cs)"
    using assms(3) by (simp add: calls_left_def)
  ultimately show ?thesis by simp
qed

lemma compact_rank:
  "(turn_rank M (after_compact n am m), (Suc (M - n), Suc 3, k)) \<in> rank_less"
  "(turn_rank M (compact_summary ue r n am m c cover), (Suc (M - n), 5, k)) \<in> rank_less"
  "(turn_rank M (compact_cover tc ue r n am m), (Suc (M - n), 6, k)) \<in> rank_less"
proof -
  have past: "(turn_rank M (after_compact n am m), (Suc (M - n), j, k)) \<in> rank_less" if "j > 3" for j k
    using that by (cases rule: after_compact_cases[of n am m]) simp_all
  then show "(turn_rank M (after_compact n am m), (Suc (M - n), Suc 3, k)) \<in> rank_less" by simp
  show "(turn_rank M (compact_summary ue r n am m c cover), (Suc (M - n), 5, k)) \<in> rank_less"
    by (cases rule: compact_summary_cases[of ue r n am m c cover]) (simp_all add: past)
  show "(turn_rank M (compact_cover tc ue r n am m), (Suc (M - n), 6, k)) \<in> rank_less"
    by (cases rule: compact_cover_cases[of tc ue r n am m]) (simp_all add: past)
qed

lemma turn_step_rank:
  assumes "tc_MaxSteps tc > 0" and "turn_step tc ue r pc = (r', pc')"
    and "progresses \<lparr>tn_runner = r, tn_pc = pc\<rparr> (RunStep ue)"
  shows "(turn_rank (nat (tc_MaxSteps tc)) pc', turn_rank (nat (tc_MaxSteps tc)) pc) \<in> rank_less"
proof (cases pc)
  case (RRefuse n malformed runnable tus)
  with assms(2) pc_left_refuse show ?thesis by (cases tus) (auto split: option.splits)
next
  case (RRefusing n malformed runnable tu tpc tus)
  show ?thesis
  proof (cases "\<exists>o'. tpc = TDone o'")
    case True
    with assms(2) RRefusing show ?thesis by (auto simp: turn_step_refusing(1) split: option.splits)
  next
    case False
    obtain r1 pc1 where st: "tool_step (tc_base tc) ((ue_tool ue)\<lparr>te_call := ue_call ue\<rparr>) tu r tpc = (r1, pc1)"
      by (metis prod.collapse)
    have "pc' = RRefusing n malformed runnable tu pc1 tus"
      using assms(2) RRefusing turn_step_refusing(2)[OF False st] by (auto simp del: turn_step.simps)
    moreover have "pc_left pc1 < pc_left tpc" using tool_step_left[OF st] False pc_left_0[of tpc] by auto
    ultimately show ?thesis by (simp add: RRefusing)
  qed
next
  case (REnd n os)
  with assms(2) have "pc' = endTurn n r os" by auto
  with REnd show ?thesis by (cases rule: endTurn_cases[of n r os]) auto
next
  case (RCompact n am m)
  with assms(2) compact_rank(3) show ?thesis by auto
next
  case (RSummarize n am m c cover)
  with assms(2) compact_rank(2) show ?thesis by auto
next
  case (RCompacted n am m v)
  with assms(2) compact_rank(1) show ?thesis by auto
qed (use assms in \<open>auto simp: progresses_def internal_failure_def Let_def
        split: if_splits option.splits prod.splits sum.splits\<close>)

lemma turn_event_rank:
  assumes "tc_MaxSteps tc > 0" and "\<forall>msg. ev \<noteq> RunCalled msg"
  shows "if progresses w ev
    then (turn_rank (nat (tc_MaxSteps tc)) (tn_pc (turn_event_step tc w ev)), turn_rank (nat (tc_MaxSteps tc)) (tn_pc w)) \<in> rank_less
    else tn_pc (turn_event_step tc w ev) = tn_pc w"
proof (cases ev)
  case (RunStep ue)
  obtain r' pc' where st: "turn_step tc ue (tn_runner w) (tn_pc w) = (r', pc')" by (metis prod.collapse)
  show ?thesis
  proof (cases "progresses w ev")
    case True
    then have "progresses \<lparr>tn_runner = tn_runner w, tn_pc = tn_pc w\<rparr> (RunStep ue)"
      by (simp add: progresses_def RunStep)
    from turn_step_rank[OF assms(1) st this] True st RunStep show ?thesis by (simp add: turn_event_step_def)
  next
    case False
    with st RunStep show ?thesis
      by (auto simp: progresses_def turn_event_step_def split: turn_pc.splits)
  qed
next
  case (ToolStep i te)
  show ?thesis
  proof (cases "\<exists>n cs. tn_pc w = RCalls n cs \<and> i < length cs")
    case True
    then obtain n cs tu pc where cs: "tn_pc w = RCalls n cs" "i < length cs" "cs ! i = (tu, pc)" by (metis prod.collapse)
    obtain r' pc' where st: "tool_step (tc_base tc) te tu (tn_runner w) pc = (r', pc')" by (metis prod.collapse)
    have pc: "tn_pc (turn_event_step tc w ev) = RCalls n (cs[i := (tu, pc')])"
      using cs st by (simp add: ToolStep turn_event_step_def fan_step_def Let_def)
    show ?thesis
    proof (cases "pc_left pc > 0")
      case True
      with tool_step_left[OF st] have "pc_left pc' < pc_left pc" by simp
      from calls_left_step[OF cs(2,3) this] True cs pc show ?thesis by (simp add: ToolStep progresses_def)
    next
      case False
      then have "pc' = pc" using st pc_left_0[of pc] by auto
      then have "cs[i := (tu, pc')] = cs" using cs by (metis list_update_id)
      with pc False cs show ?thesis by (simp add: ToolStep progresses_def)
    qed
  next
    case False
    then show ?thesis
      by (auto simp: ToolStep progresses_def turn_event_step_def fan_step_def Let_def split: turn_pc.splits)
  qed
qed (use assms(2) in \<open>simp_all add: progresses_def turn_event_step_def\<close>)

lemma run_turn_snoc: "run_turn tc w (evs @ [ev]) = turn_event_step tc (run_turn tc w evs) ev"
  by (simp add: run_turn_def)

text \<open>As long as \<open>Run\<close> has not returned, it or one of its calls can act.\<close>

lemma never_stuck:
  assumes "tn_pc w \<noteq> RPanic" and "\<forall>ret. tn_pc w \<noteq> RReturned ret"
  shows "(\<forall>ue. progresses w (RunStep ue)) \<or> (\<exists>i. \<forall>te. progresses w (ToolStep i te))"
proof (cases "\<exists>n cs. tn_pc w = RCalls n cs \<and> \<not> all_done cs")
  case True
  then obtain n cs where cs: "tn_pc w = RCalls n cs" "\<not> all_done cs" by blast
  then obtain tu pc where "(tu, pc) \<in> set cs" "\<not> (\<exists>o'. pc = TDone o')"
    by (auto simp: all_done_def list_all_iff split: tool_pc.splits)
  then obtain i where "i < length cs" "pc_left (snd (cs ! i)) > 0"
    using pc_left_0[of pc] by (metis in_set_conv_nth neq0_conv snd_conv)
  with cs show ?thesis by (auto simp: progresses_def)
next
  case False
  with assms show ?thesis by (auto simp: progresses_def split: turn_pc.splits)
qed

section \<open>Properties\<close>

text \<open>
  C23: A turn with a step limit ends. In any infinite schedule that does not call \<open>Run\<close> again, from
  any state of the turn and whatever the provider, the tools, the log and the interrupting clients
  do, only finitely many events are actions of the turn; and in every state a schedule reaches,
  \<open>Run\<close> has returned or it or one of its calls can act, so nothing waits for ever.
\<close>

theorem turn_terminates:
  assumes "tc_MaxSteps tc > 0" and "\<forall>i msg. evs i \<noteq> RunCalled msg"
  shows "finite {i. progresses (run_turn tc w (map evs [0..<i])) (evs i)} \<and>
    (let w' = run_turn tc (new_turn s over) evs' in
      (\<exists>ret. tn_pc w' = RReturned ret) \<or> (\<forall>ue. progresses w' (RunStep ue)) \<or> (\<exists>i. \<forall>te. progresses w' (ToolStep i te)))"
proof
  let ?w = "\<lambda>i. run_turn tc w (map evs [0..<i])"
  let ?f = "\<lambda>i. turn_rank (nat (tc_MaxSteps tc)) (tn_pc (?w i))"
  have step: "?w (Suc i) = turn_event_step tc (?w i) (evs i)" for i by (simp add: run_turn_snoc)
  have desc: "?f (Suc i) = ?f i \<or> (?f (Suc i), ?f i) \<in> rank_less" for i
    using turn_event_rank[OF assms(1), of "evs i" "?w i"] assms(2) unfolding step by (auto split: if_splits)
  have "finite {i. (?f (Suc i), ?f i) \<in> rank_less}" by (rule finite_descents[where f = ?f, OF _ desc]) auto
  moreover have "{i. progresses (?w i) (evs i)} \<subseteq> {i. (?f (Suc i), ?f i) \<in> rank_less}"
    using turn_event_rank[OF assms(1)] assms(2) unfolding step by auto
  ultimately show "finite {i. progresses (?w i) (evs i)}" by (rule finite_subset[rotated])
next
  have "tn_pc (run_turn tc (new_turn s over) evs') \<noteq> RPanic"
    using run_turn_state[of tc s over evs'] by auto
  with never_stuck[of "run_turn tc (new_turn s over) evs'"]
  show "let w' = run_turn tc (new_turn s over) evs' in
      (\<exists>ret. tn_pc w' = RReturned ret) \<or> (\<forall>ue. progresses w' (RunStep ue)) \<or> (\<exists>i. \<forall>te. progresses w' (ToolStep i te))"
    by (auto simp: Let_def)
qed

theorem turn_terminates_witness:
  "finite {i. progresses (run_turn tc0 (new_turn root0 Map.empty) (map (\<lambda>i. RunStep (ue0 i stream0)) [0..<i])) (RunStep (ue0 i stream0))}"
  using turn_terminates[of tc0 "\<lambda>i. RunStep (ue0 i stream0)" "new_turn root0 Map.empty" root0 Map.empty "[]"]
  by (simp add: tc0_def)

text \<open>
  How many requests of a kind a schedule sends to the provider: the streamed ones, and the ones a
  compaction asks for a summary with. Both are calls of \<open>Provider.Complete\<close>.
\<close>

fun streams :: "turn_pc \<Rightarrow> bool" where
  "streams (RStream _ _ _) = True"
| "streams _ = False"

fun summarizes :: "turn_pc \<Rightarrow> bool" where
  "summarizes (RSummarize _ _ _ _ _) = True"
| "summarizes _ = False"

fun requests :: "(turn_pc \<Rightarrow> bool) \<Rightarrow> TurnConfig \<Rightarrow> Turn \<Rightarrow> turn_event list \<Rightarrow> nat" where
  "requests sends tc w [] = 0"
| "requests sends tc w (ev # evs) =
     (case ev of RunStep _ \<Rightarrow> (if sends (tn_pc w) then 1 else 0) | _ \<Rightarrow> 0) + requests sends tc (turn_event_step tc w ev) evs"

text \<open>The completions the loop may still come to at a point, and the requests of either kind.\<close>

fun steps_left :: "nat \<Rightarrow> turn_pc \<Rightarrow> nat" where
  "steps_left M (RMessage _ _) = M"
| "steps_left M (RLoop n) = M - n"
| "steps_left M (RSend n) = M - n"
| "steps_left M (RAssemble n _) = M - n"
| "steps_left M (RStream n _ _) = M - n"
| "steps_left M (RStreamed n _ _) = M - n"
| "steps_left M (RAppend n _ _) = M - n"
| "steps_left M (RCompact n _ _) = M - n"
| "steps_left M (RSummarize n _ _ _ _) = M - n"
| "steps_left M (RCompacted n _ _ _) = M - n"
| "steps_left M (RRefuse n _ _ _) = M - n"
| "steps_left M (RRefusing n _ _ _ _ _) = M - n"
| "steps_left M (RCalls n _) = M - n"
| "steps_left M (REnd n _) = M - n"
| "steps_left M _ = 0"

fun before_stream :: "turn_pc \<Rightarrow> bool" where
  "before_stream (RSend _) = True"
| "before_stream (RAssemble _ _) = True"
| "before_stream (RStream _ _ _) = True"
| "before_stream _ = False"

fun before_summary :: "turn_pc \<Rightarrow> bool" where
  "before_summary (RStreamed _ _ _) = True"
| "before_summary (RAppend _ _ _) = True"
| "before_summary (RCompact _ _ _) = True"
| "before_summary (RSummarize _ _ _ _ _) = True"
| "before_summary pc = before_stream pc"

definition streams_left :: "nat \<Rightarrow> turn_pc \<Rightarrow> nat" where
  "streams_left M pc = steps_left M pc + (if before_stream pc then 1 else 0)"

definition summaries_left :: "nat \<Rightarrow> turn_pc \<Rightarrow> nat" where
  "summaries_left M pc = steps_left M pc + (if before_summary pc then 1 else 0)"

lemmas left_defs = streams_left_def summaries_left_def

lemma left_points:
  "streams_left M (RCompact n am m) = M - n" "summaries_left M (RCompact n am m) = Suc (M - n)"
  "streams_left M (RSummarize n am m c cover) = M - n" "summaries_left M (RSummarize n am m c cover) = Suc (M - n)"
  "streams_left M (RCompacted n am m v) = M - n" "summaries_left M (RCompacted n am m v) = M - n"
  by (simp_all add: left_defs)

lemma compact_left:
  "streams_left M (after_compact n am m) \<le> M - n" "summaries_left M (after_compact n am m) \<le> M - n"
  "streams_left M (compact_cover tc ue r n am m) \<le> M - n" "summaries_left M (compact_cover tc ue r n am m) \<le> Suc (M - n)"
  "streams_left M (compact_summary ue r n am m c cover) \<le> M - n" "summaries_left M (compact_summary ue r n am m c cover) \<le> M - n"
proof -
  have past: "streams_left M (after_compact n am m) \<le> M - n \<and> summaries_left M (after_compact n am m) \<le> M - n"
    by (cases rule: after_compact_cases[of n am m]) (simp_all add: left_defs)
  then show "streams_left M (after_compact n am m) \<le> M - n" "summaries_left M (after_compact n am m) \<le> M - n" by simp_all
  show "streams_left M (compact_cover tc ue r n am m) \<le> M - n"
    using past by (cases rule: compact_cover_cases[of tc ue r n am m]) (simp_all add: streams_left_def)
  show "summaries_left M (compact_cover tc ue r n am m) \<le> Suc (M - n)"
    using past by (cases rule: compact_cover_cases[of tc ue r n am m]) (simp_all add: summaries_left_def)
  show "streams_left M (compact_summary ue r n am m c cover) \<le> M - n"
    using past by (cases rule: compact_summary_cases[of ue r n am m c cover]) (simp_all add: streams_left_def)
  show "summaries_left M (compact_summary ue r n am m c cover) \<le> M - n"
    using past by (cases rule: compact_summary_cases[of ue r n am m c cover]) (simp_all add: summaries_left_def)
qed

lemma turn_step_requests:
  assumes "tc_MaxSteps tc > 0" and "turn_step tc ue r pc = (r', pc')"
  shows "(if streams pc then 1 else 0) + streams_left (nat (tc_MaxSteps tc)) pc' \<le> streams_left (nat (tc_MaxSteps tc)) pc \<and>
    (if summarizes pc then 1 else 0) + summaries_left (nat (tc_MaxSteps tc)) pc' \<le> summaries_left (nat (tc_MaxSteps tc)) pc"
proof (cases pc)
  case (RRefuse n malformed runnable tus)
  with assms(2) show ?thesis by (cases tus) (auto simp: left_defs split: option.splits)
next
  case (RRefusing n malformed runnable tu tpc tus)
  show ?thesis
  proof (cases "\<exists>o'. tpc = TDone o'")
    case True
    with assms(2) RRefusing show ?thesis by (auto simp: turn_step_refusing(1) left_defs split: option.splits)
  next
    case False
    obtain r1 pc1 where st: "tool_step (tc_base tc) ((ue_tool ue)\<lparr>te_call := ue_call ue\<rparr>) tu r tpc = (r1, pc1)"
      by (metis prod.collapse)
    have "pc' = RRefusing n malformed runnable tu pc1 tus"
      using assms(2) RRefusing turn_step_refusing(2)[OF False st] by (auto simp del: turn_step.simps)
    then show ?thesis by (simp add: RRefusing left_defs)
  qed
next
  case (REnd n os)
  with assms(2) have "pc' = endTurn n r os" by auto
  with REnd show ?thesis by (cases rule: endTurn_cases[of n r os]) (auto simp: left_defs)
next
  case (RCompact n am m)
  with assms(2) show ?thesis by (auto simp: left_points compact_left)
next
  case (RSummarize n am m c cover)
  with assms(2) show ?thesis by (auto simp: left_points compact_left)
next
  case (RCompacted n am m v)
  with assms(2) show ?thesis by (auto simp: left_points compact_left)
qed (use assms in \<open>auto simp: left_defs internal_failure_def split: if_splits option.splits prod.splits sum.splits\<close>)

lemma requests_le_left:
  assumes "\<And>ue r pc r' pc'. turn_step tc ue r pc = (r', pc') \<Longrightarrow> (if sends pc then 1 else 0) + left pc' \<le> left pc"
    and "\<And>n cs cs'. left (RCalls n cs) = left (RCalls n cs')"
    and "\<forall>msg. RunCalled msg \<notin> set evs"
  shows "requests sends tc w evs \<le> (left (tn_pc w) :: nat)"
  using assms(3)
proof (induction evs arbitrary: w)
  case Nil
  then show ?case by simp
next
  case (Cons ev evs)
  have "(case ev of RunStep _ \<Rightarrow> (if sends (tn_pc w) then 1 else 0) | _ \<Rightarrow> 0) + left (tn_pc (turn_event_step tc w ev)) \<le> left (tn_pc w)"
  proof (cases ev)
    case (RunStep ue)
    obtain r' pc' where st: "turn_step tc ue (tn_runner w) (tn_pc w) = (r', pc')" by (metis prod.collapse)
    from assms(1)[OF st] st show ?thesis by (simp add: RunStep turn_event_step_def)
  next
    case (ToolStep i te)
    then show ?thesis
      by (cases "tn_pc w") (auto simp: turn_event_step_def Let_def intro: eq_refl[OF assms(2)])
  qed (use Cons.prems in \<open>auto simp: turn_event_step_def Let_def split: turn_pc.splits\<close>)
  moreover have "requests sends tc (turn_event_step tc w ev) evs \<le> left (tn_pc (turn_event_step tc w ev))"
    using Cons by simp
  ultimately show ?case by (simp only: requests.simps)
qed

text \<open>
  C24: \<open>MaxSteps\<close> bounds a turn: from any state in which no \<open>Run\<close> is executing, one \<open>Run\<close> sends at most
  that many streamed requests, whatever happens beside it, and its compactions send at most that many
  summary requests besides. (The limit counts the streamed ones only, so the provider may be asked up
  to twice as often.)
\<close>

theorem requests_bounded:
  assumes "tc_MaxSteps tc > 0" and "tn_pc w = RReturned ret" and "\<forall>m. RunCalled m \<notin> set evs"
  shows "requests streams tc w (RunCalled msg # evs) \<le> nat (tc_MaxSteps tc) \<and>
    requests summarizes tc w (RunCalled msg # evs) \<le> nat (tc_MaxSteps tc)"
proof -
  let ?w = "turn_event_step tc w (RunCalled msg)" and ?M = "nat (tc_MaxSteps tc)"
  have "requests streams tc ?w evs \<le> streams_left ?M (tn_pc ?w)"
    by (rule requests_le_left) (use turn_step_requests[OF assms(1)] assms(3) in \<open>auto simp: streams_left_def\<close>)
  moreover have "requests summarizes tc ?w evs \<le> summaries_left ?M (tn_pc ?w)"
    by (rule requests_le_left) (use turn_step_requests[OF assms(1)] assms(3) in \<open>auto simp: summaries_left_def\<close>)
  moreover have "streams_left ?M (tn_pc ?w) \<le> ?M" "summaries_left ?M (tn_pc ?w) \<le> ?M"
    using assms(2) by (auto simp: turn_event_step_def left_defs split: sum.splits)
  ultimately show ?thesis by simp
qed

theorem requests_bounded_witness:
  "requests streams tc0 (new_turn root0 Map.empty) (RunCalled msg0 # map (\<lambda>i. RunStep (ue0 i stream0)) [3..<100]) \<le> 5"
proof -
  have "requests streams tc0 (new_turn root0 Map.empty) (RunCalled msg0 # map (\<lambda>i. RunStep (ue0 i stream0)) [3..<100]) \<le> nat (tc_MaxSteps tc0)"
    by (rule requests_bounded[THEN conjunct1]) (auto simp: tc0_def new_turn_def)
  moreover have "nat (tc_MaxSteps tc0) = 5" by (simp add: tc0_def)
  ultimately show ?thesis by (simp only:)
qed

section \<open>What the limit does not count\<close>

text \<open>
  A session with something to compact, a limit of one and a window that is always full: the one \<open>Run\<close>
  asks the provider twice.
\<close>

definition tc1 :: TurnConfig where
  "tc1 = tc0\<lparr>tc_MaxSteps := 1, tc_Compactor := Some compactor0, tc_compacts := True, tc_below := (\<lambda>_. False)\<rparr>"

definition compacting0 :: "turn_event list" where
  "compacting0 = RunCalled msg0 # map (\<lambda>k. RunStep (ue0 k text1)) [6, 7, 8, 9, 10, 11, 12, 13, 14]"

lemma requests_append:
  "requests sends tc w (xs @ ys) = requests sends tc w xs + requests sends tc (run_turn tc w xs) ys"
  by (induction xs arbitrary: w) (simp_all add: run_turn_def)

theorem summary_request_uncounted:
  "tc_MaxSteps tc1 = 1 \<and> requests (\<lambda>pc. streams pc \<or> summarizes pc) tc1 (new_turn answered0 Map.empty) compacting0 = 2"
proof -
  have "append_guard (ulid_ParseStrict ulid0) [] (entries0 0 [SessionOpened opened0, prompt0, answer0 [use0 ''t1''], allow0 ''t1'', result0 ''t1'']) (UserMessage msg0) = None"
    by code_simp
  with answered0_entries have "append_guard (ulid_ParseStrict ulid0) [] (Entries answered0) (UserMessage msg0) = None" by simp
  from sample_append[OF _ _ this, of 6] answered0_entries obtain s where
    s: "Session_Append ulid0 (env0 6) answered0 (UserMessage msg0) = (s, Inr (new_entry (env0 6) (UserMessage msg0)))"
    "Entries s = Entries answered0 @ [new_entry (env0 6) (UserMessage msg0)]" "log_ready s" "s_inherited s = []" by metis
  have id: "en_ID (new_entry (env0 6) (UserMessage msg0)) = 7" by (simp add: new_entry_def env0_def)
  define r where "r = (NewRunner s Map.empty)\<lparr>rn_system := ''system'', rn_state := Streaming, rn_turn := 7, rn_streamCancel := Some 8\<rparr>"
  have r: "rn_session r = s" "rn_interrupt r = []" "rn_turn r = 7" by (simp_all add: r_def NewRunner_def)
  have "map_option (\<lambda>a. (ac_blocksOut a, ac_usage a, ac_stop a, ac_stopRaw a)) (add_parts newAccumulator text1) =
    Some ([TextBlock ''hi''], zero_Usage, StopToolUse, [])" by code_simp
  then obtain acc where acc: "add_parts newAccumulator text1 = Some acc" "ac_blocksOut acc = [TextBlock ''hi'']"
    "ac_usage acc = zero_Usage" "ac_stop acc = StopToolUse" "ac_stopRaw acc = []" by auto
  have es: "Entries s = entries0 0 [SessionOpened opened0, prompt0, answer0 [use0 ''t1''], allow0 ''t1'', result0 ''t1''] @
      [new_entry (env0 6) (UserMessage msg0)]" using s(2) answered0_entries by simp
  have "model_in (Entries s) = model0" "thinking_in (Entries s) = ThinkingOff"
    unfolding es by code_simp+
  with acc have am: "streamed_message (ue0 10 text1) r = Some reply0"
    by (simp add: streamed_message_def ue0_def accumulator_blocks_def Session_Model_def Session_Thinking_def reply0_def enum_defs r)
  have san: "sanitizeToolInputs (am_Content reply0) = (am_Content reply0, Map.empty)"
    "filter (\<lambda>b. bl_Type b = BlockToolUse) (am_Content reply0) = []"
    by (simp_all add: reply0_def malformed_input_def TextBlock_def enum_defs)
  have "append_guard (ulid_ParseStrict ulid0) [] (entries0 0 [SessionOpened opened0, prompt0, answer0 [use0 ''t1''], allow0 ''t1'', result0 ''t1''] @
      [new_entry (env0 6) (UserMessage msg0)]) (AssistantMessage reply0) = None" by code_simp
  then have g: "append_guard (ulid_ParseStrict ulid0) [] (Entries s) (AssistantMessage reply0) = None" unfolding es .
  obtain s1 where s1: "Session_Append ulid0 (env0 12) s (AssistantMessage reply0) = (s1, Inr (new_entry (env0 12) (AssistantMessage reply0)))"
    "Entries s1 = Entries s @ [new_entry (env0 12) (AssistantMessage reply0)]" "log_ready s1"
    by (rule sample_append[OF s(3,4) g, of 12])
  have "length (Cover s1 7) \<ge> 2" unfolding Cover_def RequestContext_def s1(2) es by code_simp
  then have cover: "\<not> length (Cover s1 7) < 2" by simp
  let ?sends = "\<lambda>pc. streams pc \<or> summarizes pc" and ?w = "\<lparr>tn_runner = r, tn_pc = RAssemble 1 8\<rparr>"
  have "run_turn tc1 (new_turn answered0 Map.empty) (take 4 compacting0) = ?w \<and>
      requests ?sends tc1 (new_turn answered0 Map.empty) (take 4 compacting0) = 0"
    using s(1) id
    by (simp add: turn_eval tc1_def compacting0_def new_turn_def NewRunner_def claim_run_def resting_def newInflight_def
      inflight_reset_def msg0_def r_def enum_defs)
  moreover have "requests ?sends tc1 ?w (drop 4 compacting0) = 2"
    using am s1(1) san cover r
    by (simp add: turn_event_step_def compacting0_def observeInterrupt_def appendAssistant_def Runner_append_def
      compact_cover_def compaction_due_def Let_def tc1_def tc0_def cf0_def ue0_def)
  moreover have "compacting0 = take 4 compacting0 @ drop 4 compacting0" by simp
  ultimately have "requests ?sends tc1 (new_turn answered0 Map.empty) compacting0 = 2"
    by (metis requests_append add_0)
  then show ?thesis by (simp add: tc1_def)
qed

end
