(* ===== verification/Approvals.thy ===== *)
theory Approvals
  imports Session_Theorems "HOL-Library.AList"
begin

text \<open>
  Approvals an agent runtime asks the server for, \<open>internal/server/runtime_approval.go\<close>, with the part
  of \<open>runtimeEvent\<close> in \<open>internal/server/runtime_session.go\<close> and of \<open>abandonStanding\<close> in
  \<open>internal/server/session_live.go\<close> that moves them. Several goroutines work on one approval: the
  call of \<open>RequestApproval\<close> that waits for it, the handler of a client's answer, and the runtime's
  events, which may find it stale. Each is a task whose points lie between the code's critical
  sections; \<open>approval_step\<close> runs one event. The mutex \<open>rs.mu\<close>, which the answer handler and the
  runtime's events hold over several of these sections, is not modelled: the schedules here
  include every one the code allows. A pending approval is a cell of \<open>lr_pending\<close>, named by its
  index as Go names it by its pointer, and the one-place answer channel is an optional value.
  The notifications to the clients are not modelled.
\<close>

section \<open>Questions and answers\<close>

definition Approval_ScopeOnce :: bytes where [enum_defs]: "Approval_ScopeOnce = ''once''"
definition Approval_ScopeSession :: bytes where [enum_defs]: "Approval_ScopeSession = ''session''"
definition Approval_DecisionAllow :: bytes where [enum_defs]: "Approval_DecisionAllow = ''allow''"
definition Approval_DecisionDeny :: bytes where [enum_defs]: "Approval_DecisionDeny = ''deny''"
definition ApprovalCommand :: bytes where [enum_defs]: "ApprovalCommand = ''command''"
definition ApprovalFileChange :: bytes where [enum_defs]: "ApprovalFileChange = ''file_change''"
definition ApprovalPermissions :: bytes where [enum_defs]: "ApprovalPermissions = ''permissions''"

text \<open>The fields of a question the server decides by; the rest of the struct is only shown to the asker.\<close>

record ApprovalQuestion =
  aq_Runtime :: bytes
  aq_RequestID :: bytes
  aq_ThreadID :: bytes
  aq_TurnID :: bytes
  aq_ItemID :: bytes
  aq_Kind :: bytes
  aq_Permissions :: "bytes list"
  aq_AllowedScopes :: "bytes list"

record ApprovalAnswer =
  aa_Decision :: bytes
  aa_Scope :: bytes
  aa_Reason :: bytes
  aa_Granted :: "bytes list"

datatype approval_error =
    BindingIncomplete | KindInvalid | NoAllowedScope | InvalidQuestionScope
  | ReasonRequired | InvalidAnswerDecision | DenyNotPlain | ScopeNotOffered | GrantOutsidePermissions | UnrequestedGrant bytes

fun validate_scopes :: "bytes list \<Rightarrow> approval_error option" where
  "validate_scopes [] = None"
| "validate_scopes (sc # scs) =
     (if sc \<noteq> Approval_ScopeOnce \<and> sc \<noteq> Approval_ScopeSession then Some InvalidQuestionScope else validate_scopes scs)"

definition validateRuntimeQuestion :: "ApprovalQuestion \<Rightarrow> approval_error option" where
  "validateRuntimeQuestion q =
     (if aq_Runtime q = [] \<or> aq_RequestID q = [] \<or> aq_ThreadID q = [] \<or> aq_TurnID q = [] \<or> aq_ItemID q = []
      then Some BindingIncomplete
      else if aq_Kind q \<notin> {ApprovalCommand, ApprovalFileChange, ApprovalPermissions} then Some KindInvalid
      else if aq_AllowedScopes q = [] then Some NoAllowedScope
      else validate_scopes (aq_AllowedScopes q))"

fun validate_granted :: "bytes list \<Rightarrow> bytes list \<Rightarrow> approval_error option" where
  "validate_granted perms [] = None"
| "validate_granted perms (g # gs) = (if g \<notin> set perms then Some (UnrequestedGrant g) else validate_granted perms gs)"

definition validateRuntimeAnswer :: "ApprovalQuestion \<Rightarrow> ApprovalAnswer \<Rightarrow> approval_error option" where
  "validateRuntimeAnswer q a =
     (if aa_Reason a = [] then Some ReasonRequired
      else if aa_Decision a \<noteq> Approval_DecisionAllow \<and> aa_Decision a \<noteq> Approval_DecisionDeny then Some InvalidAnswerDecision
      else if aa_Decision a = Approval_DecisionDeny then
        (if aa_Scope a \<noteq> Approval_ScopeOnce \<or> aa_Granted a \<noteq> [] then Some DenyNotPlain else None)
      else if aa_Scope a \<notin> set (aq_AllowedScopes q) then Some ScopeNotOffered
      else if aq_Kind q \<noteq> ApprovalPermissions \<and> aa_Granted a \<noteq> [] then Some GrantOutsidePermissions
      else validate_granted (aq_Permissions q) (aa_Granted a))"

definition runtimeDeny :: "bytes \<Rightarrow> ApprovalAnswer" where
  "runtimeDeny reason =
     \<lparr>aa_Decision = Approval_DecisionDeny, aa_Scope = Approval_ScopeOnce,
      aa_Reason = (if reason = [] then ''runtime approval denied'' else reason), aa_Granted = []\<rparr>"

section \<open>The live session\<close>

record runtimeApproval =
  ra_question :: ApprovalQuestion
  ra_answer :: "ApprovalAnswer option"
  ra_answered :: bool
  ra_abandoned :: bool

text \<open>What an event resolves: the approvals of a turn, of a request, or of an item of a turn.\<close>

datatype resolution = NoResolution | ResolveTurn bytes | ResolveRequest bytes | ResolveItem bytes bytes

text \<open>
  The points of the goroutines: a deny of \<open>RequestApproval\<close> to be recorded for a question that is not
  registered; waiting in \<open>RequestApproval\<close>; having claimed a deny that is still to
  be recorded, with whether an error is returned beside it; waiting for the answer somebody else
  claimed; a client's answer to be recorded; an answer to be sent; an event
  whose approvals are still to be taken out; approvals to be denied as stale (with those that only have to be announced already left out), after which the used request ids
  are forgotten or not; and the end of \<open>RequestApproval\<close> with its answer and whether it is an error.
\<close>

datatype task =
    Recording ApprovalQuestion ApprovalAnswer RuntimeDecidedBy
  | Waiting nat
  | Claimed nat ApprovalAnswer RuntimeDecidedBy bool
  | Awaiting nat
  | Answering nat ApprovalAnswer
  | Sending nat ApprovalAnswer "nat list" bytes bool
  | Resolving resolution
  | Denying "nat list" bytes bool
  | Returned ApprovalQuestion ApprovalAnswer bool
  | Finished

record runtimeSessionState =
  rs_active :: "bytes option"
  rs_terminal :: bytes
  rs_steering :: bool
  rs_ambiguous :: bool
  rs_sequence :: nat
  rs_revision :: "64 word"
  rs_items :: "(bytes \<times> bytes) list"
  rs_usage :: Usage

record liveSession =
  lr_session :: Session
  lr_closed :: bool
  lr_runtime :: runtimeSessionState
  lr_pending :: "runtimeApproval list"
  lr_approvals :: "(bytes \<times> nat) list"
  lr_answered :: "(bytes \<times> bool) list"
  lr_tasks :: "task list"

definition runtime_record :: "ApprovalQuestion \<Rightarrow> ApprovalAnswer \<Rightarrow> RuntimeDecidedBy \<Rightarrow> RuntimePermissionDecision" where
  "runtime_record q a by =
     \<lparr>rd_Runtime = aq_Runtime q, rd_ThreadID = aq_ThreadID q, rd_TurnID = aq_TurnID q, rd_ItemID = aq_ItemID q,
      rd_RequestID = aq_RequestID q, rd_ApprovalKind = aq_Kind q,
      rd_Decision = (if aa_Decision a = Approval_DecisionAllow then Allow else Deny), rd_DecidedBy = by,
      rd_Scope = aa_Scope a, rd_Reason = aa_Reason a\<rparr>"

text \<open>\<open>recordRuntimeDecision\<close>: whether the decision was recorded.\<close>

definition recordRuntimeDecision ::
  "ulid_lib \<Rightarrow> call_env \<Rightarrow> liveSession \<Rightarrow> ApprovalQuestion \<Rightarrow> ApprovalAnswer \<Rightarrow> RuntimeDecidedBy \<Rightarrow> liveSession \<times> bool" where
  "recordRuntimeDecision U env ls q a by =
     (if lr_closed ls then (ls, False)
      else case Session_Append U env (lr_session ls) (RuntimePermissionDecision (runtime_record q a by)) of
        (s, Inl _) \<Rightarrow> (ls\<lparr>lr_session := s\<rparr>, False)
      | (s, Inr _) \<Rightarrow> (ls\<lparr>lr_session := s\<rparr>, True))"

definition upd_pending :: "nat \<Rightarrow> (runtimeApproval \<Rightarrow> runtimeApproval) \<Rightarrow> liveSession \<Rightarrow> liveSession" where
  "upd_pending i f ls =
     (if i < length (lr_pending ls) then ls\<lparr>lr_pending := (lr_pending ls)[i := f (lr_pending ls ! i)]\<rparr> else ls)"

definition question_of :: "liveSession \<Rightarrow> nat \<Rightarrow> ApprovalQuestion" where
  "question_of ls i = ra_question (lr_pending ls ! i)"

definition set_task :: "nat \<Rightarrow> task \<Rightarrow> liveSession \<Rightarrow> liveSession" where
  "set_task k t ls = ls\<lparr>lr_tasks := (lr_tasks ls)[k := t]\<rparr>"

definition add_task :: "task \<Rightarrow> liveSession \<Rightarrow> liveSession" where
  "add_task t ls = ls\<lparr>lr_tasks := lr_tasks ls @ [t]\<rparr>"

text \<open>The claim every deciding goroutine makes under \<open>obsMu\<close>.\<close>

definition mark_answered :: "nat \<Rightarrow> liveSession \<Rightarrow> liveSession" where
  "mark_answered i ls =
     (upd_pending i (\<lambda>p. p\<lparr>ra_answered := True\<rparr>) ls)
       \<lparr>lr_answered := AList.update (aq_RequestID (question_of ls i)) True (lr_answered ls)\<rparr>"

section \<open>Asking\<close>

text \<open>
  \<open>RequestApproval\<close> up to its \<open>select\<close>: whether its context is done, whether the thread is bound to
  this session, and how many askers are attached come from outside.
\<close>

definition RequestApproval ::
  "bool \<Rightarrow> bool \<Rightarrow> nat \<Rightarrow> ApprovalQuestion \<Rightarrow> liveSession \<Rightarrow> liveSession" where
  "RequestApproval ctxDone bound targets q ls =
     (let refused = runtimeDeny ''runtime approval refused'' in
      if ctxDone \<or> validateRuntimeQuestion q \<noteq> None \<or> \<not> bound then add_task (Returned q refused True) ls
      else if rs_active (lr_runtime ls) \<noteq> Some (aq_TurnID q) \<or> map_of (rs_items (lr_runtime ls)) (aq_ItemID q) = None then
        add_task (Recording q (runtimeDeny ''runtime approval binding is stale'') RuntimeByStale) ls
      else if map_of (lr_answered ls) (aq_RequestID q) \<noteq> None then add_task (Returned q refused True) ls
      else if targets = 0 then
        add_task (Recording q (runtimeDeny ''no asker is attached'') RuntimeByNoAsker)
          (ls\<lparr>lr_answered := AList.update (aq_RequestID q) True (lr_answered ls)\<rparr>)
      else
        add_task (Waiting (length (lr_pending ls)))
          (ls\<lparr>lr_answered := AList.update (aq_RequestID q) False (lr_answered ls),
              lr_approvals := AList.update (aq_RequestID q) (length (lr_pending ls)) (lr_approvals ls),
              lr_pending := lr_pending ls @ [\<lparr>ra_question = q, ra_answer = None, ra_answered = False, ra_abandoned = False\<rparr>]\<rparr>))"

text \<open>What \<open>select\<close> chose.\<close>

datatype selected = GotAnswer | WasAbandoned | ServerDone | ContextDone bool bytes

text \<open>\<open>finishRuntimeApproval\<close> up to the record: the claim, or not.\<close>

definition finishRuntimeApproval ::
  "nat \<Rightarrow> nat \<Rightarrow> ApprovalAnswer \<Rightarrow> RuntimeDecidedBy \<Rightarrow> bool \<Rightarrow> bool \<Rightarrow> liveSession \<Rightarrow> liveSession" where
  "finishRuntimeApproval k i deny by remove err ls =
     (if ra_answered (lr_pending ls ! i) then set_task k (Awaiting i) ls
      else
        (let ls1 = mark_answered i ls;
             ls2 = (if remove then ls1\<lparr>lr_approvals := AList.delete (aq_RequestID (question_of ls i)) (lr_approvals ls1)\<rparr> else ls1)
         in set_task k (Claimed i deny by err) ls2))"

definition select_step :: "nat \<Rightarrow> nat \<Rightarrow> selected \<Rightarrow> liveSession \<Rightarrow> liveSession" where
  "select_step k i sel ls =
     (case sel of
        GotAnswer \<Rightarrow>
          (case ra_answer (lr_pending ls ! i) of
             Some a \<Rightarrow> set_task k (Returned (question_of ls i) a False) ls
           | None \<Rightarrow> ls)
      | WasAbandoned \<Rightarrow>
          if ra_abandoned (lr_pending ls ! i)
          then finishRuntimeApproval k i (runtimeDeny ''asker disconnected'') RuntimeByDisconnect False False ls
          else ls
      | ServerDone \<Rightarrow>
          finishRuntimeApproval k i (runtimeDeny ''server shutting down'') RuntimeByShutdown True True ls
      | ContextDone deadline t \<Rightarrow>
          finishRuntimeApproval k i (runtimeDeny t)
            (if deadline then RuntimeByTimeout else RuntimeByRuntimeFailure) True True ls)"

section \<open>Answering\<close>

record RuntimeApprovalAnswerParams =
  pa_TurnID :: bytes
  pa_RequestID :: bytes
  pa_Decision :: bytes
  pa_Scope :: bytes
  pa_Reason :: bytes
  pa_Granted :: "bytes list"

datatype answer_error = Unauthorized | Conflict bytes | NotFound | InvalidArgument approval_error

text \<open>The checks of \<open>handleRuntimeApprovalAnswer\<close>: an error, or the approval it answers and the answer.\<close>

definition answer_checks ::
  "bool \<Rightarrow> bool \<Rightarrow> bool \<Rightarrow> RuntimeApprovalAnswerParams \<Rightarrow> liveSession \<Rightarrow> (answer_error, nat \<times> ApprovalAnswer) result" where
  "answer_checks asker subscribed ctxDone p ls =
     (if \<not> asker \<or> \<not> subscribed then Inl Unauthorized
      else if rs_active (lr_runtime ls) \<noteq> Some (pa_TurnID p) then Inl (Conflict ''runtime approval belongs to another turn'')
      else case map_of (lr_approvals ls) (pa_RequestID p) of
        None \<Rightarrow>
          if map_of (lr_answered ls) (pa_RequestID p) = Some True
          then Inl (Conflict ''runtime approval was already answered'') else Inl NotFound
      | Some i \<Rightarrow>
          (let pending = lr_pending ls ! i;
               a = \<lparr>aa_Decision = pa_Decision p, aa_Scope = pa_Scope p, aa_Reason = pa_Reason p, aa_Granted = pa_Granted p\<rparr> in
           if ra_answered pending \<or> ra_abandoned pending \<or> map_of (lr_answered ls) (pa_RequestID p) = Some True
           then Inl (Conflict ''runtime approval was already answered'')
           else if ctxDone then Inl (Conflict ''runtime approval is no longer active'')
           else if aq_TurnID (ra_question pending) \<noteq> pa_TurnID p then Inl (Conflict ''runtime approval binding changed'')
           else if map_of (rs_items (lr_runtime ls)) (aq_ItemID (ra_question pending)) = None
           then Inl (Conflict ''runtime approval item is no longer active'')
           else case validateRuntimeAnswer (ra_question pending) a of
             Some e \<Rightarrow> Inl (InvalidArgument e)
           | None \<Rightarrow> Inr (i, a)))"

definition handleRuntimeApprovalAnswer ::
  "bool \<Rightarrow> bool \<Rightarrow> bool \<Rightarrow> RuntimeApprovalAnswerParams \<Rightarrow> liveSession \<Rightarrow> liveSession" where
  "handleRuntimeApprovalAnswer asker subscribed ctxDone p ls =
     (case answer_checks asker subscribed ctxDone p ls of
        Inl _ \<Rightarrow> ls
      | Inr (i, a) \<Rightarrow> add_task (Answering i a) (mark_answered i ls))"

section \<open>The runtime's events\<close>

definition EventTurnStarted :: bytes where [enum_defs]: "EventTurnStarted = ''turn_started''"
definition EventTurnCompleted :: bytes where [enum_defs]: "EventTurnCompleted = ''turn_completed''"
definition EventRuntimeFailed :: bytes where [enum_defs]: "EventRuntimeFailed = ''runtime_failed''"
definition EventItemStarted :: bytes where [enum_defs]: "EventItemStarted = ''item_started''"
definition EventItemCompleted :: bytes where [enum_defs]: "EventItemCompleted = ''item_completed''"
definition EventUsageUpdated :: bytes where [enum_defs]: "EventUsageUpdated = ''usage_updated''"
definition EventRequestResolved :: bytes where [enum_defs]: "EventRequestResolved = ''request_resolved''"

text \<open>The fields of an event that change the state; the texts it carries are only shown.\<close>

record Event =
  ev_Type :: bytes
  ev_TurnID :: bytes
  ev_ItemID :: bytes
  ev_RequestID :: bytes
  ev_Sequence :: nat
  ev_Item_ItemID :: bytes
  ev_Item_Type :: bytes
  ev_Usage :: Usage

definition end_runtime_turn :: "bytes \<Rightarrow> runtimeSessionState \<Rightarrow> runtimeSessionState" where
  "end_runtime_turn t rs = rs\<lparr>rs_active := None, rs_terminal := t, rs_steering := False, rs_items := []\<rparr>"

definition runtime_switch :: "Event \<Rightarrow> runtimeSessionState \<Rightarrow> runtimeSessionState \<times> resolution" where
  "runtime_switch ev rs =
     (let t = ev_TurnID ev; activeID = (case rs_active rs of Some a \<Rightarrow> a | None \<Rightarrow> []) in
      if ev_Type ev = EventTurnStarted then
        (if t = [] \<or> activeID \<noteq> [] \<and> activeID \<noteq> t then (rs, NoResolution)
         else (rs\<lparr>rs_active := Some t, rs_steering := False\<rparr>, NoResolution))
      else if ev_Type ev = EventItemStarted then
        (if t = [] \<or> ev_ItemID ev = [] \<or> ev_Item_Type ev = [] \<or> activeID \<noteq> t then (rs, NoResolution)
         else (rs\<lparr>rs_items := AList.update (ev_ItemID ev) (ev_Item_Type ev) (rs_items rs)\<rparr>, NoResolution))
      else if ev_Type ev = EventItemCompleted then
        (if t = [] \<or> ev_Item_ItemID ev = [] \<or> ev_Item_Type ev = [] \<or> activeID \<noteq> t then (rs, NoResolution)
         else (rs\<lparr>rs_items := AList.delete (ev_Item_ItemID ev) (rs_items rs)\<rparr>, ResolveItem t (ev_Item_ItemID ev)))
      else if ev_Type ev = EventUsageUpdated then (rs\<lparr>rs_usage := ev_Usage ev\<rparr>, NoResolution)
      else if ev_Type ev = EventRuntimeFailed then
        (if t = [] \<or> activeID \<noteq> t then (rs, NoResolution)
         else (end_runtime_turn t (rs\<lparr>rs_ambiguous := True\<rparr>), ResolveTurn t))
      else if ev_Type ev = EventTurnCompleted then
        (if t = [] \<or> activeID \<noteq> t then (rs, NoResolution)
         else (end_runtime_turn t (if ev_Usage ev \<noteq> zero_Usage then rs\<lparr>rs_usage := ev_Usage ev\<rparr> else rs), ResolveTurn t))
      else if ev_Type ev = EventRequestResolved then
        (if ev_RequestID ev = [] then (rs, NoResolution) else (rs, ResolveRequest (ev_RequestID ev)))
      else (rs, NoResolution))"

text \<open>The guards on the sequence number and the turn, then the switch.\<close>

definition runtime_event_state :: "Event \<Rightarrow> runtimeSessionState \<Rightarrow> runtimeSessionState \<times> resolution" where
  "runtime_event_state ev rs =
     (if ev_Sequence ev \<noteq> 0 \<and> ev_Sequence ev \<le> rs_sequence rs then (rs, NoResolution)
      else
        (let rs1 = rs\<lparr>rs_sequence := (if ev_Sequence ev \<noteq> 0 then ev_Sequence ev else rs_sequence rs), rs_revision := rs_revision rs + 1\<rparr>;
             activeID = (case rs_active rs of Some a \<Rightarrow> a | None \<Rightarrow> []) in
         if ev_Type ev \<noteq> EventTurnStarted \<and> ev_TurnID ev \<noteq> [] \<and> activeID \<noteq> [] \<and> ev_TurnID ev \<noteq> activeID
         then (rs1, NoResolution)
         else runtime_switch ev rs1))"

text \<open>
  The approvals a loop over the map takes out in task \<open>k\<close>, and the ones of them it claims to deny. Go visits the
  map in any order; the claims do not depend on it, and the order of the denies is the list's.
\<close>

definition take_approvals :: "(bytes \<Rightarrow> runtimeApproval \<Rightarrow> bool) \<Rightarrow> liveSession \<Rightarrow> liveSession \<times> nat list" where
  "take_approvals hit ls =
     (let taken = filter (\<lambda>(req, i). hit req (lr_pending ls ! i)) (lr_approvals ls);
          denied = filter (\<lambda>i. \<not> ra_answered (lr_pending ls ! i)) (map snd taken);
          ls1 = ls\<lparr>lr_approvals := filter (\<lambda>(req, i). \<not> hit req (lr_pending ls ! i)) (lr_approvals ls)\<rparr>
      in (fold mark_answered denied ls1, denied))"

definition resolveRuntimeApprovals :: "nat \<Rightarrow> bytes \<Rightarrow> bytes \<Rightarrow> bool \<Rightarrow> liveSession \<Rightarrow> liveSession" where
  "resolveRuntimeApprovals k requestID turnID forget ls =
     (case take_approvals
         (\<lambda>req p. \<not> (requestID \<noteq> [] \<and> req \<noteq> requestID \<or> turnID \<noteq> [] \<and> aq_TurnID (ra_question p) \<noteq> turnID)) ls of
        (ls1, denied) \<Rightarrow> set_task k (Denying denied ''runtime approval became stale'' forget) ls1)"

definition failRuntimeApprovalsForItem :: "nat \<Rightarrow> bytes \<Rightarrow> bytes \<Rightarrow> liveSession \<Rightarrow> liveSession" where
  "failRuntimeApprovalsForItem k turnID itemID ls =
     (case take_approvals
         (\<lambda>req p. \<not> (ra_answered p \<or> aq_TurnID (ra_question p) \<noteq> turnID \<or> aq_ItemID (ra_question p) \<noteq> itemID)) ls of
        (ls1, denied) \<Rightarrow> set_task k (Denying denied ''runtime approval item completed'' False) ls1)"

text \<open>The end of \<open>runtimeEvent\<close>: the state is changed, the approvals it makes stale are still to be taken out.\<close>

definition resolve_step :: "nat \<Rightarrow> resolution \<Rightarrow> liveSession \<Rightarrow> liveSession" where
  "resolve_step k res ls =
     (case res of
        NoResolution \<Rightarrow> set_task k Finished ls
      | ResolveTurn t \<Rightarrow> resolveRuntimeApprovals k [] t True ls
      | ResolveRequest r \<Rightarrow> resolveRuntimeApprovals k r [] False ls
      | ResolveItem t i \<Rightarrow> failRuntimeApprovalsForItem k t i ls)"

definition runtimeEvent :: "Event \<Rightarrow> liveSession \<Rightarrow> liveSession" where
  "runtimeEvent ev ls =
     (case runtime_event_state ev (lr_runtime ls) of
        (rs, res) \<Rightarrow> add_task (Resolving res) (ls\<lparr>lr_runtime := rs\<rparr>))"

text \<open>\<open>abandonStanding\<close> when no asker is left.\<close>

definition abandon_approvals :: "liveSession \<Rightarrow> liveSession" where
  "abandon_approvals ls =
     fold (\<lambda>i. upd_pending i (\<lambda>p. if ra_answered p \<or> ra_abandoned p then p else p\<lparr>ra_abandoned := True\<rparr>))
       (map snd (lr_approvals ls)) ls"

section \<open>The tasks\<close>

text \<open>One step of task \<open>k\<close>; a send to a full channel and a wait for an answer do not move.\<close>

definition task_step :: "ulid_lib \<Rightarrow> call_env \<Rightarrow> selected \<Rightarrow> nat \<Rightarrow> liveSession \<Rightarrow> liveSession" where
  "task_step U env sel k ls =
     (if k \<ge> length (lr_tasks ls) then ls
      else case lr_tasks ls ! k of
        Recording q deny by \<Rightarrow>
          (case recordRuntimeDecision U env ls q deny by of (ls1, ok) \<Rightarrow> set_task k (Returned q deny (\<not> ok)) ls1)
      | Waiting i \<Rightarrow> select_step k i sel ls
      | Claimed i deny by err \<Rightarrow>
          (case recordRuntimeDecision U env ls (question_of ls i) deny by of
             (ls1, ok) \<Rightarrow> set_task k (Returned (question_of ls i) deny (\<not> ok \<or> err)) ls1)
      | Awaiting i \<Rightarrow>
          (case ra_answer (lr_pending ls ! i) of
             Some a \<Rightarrow> set_task k (Returned (question_of ls i) a False) ls
           | None \<Rightarrow> ls)
      | Answering i a \<Rightarrow>
          (case recordRuntimeDecision U env ls (question_of ls i) a RuntimeByAsker of
             (ls1, ok) \<Rightarrow>
               set_task k (Sending i (if ok then a else runtimeDeny ''could not persist runtime approval'') [] [] False) ls1)
      | Resolving res \<Rightarrow> resolve_step k res ls
      | Denying [] reason forget \<Rightarrow>
          set_task k Finished (if forget then ls\<lparr>lr_answered := []\<rparr> else ls)
      | Denying (i # is) reason forget \<Rightarrow>
          (case recordRuntimeDecision U env ls (question_of ls i) (runtimeDeny reason) RuntimeByStale of
             (ls1, _) \<Rightarrow> set_task k (Sending i (runtimeDeny reason) is reason forget) ls1)
      | Sending i a is reason forget \<Rightarrow>
          (case ra_answer (lr_pending ls ! i) of
             Some _ \<Rightarrow> ls
           | None \<Rightarrow> set_task k (Denying is reason forget) (upd_pending i (\<lambda>p. p\<lparr>ra_answer := Some a\<rparr>) ls))
      | Returned _ _ _ \<Rightarrow> ls
      | Finished \<Rightarrow> ls)"

section \<open>Schedules\<close>

datatype approval_event =
    Asked bool bool nat ApprovalQuestion
  | Answered bool bool bool RuntimeApprovalAnswerParams
  | TaskStep nat selected call_env
  | RuntimeEvent Event
  | AskersGone
  | OtherEntry call_env payload
  | SessionSynced sync_io
  | SessionClosed

definition approval_step :: "ulid_lib \<Rightarrow> liveSession \<Rightarrow> approval_event \<Rightarrow> liveSession" where
  "approval_step U ls ev =
     (case ev of
        Asked ctxDone bound targets q \<Rightarrow> RequestApproval ctxDone bound targets q ls
      | Answered asker subscribed ctxDone p \<Rightarrow> handleRuntimeApprovalAnswer asker subscribed ctxDone p ls
      | TaskStep k sel env \<Rightarrow> task_step U env sel k ls
      | RuntimeEvent ev \<Rightarrow> runtimeEvent ev ls
      | AskersGone \<Rightarrow> abandon_approvals ls
      | OtherEntry env p \<Rightarrow> ls\<lparr>lr_session := fst (Session_Append U env (lr_session ls) p)\<rparr>
      | SessionSynced io \<Rightarrow> ls\<lparr>lr_session := fst (Session_Sync io (lr_session ls))\<rparr>
      | SessionClosed \<Rightarrow> ls\<lparr>lr_closed := True\<rparr>)"

definition new_live :: "Session \<Rightarrow> liveSession" where
  "new_live s =
     \<lparr>lr_session = s, lr_closed = False,
      lr_runtime = \<lparr>rs_active = None, rs_terminal = [], rs_steering = False, rs_ambiguous = False, rs_sequence = 0,
        rs_revision = 0, rs_items = [], rs_usage = zero_Usage\<rparr>,
      lr_pending = [], lr_approvals = [], lr_answered = [], lr_tasks = []\<rparr>"

end
