(* ===== verification/Approvals_Inv.thy ===== *)
theory Approvals_Inv
  imports Approvals
begin

text \<open>
  An allow that an agent runtime receives was given by an asker, is one the question offered, and is
  on disk before it is received; and every approval is decided once, so that no send to its answer
  channel ever blocks. Both hold in every schedule of the tasks.
\<close>

section \<open>Decisions on disk\<close>

definition log_sound :: "Session \<Rightarrow> bool" where
  "log_sound s \<longleftrightarrow> lg_synced (s_log s) \<le> length (lg_written (s_log s))"

text \<open>The line of an entry is among the synced bytes of the file.\<close>

definition on_disk :: "ulid_lib \<Rightarrow> Session \<Rightarrow> Entry \<Rightarrow> bool" where
  "on_disk U s e \<longleftrightarrow>
     (\<exists>pre line. Entry_MarshalJSON U e = Inr line \<and>
        prefix (pre @ line @ [c_nl]) (take (lg_synced (s_log s)) (lg_written (s_log s))))"

definition recorded :: "ulid_lib \<Rightarrow> Session \<Rightarrow> RuntimePermissionDecision \<Rightarrow> bool" where
  "recorded U s d \<longleftrightarrow> (\<exists>e\<in>set (Entries s). en_Payload e = RuntimePermissionDecision d \<and> on_disk U s e)"

definition session_grew :: "Session \<Rightarrow> Session \<Rightarrow> bool" where
  "session_grew s s' \<longleftrightarrow>
     lg_synced (s_log s) \<le> lg_synced (s_log s') \<and> log_sound s' \<and> prefix (lg_written (s_log s)) (lg_written (s_log s')) \<and>
     set (Entries s) \<subseteq> set (Entries s')"

lemma log_step_grew:
  assumes "lg_synced l \<le> length (lg_written l)"
  shows "Log_Append U io l e = (l', r) \<Longrightarrow> lg_synced l \<le> lg_synced l' \<and> lg_synced l' \<le> length (lg_written l') \<and> prefix (lg_written l) (lg_written l')"
    and "Log_Sync sio l = (l', r) \<Longrightarrow> lg_synced l \<le> lg_synced l' \<and> lg_synced l' \<le> length (lg_written l') \<and> prefix (lg_written l) (lg_written l')"
  using log_step_synced[OF assms, of U "LAppend io e"] log_step_written[of l U "LAppend io e"]
    log_step_synced[OF assms, of U "LSync sio"] log_step_written[of l U "LSync sio"]
  by (simp_all add: log_step_def)

lemma Session_Append_grew:
  assumes "log_sound s" and "Session_Append U env s p = (s', r)"
  shows "session_grew s s'"
proof -
  obtain l1 r1 where l1: "Log_Append U (ce_write env) (s_log s) (new_entry env p) = (l1, r1)" by (metis prod.collapse)
  obtain l2 r2 where l2: "Log_Sync (ce_sync env) l1 = (l2, r2)" by (metis prod.collapse)
  note g1 = log_step_grew(1)[OF _ l1] and g2 = log_step_grew(2)[OF _ l2]
  have "Entries s' = Entries s \<or> Entries s' = Entries s @ [new_entry env p]"
    using assms(2) by (cases rule: Session_Append_cases) (auto simp: Entries_def)
  moreover have "s_log s' = s_log s \<or> s_log s' = l1 \<or> s_log s' = l2"
    using assms(2) l1 l2 by (auto simp: Session_Append_def Let_def split: option.splits if_splits prod.splits)
  ultimately show ?thesis using g1 g2 assms(1) by (auto simp: session_grew_def log_sound_def)
qed

lemma Session_Sync_grew:
  assumes "log_sound s" and "Session_Sync io s = (s', r)"
  shows "session_grew s s'"
proof -
  obtain l r1 where l: "Log_Sync io (s_log s) = (l, r1)" by (metis prod.collapse)
  then have "s_log s' = l" using assms(2) by (auto simp: Session_Sync_def split: prod.splits)
  with log_step_grew(2)[OF _ l] Session_Sync_entries[OF assms(2)] assms(1) show ?thesis
    by (auto simp: session_grew_def log_sound_def)
qed

lemma prefix_take_mono: "prefix xs ys \<Longrightarrow> m \<le> n \<Longrightarrow> m \<le> length xs \<Longrightarrow> prefix (take m xs) (take n ys)"
  by (auto simp: prefix_def) (metis append_take_drop_id take_add le_add_diff_inverse take_append diff_is_0_eq' take_eq_Nil append_Nil2)

lemma recorded_grew:
  assumes "recorded U s d" and "log_sound s" and "session_grew s s'"
  shows "recorded U s' d"
proof -
  have "prefix (take (lg_synced (s_log s)) (lg_written (s_log s))) (take (lg_synced (s_log s')) (lg_written (s_log s')))"
    by (rule prefix_take_mono) (use assms(2,3) in \<open>auto simp: session_grew_def log_sound_def\<close>)
  with assms(1,3) show ?thesis
    unfolding recorded_def on_disk_def session_grew_def by (meson prefix_order.trans subsetD)
qed

lemma allow_recorded:
  assumes "Session_Append U env s (RuntimePermissionDecision d) = (s', Inr e)" and "rd_Decision d = Allow"
  shows "recorded U s' d"
proof -
  have "durableAllow (RuntimePermissionDecision d)" using assms(2) by (simp add: durableAllow_def)
  from durable_append_synced[OF assms(1) this] obtain line where
    "Entry_MarshalJSON U e = Inr line" "lg_written (s_log s') = lg_written (s_log s) @ line @ [c_nl]"
    "lg_synced (s_log s') = length (lg_written (s_log s'))" by blast
  moreover have "e = new_entry env (RuntimePermissionDecision d) \<and> Entries s' = Entries s @ [e]"
    using assms(1) by (cases rule: Session_Append_cases) (auto simp: Entries_def)
  ultimately show ?thesis
    unfolding recorded_def on_disk_def
    by (intro bexI[of _ e]) (auto simp: new_entry_def intro!: exI[of _ "lg_written (s_log s)"])
qed

lemma record_grew:
  assumes "log_sound (lr_session ls)" and "recordRuntimeDecision U env ls q a by = (ls', ok)"
  shows "session_grew (lr_session ls) (lr_session ls') \<and> ls' = ls\<lparr>lr_session := lr_session ls'\<rparr> \<and>
    (ok \<longrightarrow> aa_Decision a = Approval_DecisionAllow \<longrightarrow> recorded U (lr_session ls') (runtime_record q a by))"
proof (cases "lr_closed ls")
  case True
  with assms show ?thesis by (auto simp: recordRuntimeDecision_def session_grew_def)
next
  case False
  obtain s r where ap: "Session_Append U env (lr_session ls) (RuntimePermissionDecision (runtime_record q a by)) = (s, r)"
    by (metis prod.collapse)
  have "rd_Decision (runtime_record q a by) = Allow" if "aa_Decision a = Approval_DecisionAllow"
    using that by (simp add: runtime_record_def)
  with allow_recorded ap Session_Append_grew[OF assms(1) ap] assms(2) False show ?thesis
    by (cases r) (auto simp: recordRuntimeDecision_def)
qed

section \<open>Allows are recorded before they are sent\<close>

text \<open>An answer to a question that may reach the runtime: a deny, or a valid allow that is on disk.\<close>

definition backed :: "ulid_lib \<Rightarrow> Session \<Rightarrow> ApprovalQuestion \<Rightarrow> ApprovalAnswer \<Rightarrow> bool" where
  "backed U s q a \<longleftrightarrow>
     (aa_Decision a = Approval_DecisionAllow \<longrightarrow>
        validateRuntimeAnswer q a = None \<and> recorded U s (runtime_record q a RuntimeByAsker))"

fun task_backed :: "ulid_lib \<Rightarrow> Session \<Rightarrow> (nat \<Rightarrow> ApprovalQuestion) \<Rightarrow> task \<Rightarrow> bool" where
  "task_backed U s q (Recording qu d by) = (aa_Decision d \<noteq> Approval_DecisionAllow)"
| "task_backed U s q (Claimed i d by err) = (aa_Decision d \<noteq> Approval_DecisionAllow)"
| "task_backed U s q (Answering i a) = (validateRuntimeAnswer (q i) a = None)"
| "task_backed U s q (Sending i a is r f) = backed U s (q i) a"
| "task_backed U s q (Returned qu a err) = backed U s qu a"
| "task_backed U s q _ = True"

text \<open>The approvals the points of the tasks refer to.\<close>

fun task_refs :: "task \<Rightarrow> nat list" where
  "task_refs (Waiting i) = [i]"
| "task_refs (Claimed i _ _ _) = [i]"
| "task_refs (Awaiting i) = [i]"
| "task_refs (Answering i _) = [i]"
| "task_refs (Sending i _ is _ _) = i # is"
| "task_refs (Denying is _ _) = is"
| "task_refs _ = []"

definition refs_ok :: "liveSession \<Rightarrow> bool" where
  "refs_ok ls \<longleftrightarrow>
     (\<forall>t\<in>set (lr_tasks ls). \<forall>i\<in>set (task_refs t). i < length (lr_pending ls)) \<and>
     (\<forall>i\<in>set (map snd (lr_approvals ls)). i < length (lr_pending ls))"

definition allows_ok :: "ulid_lib \<Rightarrow> liveSession \<Rightarrow> bool" where
  "allows_ok U ls \<longleftrightarrow>
     log_sound (lr_session ls) \<and> refs_ok ls \<and>
     (\<forall>p\<in>set (lr_pending ls). \<forall>a. ra_answer p = Some a \<longrightarrow> backed U (lr_session ls) (ra_question p) a) \<and>
     (\<forall>t\<in>set (lr_tasks ls). task_backed U (lr_session ls) (question_of ls) t)"

lemma runtimeDeny_not_allow [simp]: "aa_Decision (runtimeDeny r) \<noteq> Approval_DecisionAllow"
  by (simp add: runtimeDeny_def enum_defs)

lemma backed_deny [simp]: "aa_Decision a \<noteq> Approval_DecisionAllow \<Longrightarrow> backed U s q a"
  by (simp add: backed_def)

lemma backed_grew: "backed U s q a \<Longrightarrow> log_sound s \<Longrightarrow> session_grew s s' \<Longrightarrow> backed U s' q a"
  by (auto simp: backed_def intro: recorded_grew)

lemma task_backed_grew: "task_backed U s q t \<Longrightarrow> log_sound s \<Longrightarrow> session_grew s s' \<Longrightarrow> task_backed U s' q t"
  by (cases t) (auto intro: backed_grew)

text \<open>The three kinds of change: the session grows, a task moves, a pending approval is marked.\<close>

lemma allows_session:
  assumes "allows_ok U ls" and "session_grew (lr_session ls) s'"
  shows "allows_ok U (ls\<lparr>lr_session := s'\<rparr>)"
proof -
  have snd: "log_sound (lr_session ls)" "log_sound s'" using assms by (auto simp: allows_ok_def session_grew_def)
  have b: "backed U (lr_session ls) q a \<longrightarrow> backed U s' q a" for q a using backed_grew[OF _ snd(1) assms(2)] by blast
  have t: "task_backed U (lr_session ls) q t \<longrightarrow> task_backed U s' q t" for q t
    using task_backed_grew[OF _ snd(1) assms(2)] by blast
  have q: "question_of (ls\<lparr>lr_session := s'\<rparr>) = question_of ls" by (simp add: question_of_def[abs_def])
  show ?thesis using assms(1) snd(2) b t unfolding allows_ok_def refs_ok_def q by simp
qed

lemma allows_set_task:
  assumes "allows_ok U ls" and "task_backed U (lr_session ls) (question_of ls) t"
    and "\<forall>i\<in>set (task_refs t). i < length (lr_pending ls)"
  shows "allows_ok U (set_task k t ls)" "allows_ok U (add_task t ls)"
proof -
  have q: "question_of (set_task k t ls) = question_of ls" "question_of (add_task t ls) = question_of ls"
    by (auto simp: question_of_def[abs_def] set_task_def add_task_def)
  have sub: "set ((lr_tasks ls)[k := t]) \<subseteq> insert t (set (lr_tasks ls))" by (rule set_update_subset_insert)
  show "allows_ok U (set_task k t ls)"
    using assms sub unfolding allows_ok_def refs_ok_def q by (fastforce simp: set_task_def)
  show "allows_ok U (add_task t ls)"
    using assms unfolding allows_ok_def refs_ok_def q by (auto simp: add_task_def)
qed

lemma question_of_upd:
  assumes "\<And>p. ra_question (f p) = ra_question p"
  shows "question_of (upd_pending i f ls) = question_of ls"
  using assms by (auto simp: question_of_def upd_pending_def nth_list_update)

lemma allows_upd:
  assumes "allows_ok U ls" and "\<And>p. ra_question (f p) = ra_question p"
    and "\<And>a. i < length (lr_pending ls) \<Longrightarrow> ra_answer (f (lr_pending ls ! i)) = Some a \<Longrightarrow>
      ra_answer (lr_pending ls ! i) = Some a \<or> backed U (lr_session ls) (ra_question (lr_pending ls ! i)) a"
  shows "allows_ok U (upd_pending i f ls)"
proof (cases "i < length (lr_pending ls)")
  case False
  with assms(1) show ?thesis by (simp add: upd_pending_def)
next
  case True
  have up: "upd_pending i f ls = ls\<lparr>lr_pending := (lr_pending ls)[i := f (lr_pending ls ! i)]\<rparr>"
    using True by (simp add: upd_pending_def)
  have mem: "lr_pending ls ! i \<in> set (lr_pending ls)" using True by simp
  have "backed U (lr_session ls) (ra_question p) a"
    if "p \<in> set ((lr_pending ls)[i := f (lr_pending ls ! i)])" "ra_answer p = Some a" for p a
  proof -
    from that(1) set_update_subset_insert have "p \<in> set (lr_pending ls) \<or> p = f (lr_pending ls ! i)" by fastforce
    then show ?thesis
    proof
      assume "p = f (lr_pending ls ! i)"
      with that(2) assms(3)[OF True, of a] assms(1,2) mem show ?thesis by (auto simp: allows_ok_def)
    qed (use that(2) assms(1) in \<open>auto simp: allows_ok_def\<close>)
  qed
  with assms(1) question_of_upd[OF assms(2), of i ls] show ?thesis
    unfolding allows_ok_def refs_ok_def by (simp add: up)
qed

lemma allows_other:
  "allows_ok U ls \<Longrightarrow> allows_ok U (ls\<lparr>lr_answered := m\<rparr>)"
  "allows_ok U ls \<Longrightarrow> allows_ok U (ls\<lparr>lr_runtime := rs\<rparr>)"
  "allows_ok U ls \<Longrightarrow> allows_ok U (ls\<lparr>lr_closed := b\<rparr>)"
  "allows_ok U ls \<Longrightarrow> set ap \<subseteq> set (lr_approvals ls) \<Longrightarrow> allows_ok U (ls\<lparr>lr_approvals := ap\<rparr>)"
  by (auto simp: allows_ok_def refs_ok_def question_of_def[abs_def])

lemma allows_mark: "allows_ok U ls \<Longrightarrow> allows_ok U (mark_answered i ls)"
  unfolding mark_answered_def by (rule allows_other(1), rule allows_upd) auto

lemma allows_marks: "allows_ok U ls \<Longrightarrow> allows_ok U (fold mark_answered is ls)"
  by (induction "is" arbitrary: ls) (auto intro: allows_mark)

lemma allows_record:
  assumes "allows_ok U ls" and "recordRuntimeDecision U env ls q a by = (ls', ok)"
  shows "allows_ok U ls'" "lr_pending ls' = lr_pending ls" "question_of ls' = question_of ls"
    "ok \<Longrightarrow> aa_Decision a = Approval_DecisionAllow \<Longrightarrow> recorded U (lr_session ls') (runtime_record q a by)"
proof -
  have "log_sound (lr_session ls)" using assms(1) by (simp add: allows_ok_def)
  note g = record_grew[OF this assms(2)]
  then have ls': "ls' = ls\<lparr>lr_session := lr_session ls'\<rparr>" by blast
  show "allows_ok U ls'" using allows_session[OF assms(1)] g by (metis ls')
  show "lr_pending ls' = lr_pending ls" by (subst ls') simp
  then show "question_of ls' = question_of ls" by (simp add: question_of_def[abs_def])
  show "ok \<Longrightarrow> aa_Decision a = Approval_DecisionAllow \<Longrightarrow> recorded U (lr_session ls') (runtime_record q a by)" using g by blast
qed

lemma allows_finish:
  assumes "allows_ok U ls" and "i < length (lr_pending ls)" and "aa_Decision deny \<noteq> Approval_DecisionAllow"
  shows "allows_ok U (finishRuntimeApproval k i deny by remove err ls)"
proof (cases "ra_answered (lr_pending ls ! i)")
  case True
  with allows_set_task(1)[OF assms(1), of "Awaiting i" k] assms(2) show ?thesis by (simp add: finishRuntimeApproval_def)
next
  case False
  have len: "length (lr_pending (mark_answered i ls)) = length (lr_pending ls)" by (simp add: mark_answered_def upd_pending_def)
  have "allows_ok U (if remove then (mark_answered i ls)\<lparr>lr_approvals :=
      AList.delete (aq_RequestID (question_of ls i)) (lr_approvals (mark_answered i ls))\<rparr> else mark_answered i ls)"
    using allows_mark[OF assms(1)] by (auto intro!: allows_other(4) simp: AList.delete_eq)
  then show ?thesis
    using False assms(2,3) len by (auto simp: finishRuntimeApproval_def Let_def intro!: allows_set_task(1))
qed

lemma allows_take:
  assumes "allows_ok U ls" and "take_approvals hit ls = (ls', is)"
  shows "allows_ok U ls'" "\<forall>i\<in>set is. i < length (lr_pending ls')"
proof -
  have len: "length (lr_pending (fold mark_answered js l)) = length (lr_pending l)" for js l
    by (induction js arbitrary: l) (simp_all add: mark_answered_def upd_pending_def)
  show "allows_ok U ls'"
    using assms by (auto simp: take_approvals_def Let_def intro!: allows_marks allows_other(4))
  show "\<forall>i\<in>set is. i < length (lr_pending ls')"
    using assms by (auto simp: take_approvals_def Let_def len allows_ok_def refs_ok_def)
qed

lemma allows_resolve:
  assumes "allows_ok U ls"
  shows "allows_ok U (resolve_step k res ls)"
  using allows_take[OF assms] allows_set_task(1)[OF assms] allows_set_task(1)
  by (auto simp: resolve_step_def resolveRuntimeApprovals_def failRuntimeApprovalsForItem_def split: prod.splits resolution.splits)

lemma allows_event: "allows_ok U ls \<Longrightarrow> allows_ok U (runtimeEvent ev ls)"
  by (auto simp: runtimeEvent_def split: prod.splits intro!: allows_set_task(2) allows_other(2))

lemma allows_abandon:
  assumes "allows_ok U ls"
  shows "allows_ok U (abandon_approvals ls)"
proof -
  let ?f = "\<lambda>p. if ra_answered p \<or> ra_abandoned p then p else p\<lparr>ra_abandoned := True\<rparr>"
  have step: "allows_ok U l \<Longrightarrow> allows_ok U (upd_pending i ?f l)" for i l
    by (rule allows_upd) (auto split: if_splits)
  have "allows_ok U l \<Longrightarrow> allows_ok U (fold (\<lambda>i. upd_pending i ?f) is l)" for l "is"
    by (induction "is" arbitrary: l) (simp_all add: step)
  with assms show ?thesis by (simp add: abandon_approvals_def)
qed

lemma set_alist_update: "set (AList.update k v al) \<subseteq> insert (k, v) (set al)"
  by (induction al) auto

lemma allows_ask:
  assumes "allows_ok U ls"
  shows "allows_ok U (RequestApproval ctxDone bound targets q ls)"
proof -
  have new: "allows_ok U (add_task (Waiting (length (lr_pending ls)))
          (ls\<lparr>lr_answered := m, lr_approvals := AList.update (aq_RequestID q) (length (lr_pending ls)) (lr_approvals ls),
              lr_pending := lr_pending ls @ [\<lparr>ra_question = q, ra_answer = None, ra_answered = False, ra_abandoned = False\<rparr>]\<rparr>))" for m
  proof -
    have "task_backed U (lr_session ls) q' t \<Longrightarrow> (\<And>j. j \<in> set (task_refs t) \<Longrightarrow> q' j = q'' j) \<Longrightarrow> task_backed U (lr_session ls) q'' t" for q' q'' t
      by (cases t) auto
    moreover note set_alist_update[of "aq_RequestID q" "length (lr_pending ls)" "lr_approvals ls"]
    ultimately show ?thesis
      using assms unfolding allows_ok_def refs_ok_def
      by (fastforce simp: add_task_def question_of_def nth_append less_Suc_eq)
  qed
  show ?thesis
    using new allows_set_task(2)[OF assms] allows_set_task(2)[OF allows_other(1)[OF assms]]
    by (auto simp: RequestApproval_def Let_def)
qed

lemma allows_answer:
  assumes "allows_ok U ls"
  shows "allows_ok U (handleRuntimeApprovalAnswer asker subscribed ctxDone p ls)"
proof (cases "answer_checks asker subscribed ctxDone p ls")
  case (Inl e)
  with assms show ?thesis by (simp add: handleRuntimeApprovalAnswer_def)
next
  case (Inr ia)
  obtain i a where ia: "ia = (i, a)" by (cases ia)
  from Inr ia have at: "map_of (lr_approvals ls) (pa_RequestID p) = Some i" "validateRuntimeAnswer (question_of ls i) a = None"
    by (auto simp: answer_checks_def Let_def question_of_def split: if_splits option.splits)
  from map_of_SomeD[OF at(1)] assms have len: "i < length (lr_pending ls)" by (force simp: allows_ok_def refs_ok_def)
  have q: "question_of (mark_answered i ls) = question_of ls"
    using question_of_upd[of "\<lambda>p. p\<lparr>ra_answered := True\<rparr>" i ls]
    by (simp add: mark_answered_def question_of_def[abs_def])
  have l: "length (lr_pending (mark_answered i ls)) = length (lr_pending ls)" by (simp add: mark_answered_def upd_pending_def)
  from allows_set_task(2)[OF allows_mark[OF assms, of i], of "Answering i a"] at(2) len Inr ia q l show ?thesis
    by (simp add: handleRuntimeApprovalAnswer_def)
qed

lemma allows_select:
  assumes "allows_ok U ls" and "i < length (lr_pending ls)"
  shows "allows_ok U (select_step k i sel ls)"
proof (cases sel)
  case GotAnswer
  have "backed U (lr_session ls) (question_of ls i) a" if "ra_answer (lr_pending ls ! i) = Some a" for a
    using assms that by (auto simp: allows_ok_def question_of_def)
  with GotAnswer assms(1) show ?thesis
    by (auto simp: select_step_def split: option.splits intro!: allows_set_task(1))
qed (use assms in \<open>auto simp: select_step_def intro!: allows_finish\<close>)

lemma allows_task:
  assumes "allows_ok U ls"
  shows "allows_ok U (task_step U env sel k ls)"
proof (cases "k < length (lr_tasks ls)")
  case False
  with assms show ?thesis by (simp add: task_step_def)
next
  case True
  then have mem: "lr_tasks ls ! k \<in> set (lr_tasks ls)" by simp
  with assms have t: "task_backed U (lr_session ls) (question_of ls) (lr_tasks ls ! k)"
    "\<forall>i\<in>set (task_refs (lr_tasks ls ! k)). i < length (lr_pending ls)"
    by (auto simp: allows_ok_def refs_ok_def)
  have got: "backed U (lr_session ls) (question_of ls i) a"
    if "i < length (lr_pending ls)" "ra_answer (lr_pending ls ! i) = Some a" for i a
    using assms that by (auto simp: allows_ok_def question_of_def)
  show ?thesis
  proof (cases "lr_tasks ls ! k")
    case (Recording q d who)
    obtain ls1 ok where r: "recordRuntimeDecision U env ls q d who = (ls1, ok)" by (metis prod.collapse)
    with True Recording t(1) allows_set_task(1)[OF allows_record(1)[OF assms r]] show ?thesis by (simp add: task_step_def)
  next
    case (Waiting i)
    with True t(2) allows_select[OF assms] show ?thesis by (simp add: task_step_def)
  next
    case (Claimed i d who err)
    obtain ls1 ok where r: "recordRuntimeDecision U env ls (question_of ls i) d who = (ls1, ok)" by (metis prod.collapse)
    with True Claimed t(1) allows_set_task(1)[OF allows_record(1)[OF assms r]] show ?thesis by (simp add: task_step_def)
  next
    case (Awaiting i)
    with True t(2) got assms show ?thesis
      by (auto simp: task_step_def split: option.splits intro!: allows_set_task(1))
  next
    case (Answering i a)
    obtain ls1 ok where r: "recordRuntimeDecision U env ls (question_of ls i) a RuntimeByAsker = (ls1, ok)" by (metis prod.collapse)
    note rec = allows_record[OF assms r]
    have "backed U (lr_session ls1) (question_of ls i) (if ok then a else runtimeDeny ''could not persist runtime approval'')"
      using t(1) rec(4) by (auto simp: Answering backed_def)
    with True Answering t(2) r allows_set_task(1)[OF rec(1)] rec(2,3) show ?thesis by (simp add: task_step_def)
  next
    case (Sending i a js reason forget)
    have up: "allows_ok U (upd_pending i (\<lambda>p. p\<lparr>ra_answer := Some a\<rparr>) ls)"
      using t(1) by (intro allows_upd[OF assms]) (auto simp: Sending question_of_def)
    have l: "length (lr_pending (upd_pending i (\<lambda>p. p\<lparr>ra_answer := Some a\<rparr>) ls)) = length (lr_pending ls)"
      by (simp add: upd_pending_def)
    from True Sending t(2) assms l allows_set_task(1)[OF up, of "Denying js reason forget" k] show ?thesis
      by (auto simp: task_step_def split: option.splits)
  next
    case (Denying js reason forget)
    show ?thesis
    proof (cases js)
      case Nil
      with True Denying allows_set_task(1)[OF assms, of Finished k] allows_set_task(1)[OF allows_other(1)[OF assms, of "[]"], of Finished k]
      show ?thesis by (simp add: task_step_def)
    next
      case (Cons i js')
      obtain ls1 ok where r: "recordRuntimeDecision U env ls (question_of ls i) (runtimeDeny reason) RuntimeByStale = (ls1, ok)"
        by (metis prod.collapse)
      note rec = allows_record[OF assms r]
      from True Denying Cons t(2) r allows_set_task(1)[OF rec(1)] rec(2) show ?thesis by (simp add: task_step_def)
    qed
  qed (use True assms in \<open>simp_all add: task_step_def allows_resolve\<close>)
qed

lemma allows_step:
  assumes "allows_ok U ls"
  shows "allows_ok U (approval_step U ls ev)"
proof -
  have snd: "log_sound (lr_session ls)" using assms by (simp add: allows_ok_def)
  show ?thesis
  proof (cases ev)
    case (OtherEntry env p)
    from allows_session[OF assms Session_Append_grew[OF snd prod.collapse[symmetric]]] show ?thesis
      by (simp add: OtherEntry approval_step_def)
  next
    case (SessionSynced io)
    from allows_session[OF assms Session_Sync_grew[OF snd prod.collapse[symmetric]]] show ?thesis
      by (simp add: SessionSynced approval_step_def)
  qed (use assms in \<open>simp_all add: approval_step_def allows_ask allows_answer allows_task allows_event allows_abandon allows_other(3)\<close>)
qed

interpretation approvals: guarded_machine "approval_step U" "\<lambda>_ _. True" "allows_ok U" for U
  by unfold_locales (rule allows_step)

lemma new_live_allows: "log_sound s \<Longrightarrow> allows_ok U (new_live s)"
  by (simp add: allows_ok_def refs_ok_def new_live_def)

section \<open>Every approval is decided once\<close>

text \<open>The claims a task holds: approvals it marked answered and still has to record or send.\<close>

fun holds :: "task \<Rightarrow> nat list" where
  "holds (Claimed i _ _ _) = [i]"
| "holds (Answering i _) = [i]"
| "holds (Sending i _ is _ _) = i # is"
| "holds (Denying is _ _) = is"
| "holds _ = []"

definition held :: "liveSession \<Rightarrow> nat \<Rightarrow> nat" where
  "held ls i = sum_list (map (\<lambda>t. count_list (holds t) i) (lr_tasks ls))"

definition answered_at :: "liveSession \<Rightarrow> nat \<Rightarrow> bool" where
  "answered_at ls i \<longleftrightarrow> i < length (lr_pending ls) \<and> ra_answered (lr_pending ls ! i)"

definition sent_at :: "liveSession \<Rightarrow> nat \<Rightarrow> bool" where
  "sent_at ls i \<longleftrightarrow> i < length (lr_pending ls) \<and> ra_answer (lr_pending ls ! i) \<noteq> None"

definition approvals_ok :: "liveSession \<Rightarrow> bool" where
  "approvals_ok ls \<longleftrightarrow> distinct (map snd (lr_approvals ls)) \<and> (\<forall>i\<in>set (map snd (lr_approvals ls)). i < length (lr_pending ls))"

text \<open>At most one claim or one answer for each approval, and only for one that is marked.\<close>

definition claims_ok :: "liveSession \<Rightarrow> bool" where
  "claims_ok ls \<longleftrightarrow> (\<forall>i. held ls i + of_bool (sent_at ls i) \<le> of_bool (answered_at ls i))"

definition once_ok :: "liveSession \<Rightarrow> bool" where
  "once_ok ls \<longleftrightarrow> approvals_ok ls \<and> claims_ok ls"

lemma held_add [simp]: "held (add_task t ls) i = held ls i + count_list (holds t) i"
  by (simp add: held_def add_task_def)

lemma held_set:
  assumes "k < length (lr_tasks ls)"
  shows "held (set_task k t ls) i + count_list (holds (lr_tasks ls ! k)) i = held ls i + count_list (holds t) i"
proof -
  let ?f = "\<lambda>t. count_list (holds t) i"
  have "lr_tasks ls = take k (lr_tasks ls) @ lr_tasks ls ! k # drop (Suc k) (lr_tasks ls)"
    using assms by (simp add: id_take_nth_drop)
  then have "sum_list (map ?f (lr_tasks ls)) =
    sum_list (map ?f (take k (lr_tasks ls) @ lr_tasks ls ! k # drop (Suc k) (lr_tasks ls)))" by simp
  then show ?thesis
    using assms by (simp add: held_def set_task_def upd_conv_take_nth_drop)
qed

lemma views_frame [simp]:
  "answered_at (add_task t ls) = answered_at ls" "answered_at (set_task k t ls) = answered_at ls"
  "sent_at (add_task t ls) = sent_at ls" "sent_at (set_task k t ls) = sent_at ls"
  "approvals_ok (add_task t ls) = approvals_ok ls" "approvals_ok (set_task k t ls) = approvals_ok ls"
  "answered_at (ls\<lparr>lr_answered := m\<rparr>) = answered_at ls" "sent_at (ls\<lparr>lr_answered := m\<rparr>) = sent_at ls"
  "held (ls\<lparr>lr_answered := m\<rparr>) = held ls" "approvals_ok (ls\<lparr>lr_answered := m\<rparr>) = approvals_ok ls"
  "answered_at (ls\<lparr>lr_approvals := ap\<rparr>) = answered_at ls" "sent_at (ls\<lparr>lr_approvals := ap\<rparr>) = sent_at ls"
  "held (ls\<lparr>lr_approvals := ap\<rparr>) = held ls"
  "answered_at (ls\<lparr>lr_runtime := rs\<rparr>) = answered_at ls" "sent_at (ls\<lparr>lr_runtime := rs\<rparr>) = sent_at ls"
  "held (ls\<lparr>lr_runtime := rs\<rparr>) = held ls" "approvals_ok (ls\<lparr>lr_runtime := rs\<rparr>) = approvals_ok ls"
  "answered_at (ls\<lparr>lr_session := s\<rparr>) = answered_at ls" "sent_at (ls\<lparr>lr_session := s\<rparr>) = sent_at ls"
  "held (ls\<lparr>lr_session := s\<rparr>) = held ls" "approvals_ok (ls\<lparr>lr_session := s\<rparr>) = approvals_ok ls"
  "answered_at (ls\<lparr>lr_closed := b\<rparr>) = answered_at ls" "sent_at (ls\<lparr>lr_closed := b\<rparr>) = sent_at ls"
  "held (ls\<lparr>lr_closed := b\<rparr>) = held ls" "approvals_ok (ls\<lparr>lr_closed := b\<rparr>) = approvals_ok ls"
  by (auto simp: answered_at_def sent_at_def held_def approvals_ok_def add_task_def set_task_def fun_eq_iff)

lemma views_upd:
  "answered_at (upd_pending i f ls) j \<longleftrightarrow> (if j = i \<and> i < length (lr_pending ls) then ra_answered (f (lr_pending ls ! i)) else answered_at ls j)"
  "sent_at (upd_pending i f ls) j \<longleftrightarrow> (if j = i \<and> i < length (lr_pending ls) then ra_answer (f (lr_pending ls ! i)) \<noteq> None else sent_at ls j)"
  "held (upd_pending i f ls) j = held ls j" "approvals_ok (upd_pending i f ls) = approvals_ok ls"
  by (auto simp: answered_at_def sent_at_def held_def approvals_ok_def upd_pending_def nth_list_update)

lemma views_mark:
  "answered_at (mark_answered i ls) j \<longleftrightarrow> answered_at ls j \<or> j = i \<and> i < length (lr_pending ls)"
  "sent_at (mark_answered i ls) j = sent_at ls j" "held (mark_answered i ls) j = held ls j"
  "approvals_ok (mark_answered i ls) = approvals_ok ls" "length (lr_pending (mark_answered i ls)) = length (lr_pending ls)"
  by (auto simp: mark_answered_def views_upd) (auto simp: answered_at_def sent_at_def upd_pending_def)

lemma views_marks:
  "answered_at (fold mark_answered is ls) j \<longleftrightarrow> answered_at ls j \<or> j \<in> set is \<and> j < length (lr_pending ls)"
  "sent_at (fold mark_answered is ls) j = sent_at ls j" "held (fold mark_answered is ls) j = held ls j"
  "approvals_ok (fold mark_answered is ls) = approvals_ok ls"
  by (induction "is" arbitrary: ls) (auto simp: views_mark)

lemma tasks_marks: "lr_tasks (fold mark_answered is ls) = lr_tasks ls"
  by (induction "is" arbitrary: ls) (simp_all add: mark_answered_def upd_pending_def)

lemma distinct_count: "distinct xs \<Longrightarrow> count_list xs x = of_bool (x \<in> set xs)"
  by (induction xs) auto

text \<open>A claim on approvals that nobody has claimed.\<close>

lemma once_claim:
  assumes "once_ok ls" and "distinct is" and "\<forall>i\<in>set is. i < length (lr_pending ls) \<and> \<not> answered_at ls i"
    and "approvals_ok ls'" and "\<And>j. held ls' j = held ls j + count_list is j" and "\<And>j. sent_at ls' j = sent_at ls j"
    and "\<And>j. answered_at ls' j \<longleftrightarrow> answered_at ls j \<or> j \<in> set is \<and> j < length (lr_pending ls)"
  shows "once_ok ls'"
  unfolding once_ok_def claims_ok_def
proof (intro conjI allI)
  fix j
  have c: "held ls j + of_bool (sent_at ls j) \<le> (of_bool (answered_at ls j) :: nat)" using assms(1) by (simp add: once_ok_def claims_ok_def)
  show "held ls' j + of_bool (sent_at ls' j) \<le> (of_bool (answered_at ls' j) :: nat)"
  proof (cases "j \<in> set is")
    case True
    with assms(2) have "count_list is j = 1" by (simp add: distinct_count)
    with c True assms(3,5-7) show ?thesis by auto
  next
    case False
    then have "count_list is j = 0" by (simp add: count_list_0_iff)
    with c False assms(5-7) show ?thesis by simp
  qed
qed (rule assms(4))

lemma once_record:
  assumes "once_ok ls" and "recordRuntimeDecision U env ls q a who = (ls', ok)"
  shows "once_ok ls'" "lr_pending ls' = lr_pending ls" "lr_tasks ls' = lr_tasks ls"
proof -
  have "ls' = ls\<lparr>lr_session := lr_session ls\<rparr> \<or> (\<exists>s. ls' = ls\<lparr>lr_session := s\<rparr>)"
    using assms(2) by (auto simp: recordRuntimeDecision_def split: if_splits prod.splits sum.splits)
  then obtain s where "ls' = ls\<lparr>lr_session := s\<rparr>" by blast
  with assms(1) show "once_ok ls'" "lr_pending ls' = lr_pending ls" "lr_tasks ls' = lr_tasks ls"
    by (simp_all add: once_ok_def claims_ok_def)
qed

lemma once_move:
  assumes "once_ok ls" and "k < length (lr_tasks ls)" and "\<And>i. count_list (holds t) i \<le> count_list (holds (lr_tasks ls ! k)) i"
  shows "once_ok (set_task k t ls)"
  unfolding once_ok_def claims_ok_def
proof (intro conjI allI)
  fix i
  show "held (set_task k t ls) i + of_bool (sent_at (set_task k t ls) i) \<le> (of_bool (answered_at (set_task k t ls) i) :: nat)"
  proof -
    have "held (set_task k t ls) i \<le> held ls i" using held_set[OF assms(2), of t i] assms(3)[of i] by linarith
    moreover have "held ls i + of_bool (sent_at ls i) \<le> (of_bool (answered_at ls i) :: nat)"
      using assms(1) by (simp add: once_ok_def claims_ok_def)
    ultimately show ?thesis by (simp only: views_frame)
  qed
qed (use assms(1) in \<open>simp add: once_ok_def\<close>)

lemma once_finish:
  assumes "once_ok ls" and "k < length (lr_tasks ls)" and "holds (lr_tasks ls ! k) = []" and "i < length (lr_pending ls)"
  shows "once_ok (finishRuntimeApproval k i deny who remove err ls)"
proof (cases "ra_answered (lr_pending ls ! i)")
  case True
  with once_move[OF assms(1,2), of "Awaiting i"] show ?thesis by (simp add: finishRuntimeApproval_def)
next
  case False
  define ls2 where "ls2 = (if remove then (mark_answered i ls)\<lparr>lr_approvals :=
      AList.delete (aq_RequestID (question_of ls i)) (lr_approvals (mark_answered i ls))\<rparr> else mark_answered i ls)"
  have tasks: "lr_tasks ls2 = lr_tasks ls" by (simp add: ls2_def mark_answered_def upd_pending_def)
  have "approvals_ok ls2"
    using assms(1) views_mark(4,5)[of i ls]
    by (auto simp: ls2_def once_ok_def approvals_ok_def AList.delete_eq distinct_map inj_on_def)
  moreover have "sent_at ls2 j = sent_at ls j" "held ls2 j = held ls j"
    "answered_at ls2 j \<longleftrightarrow> answered_at ls j \<or> j \<in> set [i] \<and> j < length (lr_pending ls)" for j
    using assms(4) by (auto simp: ls2_def views_mark)
  moreover have "held (set_task k (Claimed i deny who err) ls2) j = held ls2 j + count_list [i] j" for j
    using held_set[of k ls2 "Claimed i deny who err" j] assms(2,3) tasks by simp
  ultimately have "once_ok (set_task k (Claimed i deny who err) ls2)"
    using False assms(4) by (intro once_claim[OF assms(1), of "[i]"]) (auto simp: answered_at_def)
  with False show ?thesis by (simp add: finishRuntimeApproval_def Let_def ls2_def)
qed

lemma once_take:
  assumes "once_ok ls" and "take_approvals hit ls = (ls', is)" and "k < length (lr_tasks ls)" and "holds (lr_tasks ls ! k) = []"
  shows "once_ok (set_task k (Denying is reason forget) ls')"
proof -
  let ?ls1 = "ls\<lparr>lr_approvals := filter (\<lambda>(req, i). \<not> hit req (lr_pending ls ! i)) (lr_approvals ls)\<rparr>"
  have ls': "ls' = fold mark_answered is ?ls1"
    and "is": "is = filter (\<lambda>i. \<not> ra_answered (lr_pending ls ! i)) (map snd (filter (\<lambda>(req, i). hit req (lr_pending ls ! i)) (lr_approvals ls)))"
    using assms(2) by (auto simp: take_approvals_def Let_def)
  have ok: "approvals_ok ls" using assms(1) by (simp add: once_ok_def)
  have "distinct is" using ok unfolding "is" by (auto simp: approvals_ok_def distinct_map inj_on_def)
  moreover have "\<forall>i\<in>set is. i < length (lr_pending ls) \<and> \<not> answered_at ls i"
    using ok unfolding "is" by (auto simp: approvals_ok_def answered_at_def)
  moreover have "approvals_ok ?ls1" using ok by (auto simp: approvals_ok_def distinct_map inj_on_def)
  moreover have "lr_tasks ls' = lr_tasks ls" unfolding ls' by (simp add: tasks_marks)
  then have "held (set_task k (Denying is reason forget) ls') j = held ls' j + count_list is j" for j
    using held_set[of k ls' "Denying is reason forget" j] assms(3,4) by simp
  ultimately show ?thesis
    unfolding ls' by (intro once_claim[OF assms(1), of "is"]) (simp_all add: views_marks)
qed

lemma once_resolve:
  assumes "once_ok ls" and "k < length (lr_tasks ls)" and "holds (lr_tasks ls ! k) = []"
  shows "once_ok (resolve_step k res ls)"
  using once_take[OF assms(1) _ assms(2,3)] once_move[OF assms(1,2), of Finished]
  by (auto simp: resolve_step_def resolveRuntimeApprovals_def failRuntimeApprovalsForItem_def split: prod.splits resolution.splits)

lemma once_event: "once_ok ls \<Longrightarrow> once_ok (runtimeEvent ev ls)"
  by (cases "runtime_event_state ev (lr_runtime ls)") (simp add: runtimeEvent_def once_ok_def claims_ok_def)

lemma once_abandon:
  assumes "once_ok ls"
  shows "once_ok (abandon_approvals ls)"
proof -
  let ?f = "\<lambda>p. if ra_answered p \<or> ra_abandoned p then p else p\<lparr>ra_abandoned := True\<rparr>"
  have "answered_at (upd_pending i ?f l) j = answered_at l j" "sent_at (upd_pending i ?f l) j = sent_at l j" for i j l
    by (auto simp: views_upd) (auto simp: answered_at_def sent_at_def)
  then have step: "once_ok l \<Longrightarrow> once_ok (upd_pending i ?f l)" for i l
    by (simp add: once_ok_def claims_ok_def views_upd(3,4))
  have "once_ok l \<Longrightarrow> once_ok (fold (\<lambda>i. upd_pending i ?f) is l)" for l "is"
    by (induction "is" arbitrary: l) (simp_all add: step)
  with assms show ?thesis by (simp add: abandon_approvals_def)
qed

lemma approvals_update:
  assumes "distinct (map snd (lr_approvals ls))" and "\<forall>i\<in>set (map snd (lr_approvals ls)). i < n"
  shows "distinct (map snd (AList.update k n (lr_approvals ls)))" "\<forall>i\<in>set (map snd (AList.update k n (lr_approvals ls))). i < n \<or> i = n"
proof -
  have "distinct (map snd al) \<Longrightarrow> \<forall>i\<in>set (map snd al). i < n \<Longrightarrow> distinct (map snd (AList.update k n al))" for al
    by (induction al) (auto dest!: set_alist_update[THEN subsetD])
  with assms show "distinct (map snd (AList.update k n (lr_approvals ls)))" by blast
  show "\<forall>i\<in>set (map snd (AList.update k n (lr_approvals ls))). i < n \<or> i = n"
    using assms(2) set_alist_update[of k n "lr_approvals ls"] by fastforce
qed

lemma once_ask:
  assumes "once_ok ls"
  shows "once_ok (RequestApproval ctxDone bound targets q ls)"
proof -
  have add: "once_ok l \<Longrightarrow> once_ok (add_task (Returned qu a e) l)" "once_ok l \<Longrightarrow> once_ok (add_task (Recording qu a who) l)" for l qu a e who
    by (simp_all add: once_ok_def claims_ok_def)
  have m: "once_ok (ls\<lparr>lr_answered := m\<rparr>)" for m using assms by (simp add: once_ok_def claims_ok_def)
  let ?new = "ls\<lparr>lr_answered := AList.update (aq_RequestID q) False (lr_answered ls),
      lr_approvals := AList.update (aq_RequestID q) (length (lr_pending ls)) (lr_approvals ls),
      lr_pending := lr_pending ls @ [\<lparr>ra_question = q, ra_answer = None, ra_answered = False, ra_abandoned = False\<rparr>]\<rparr>"
  have new: "once_ok (add_task (Waiting (length (lr_pending ls))) ?new)"
  proof -
    have "approvals_ok ?new" using assms approvals_update[of ls "length (lr_pending ls)" "aq_RequestID q"] by (simp add: once_ok_def approvals_ok_def less_Suc_eq)
    moreover have "held ?new i = held ls i" "sent_at ?new i = sent_at ls i" "answered_at ?new i = answered_at ls i" for i
      by (auto simp: held_def sent_at_def answered_at_def nth_append less_Suc_eq)
    ultimately show ?thesis using assms by (simp add: once_ok_def claims_ok_def)
  qed
  show ?thesis
    using add[OF m] add[OF assms] new by (auto simp: RequestApproval_def Let_def)
qed

lemma once_answer:
  assumes "once_ok ls"
  shows "once_ok (handleRuntimeApprovalAnswer asker subscribed ctxDone p ls)"
proof (cases "answer_checks asker subscribed ctxDone p ls")
  case (Inl e)
  with assms show ?thesis by (simp add: handleRuntimeApprovalAnswer_def)
next
  case (Inr ia)
  obtain i a where ia: "ia = (i, a)" by (cases ia)
  from Inr ia have at: "map_of (lr_approvals ls) (pa_RequestID p) = Some i" "\<not> ra_answered (lr_pending ls ! i)"
    by (auto simp: answer_checks_def Let_def split: if_splits option.splits)
  from map_of_SomeD[OF at(1)] assms have len: "i < length (lr_pending ls)" by (force simp: once_ok_def approvals_ok_def)
  have "\<not> answered_at ls i" using at(2) by (simp add: answered_at_def)
  then have "once_ok (add_task (Answering i a) (mark_answered i ls))"
    using assms len by (intro once_claim[OF assms, of "[i]"]) (auto simp: views_mark once_ok_def)
  with Inr ia show ?thesis by (simp add: handleRuntimeApprovalAnswer_def)
qed

lemma once_select:
  assumes "once_ok ls" and "k < length (lr_tasks ls)" and "holds (lr_tasks ls ! k) = []" and "i < length (lr_pending ls)"
  shows "once_ok (select_step k i sel ls)"
  using assms once_finish[OF assms] once_move[OF assms(1,2)]
  by (auto simp: select_step_def split: selected.splits option.splits)

lemma once_task:
  assumes "once_ok ls" and "refs_ok ls"
  shows "once_ok (task_step U env sel k ls)"
proof (cases "k < length (lr_tasks ls)")
  case False
  with assms show ?thesis by (simp add: task_step_def)
next
  case True
  then have refs: "\<forall>i\<in>set (task_refs (lr_tasks ls ! k)). i < length (lr_pending ls)"
    using assms(2) by (auto simp: refs_ok_def)
  have move: "once_ok (set_task k t ls1)" if "recordRuntimeDecision U env ls q a who = (ls1, ok)"
    "\<And>i. count_list (holds t) i \<le> count_list (holds (lr_tasks ls ! k)) i" for q a who ls1 ok t
    using once_move[of ls1 k t] once_record[OF assms(1) that(1)] True that(2) by simp
  show ?thesis
  proof (cases "lr_tasks ls ! k")
    case (Recording q d who)
    with True move show ?thesis by (auto simp: task_step_def split: prod.splits)
  next
    case (Waiting i)
    with True refs once_select[OF assms(1) True] show ?thesis by (simp add: task_step_def)
  next
    case (Claimed i d who err)
    with True move show ?thesis by (auto simp: task_step_def split: prod.splits)
  next
    case (Awaiting i)
    with True once_move[OF assms(1) True] assms(1) show ?thesis by (auto simp: task_step_def split: option.splits)
  next
    case (Answering i a)
    with True move show ?thesis by (auto simp: task_step_def split: prod.splits)
  next
    case (Sending i a js reason forget)
    show ?thesis
    proof (cases "ra_answer (lr_pending ls ! i)")
      case (Some b)
      with True Sending assms(1) show ?thesis by (simp add: task_step_def)
    next
      case None
      let ?ls1 = "upd_pending i (\<lambda>p. p\<lparr>ra_answer := Some a\<rparr>) ls"
      have i: "i < length (lr_pending ls)" using refs Sending by simp
      have t: "lr_tasks ?ls1 = lr_tasks ls" by (simp add: upd_pending_def)
      have "held (set_task k (Denying js reason forget) ?ls1) j + of_bool (sent_at ?ls1 j) \<le> (of_bool (answered_at ?ls1 j) :: nat)" for j
      proof -
        have c: "held ls j + of_bool (sent_at ls j) \<le> (of_bool (answered_at ls j) :: nat)"
          using assms(1) by (simp add: once_ok_def claims_ok_def)
        have h: "held (set_task k (Denying js reason forget) ?ls1) j + of_bool (j = i) = held ls j"
          using held_set[of k ?ls1 "Denying js reason forget" j] True t Sending views_upd(3)[of i "\<lambda>p. p\<lparr>ra_answer := Some a\<rparr>" ls j]
          by (auto split: if_splits)
        have a: "answered_at ?ls1 j = answered_at ls j" using i by (auto simp: views_upd) (auto simp: answered_at_def)
        show ?thesis
        proof (cases "j = i")
          case True
          with c h a None i show ?thesis by (auto simp: sent_at_def)
        next
          case False
          then have "sent_at ?ls1 j = sent_at ls j" by (simp add: views_upd)
          with c h a False show ?thesis by simp
        qed
      qed
      then have "once_ok (set_task k (Denying js reason forget) ?ls1)"
        using assms(1) by (simp add: once_ok_def claims_ok_def views_upd(4))
      with True Sending None show ?thesis by (simp add: task_step_def)
    qed
  next
    case (Denying js reason forget)
    show ?thesis
    proof (cases js)
      case Nil
      have "once_ok (ls\<lparr>lr_answered := []\<rparr>)" using assms(1) by (simp add: once_ok_def claims_ok_def)
      with True Denying Nil once_move[OF assms(1) True, of Finished] once_move[of "ls\<lparr>lr_answered := []\<rparr>" k Finished]
      show ?thesis by (simp add: task_step_def)
    next
      case (Cons i js')
      with True Denying move show ?thesis by (auto simp: task_step_def split: prod.splits)
    qed
  qed (use True assms in \<open>simp_all add: task_step_def once_resolve\<close>)
qed

lemma once_step:
  assumes "once_ok ls" and "refs_ok ls"
  shows "once_ok (approval_step U ls ev)"
proof (cases ev)
  case (OtherEntry env p)
  with assms show ?thesis by (simp add: approval_step_def once_ok_def claims_ok_def)
next
  case (SessionSynced io)
  with assms show ?thesis by (simp add: approval_step_def once_ok_def claims_ok_def)
next
  case SessionClosed
  with assms show ?thesis by (simp add: approval_step_def once_ok_def claims_ok_def)
qed (use assms in \<open>simp_all add: approval_step_def once_ask once_answer once_task once_event once_abandon\<close>)

lemma allows_refs: "allows_ok U ls \<Longrightarrow> refs_ok ls"
  by (simp add: allows_ok_def)

interpretation claims: guarded_machine "approval_step U" "\<lambda>_ _. True" "\<lambda>ls. allows_ok U ls \<and> once_ok ls" for U
  by unfold_locales (blast intro: allows_step once_step allows_refs)

end
