(* ===== verification/Approvals_Theorems.thy ===== *)
theory Approvals_Theorems
  imports Approvals_Inv
begin

text \<open>
  The two promises of the runtime approvals, for every schedule of requests, answers, runtime events,
  disconnects, other appends and a close on a reachable session, with a sample schedule in which an
  asker's allow travels back to the runtime.
\<close>

section \<open>Reachable sessions have a sound log\<close>

lemma Session_Open_sound:
  assumes "Session_Open U created i env io opened = Inr s"
  shows "log_sound s"
proof -
  from assms obtain s0 s1 e where s0: "create created i [] = Inr s0" and s1: "Session_Append U env s0 (SessionOpened opened) = (s1, Inr e)"
    and s: "Session_Sync io s1 = (s, None)"
    by (auto simp: Session_Open_def split: sum.splits prod.splits option.splits)
  have "log_sound s0" using s0 by (auto simp: create_def log_sound_def OpenLog_def split: if_splits)
  with Session_Append_grew[OF _ s1] have "log_sound s1" by (auto simp: session_grew_def)
  with Session_Sync_grew[OF _ s] show ?thesis by (auto simp: session_grew_def)
qed

lemma Session_Fork_sound:
  assumes "Session_Fork U pio created i env cio s at = (s', Inr child)"
  shows "log_sound child"
proof -
  from assms obtain c0 xs p c2 e where c0: "create created i [] = Inr c0"
    and c2: "Session_Append U env (c0\<lparr>s_inherited := xs\<rparr>) p = (c2, Inr e)" and c: "Session_Sync cio c2 = (child, None)"
    by (auto simp: Session_Fork_def Let_def split: sum.splits prod.splits option.splits)
  have c1: "log_sound (c0\<lparr>s_inherited := xs\<rparr>)"
    using c0 by (auto simp: create_def log_sound_def OpenLog_def split: if_splits)
  from Session_Append_grew[OF c1 c2] have "log_sound c2" by (auto simp: session_grew_def)
  with Session_Sync_grew[OF _ c] show ?thesis by (auto simp: session_grew_def)
qed

lemma Session_Close_sound:
  assumes "log_sound s" and "Session_Close io c s = (s', r)"
  shows "log_sound s'"
  using assms log_step_synced[of "s_log s" U "LClose io c"]
  by (auto simp: Session_Close_def log_sound_def log_step_def split: prod.splits)

lemma reachable_log_sound: "reachable U s \<Longrightarrow> log_sound s"
  by (induction rule: reachable.induct)
    (auto intro: Session_Open_sound Session_Fork_sound Session_Close_sound
      dest: Session_Append_grew Session_Sync_grew simp: session_grew_def)

section \<open>A sample schedule\<close>

definition ev0 :: "bytes \<Rightarrow> Event" where
  "ev0 ty = \<lparr>ev_Type = ty, ev_TurnID = ''turn'', ev_ItemID = ''item'', ev_RequestID = [], ev_Sequence = 0,
     ev_Item_ItemID = ''item'', ev_Item_Type = ''command'', ev_Usage = zero_Usage\<rparr>"

definition question0 :: ApprovalQuestion where
  "question0 = \<lparr>aq_Runtime = ''codex'', aq_RequestID = ''r1'', aq_ThreadID = ''thread'', aq_TurnID = ''turn'', aq_ItemID = ''item'',
     aq_Kind = ApprovalCommand, aq_Permissions = [], aq_AllowedScopes = [Approval_ScopeOnce]\<rparr>"

definition allowed0 :: ApprovalAnswer where
  "allowed0 = \<lparr>aa_Decision = Approval_DecisionAllow, aa_Scope = Approval_ScopeOnce, aa_Reason = ''yes'', aa_Granted = []\<rparr>"

definition params0 :: RuntimeApprovalAnswerParams where
  "params0 = \<lparr>pa_TurnID = ''turn'', pa_RequestID = ''r1'', pa_Decision = Approval_DecisionAllow, pa_Scope = Approval_ScopeOnce,
     pa_Reason = ''yes'', pa_Granted = []\<rparr>"

definition asked0 :: "approval_event list" where
  "asked0 = [RuntimeEvent (ev0 EventTurnStarted), RuntimeEvent (ev0 EventItemStarted), Asked False True 1 question0,
     Answered True True False params0]"

definition sent0 :: "approval_event list" where
  "sent0 = [TaskStep 3 GotAnswer (env0 4), TaskStep 3 GotAnswer (env0 5), TaskStep 2 GotAnswer (env0 6)]"

lemmas approval_eval = approval_step_def runtimeEvent_def runtime_event_state_def runtime_switch_def RequestApproval_def
  handleRuntimeApprovalAnswer_def answer_checks_def mark_answered_def upd_pending_def question_of_def add_task_def set_task_def

lemma asked0_run:
  obtains rs ap an where "run_ops (approval_step U) (new_live s) asked0 =
    \<lparr>lr_session = s, lr_closed = False, lr_runtime = rs,
     lr_pending = [\<lparr>ra_question = question0, ra_answer = None, ra_answered = True, ra_abandoned = False\<rparr>],
     lr_approvals = ap, lr_answered = an, lr_tasks = [Resolving NoResolution, Resolving NoResolution, Waiting 0, Answering 0 allowed0]\<rparr>"
proof -
  have v: "validateRuntimeQuestion question0 = None" "validateRuntimeAnswer question0 allowed0 = None" by code_simp+
  then have v': "validateRuntimeAnswer question0 \<lparr>aa_Decision = Approval_DecisionAllow, aa_Scope = Approval_ScopeOnce, aa_Reason = ''yes'', aa_Granted = []\<rparr> = None"
    by (simp add: allowed0_def)
  show ?thesis
    using v v' by (intro that) (simp add: asked0_def approval_eval new_live_def ev0_def params0_def allowed0_def question0_def enum_defs Let_def)
qed

lemma sent0_run: "Returned question0 allowed0 False \<in> set (lr_tasks (run_ops (approval_step ulid0) (new_live root0) (asked0 @ sent0)))"
proof -
  obtain rs ap an where a: "run_ops (approval_step ulid0) (new_live root0) asked0 =
    \<lparr>lr_session = root0, lr_closed = False, lr_runtime = rs,
     lr_pending = [\<lparr>ra_question = question0, ra_answer = None, ra_answered = True, ra_abandoned = False\<rparr>],
     lr_approvals = ap, lr_answered = an, lr_tasks = [Resolving NoResolution, Resolving NoResolution, Waiting 0, Answering 0 allowed0]\<rparr>"
    by (rule asked0_run)
  have "append_guard (ulid_ParseStrict ulid0) [] (entries0 0 [SessionOpened opened0])
    (RuntimePermissionDecision (runtime_record question0 allowed0 RuntimeByAsker)) = None" by code_simp
  with root0_shape have "append_guard (ulid_ParseStrict ulid0) [] (Entries root0)
    (RuntimePermissionDecision (runtime_record question0 allowed0 RuntimeByAsker)) = None" by simp
  from sample_append[OF _ _ this, of 4] root0_shape obtain s' e where
    "Session_Append ulid0 (env0 4) root0 (RuntimePermissionDecision (runtime_record question0 allowed0 RuntimeByAsker)) = (s', Inr e)"
    by metis
  then show ?thesis
    by (simp add: run_ops_append a sent0_def approval_step_def task_step_def recordRuntimeDecision_def set_task_def select_step_def
      upd_pending_def question_of_def)
qed

section \<open>The promises\<close>

lemma run_allows: "reachable U s \<Longrightarrow> allows_ok U (run_ops (approval_step U) (new_live s) evs)"
  by (rule approvals.run_inv[OF new_live_allows[OF reachable_log_sound] approvals.admitted_all]) auto

lemma new_live_once: "once_ok (new_live s)"
  by (simp add: once_ok_def claims_ok_def approvals_ok_def held_def sent_at_def answered_at_def new_live_def)

lemma run_claims: "reachable U s \<Longrightarrow> once_ok (run_ops (approval_step U) (new_live s) evs)"
  using claims.run_inv[of U "new_live s" evs] new_live_allows[OF reachable_log_sound, of U s] new_live_once[of s]
    claims.admitted_all[of U "new_live s" evs] by simp

lemma validate_granted_None: "validate_granted ps gs = None \<longleftrightarrow> set gs \<subseteq> set ps"
  by (induction gs) auto

lemma valid_allow:
  assumes "validateRuntimeAnswer q a = None" and "aa_Decision a = Approval_DecisionAllow"
  shows "aa_Reason a \<noteq> [] \<and> aa_Scope a \<in> set (aq_AllowedScopes q) \<and> set (aa_Granted a) \<subseteq> set (aq_Permissions q) \<and>
    (aq_Kind q \<noteq> ApprovalPermissions \<longrightarrow> aa_Granted a = [])"
  using assms by (auto simp: validateRuntimeAnswer_def validate_granted_None enum_defs split: if_splits)

text \<open>
  C27: In every schedule, an allow that \<open>RequestApproval\<close> returns to the agent runtime stays inside
  the question - a scope it offered, permissions it asked for - and was given by an asker: the
  session holds the decision entry of exactly this question and answer, attributed to the asker, and
  the line of that entry is among the bytes synced to disk.
\<close>

theorem approval_allow_durable:
  assumes "reachable U s" and "ls = run_ops (approval_step U) (new_live s) evs"
    and "Returned q a err \<in> set (lr_tasks ls)" and "aa_Decision a = Approval_DecisionAllow"
  shows "aa_Reason a \<noteq> [] \<and> aa_Scope a \<in> set (aq_AllowedScopes q) \<and> set (aa_Granted a) \<subseteq> set (aq_Permissions q) \<and>
    (aq_Kind q \<noteq> ApprovalPermissions \<longrightarrow> aa_Granted a = []) \<and>
    (\<exists>e\<in>set (Entries (lr_session ls)).
       en_Payload e = RuntimePermissionDecision (runtime_record q a RuntimeByAsker) \<and> on_disk U (lr_session ls) e)"
proof -
  have "allows_ok U ls" using run_allows[OF assms(1)] assms(2) by simp
  then have "task_backed U (lr_session ls) (question_of ls) (Returned q a err)"
    using assms(3) unfolding allows_ok_def by blast
  with assms(4) have "validateRuntimeAnswer q a = None" "recorded U (lr_session ls) (runtime_record q a RuntimeByAsker)"
    by (simp_all add: backed_def)
  with valid_allow[OF _ assms(4)] show ?thesis by (simp add: recorded_def)
qed

theorem approval_allow_durable_witness:
  "Returned question0 allowed0 False \<in> set (lr_tasks (run_ops (approval_step ulid0) (new_live root0) (asked0 @ sent0))) \<and>
   aa_Decision allowed0 = Approval_DecisionAllow \<and>
   (\<exists>e\<in>set (Entries (lr_session (run_ops (approval_step ulid0) (new_live root0) (asked0 @ sent0)))).
      en_Payload e = RuntimePermissionDecision (runtime_record question0 allowed0 RuntimeByAsker) \<and>
      on_disk ulid0 (lr_session (run_ops (approval_step ulid0) (new_live root0) (asked0 @ sent0))) e)"
  using approval_allow_durable[OF reachable_root0 refl sent0_run] sent0_run by (simp add: allowed0_def)

text \<open>A task that holds a claim on an approval, beside another one that does, would be counted twice.\<close>

lemma held_two:
  assumes "k < length (lr_tasks ls)" and "k' < length (lr_tasks ls)" and "k \<noteq> k'"
    and "i \<in> set (holds (lr_tasks ls ! k))" and "i \<in> set (holds (lr_tasks ls ! k'))"
  shows "2 \<le> held ls i"
proof -
  let ?c = "\<lambda>t. count_list (holds t) i"
  have pos: "1 \<le> ?c (lr_tasks ls ! k)" "1 \<le> ?c (lr_tasks ls ! k')" using assms(4,5) count_list_0_iff by (metis One_nat_def Suc_leI not_gr_zero)+
  have "held ls i = (\<Sum>j<length (lr_tasks ls). ?c (lr_tasks ls ! j))"
    by (simp add: held_def sum_list_sum_nth atLeast0LessThan)
  also have "\<dots> \<ge> (\<Sum>j\<in>{k, k'}. ?c (lr_tasks ls ! j))" by (rule sum_mono2) (use assms(1,2) in auto)
  finally show ?thesis using pos assms(3) by simp
qed

text \<open>
  C28: In every schedule each approval is decided once. A goroutine about to send an answer finds
  the channel of the approval empty, so the send never blocks; no other goroutine holds a claim on
  the same approval; and an approval whose answer is in the channel is claimed by nobody.
\<close>

theorem approval_decided_once:
  assumes "reachable U s" and "ls = run_ops (approval_step U) (new_live s) evs"
    and "k < length (lr_tasks ls)" and "i \<in> set (holds (lr_tasks ls ! k))"
  shows "i < length (lr_pending ls) \<and> ra_answered (lr_pending ls ! i) \<and> ra_answer (lr_pending ls ! i) = None \<and>
    (\<nexists>k'. k' < length (lr_tasks ls) \<and> k' \<noteq> k \<and> i \<in> set (holds (lr_tasks ls ! k')))"
proof -
  have "once_ok ls" using run_claims[OF assms(1)] assms(2) by simp
  then have c: "held ls i + of_bool (sent_at ls i) \<le> (of_bool (answered_at ls i) :: nat)"
    by (simp add: once_ok_def claims_ok_def)
  have "count_list (holds (lr_tasks ls ! k)) i \<noteq> 0" using assms(4) by (simp add: count_list_0_iff)
  then have "held ls i \<noteq> 0" using assms(3) by (auto simp: held_def)
  with c have "answered_at ls i" "\<not> sent_at ls i" and one: "held ls i = 1"
    by (cases "answered_at ls i"; cases "sent_at ls i"; simp)+
  moreover have "False" if "k' < length (lr_tasks ls)" "k' \<noteq> k" "i \<in> set (holds (lr_tasks ls ! k'))" for k'
    using held_two[OF assms(3) that(1) _ assms(4) that(3)] that(2) one by simp
  ultimately show ?thesis by (auto simp: answered_at_def sent_at_def)
qed

theorem approval_decided_once_witness:
  "ra_answer (lr_pending (run_ops (approval_step ulid0) (new_live root0) asked0) ! 0) = None \<and>
   (\<nexists>k. k < length (lr_tasks (run_ops (approval_step ulid0) (new_live root0) asked0)) \<and> k \<noteq> 3 \<and>
      0 \<in> set (holds (lr_tasks (run_ops (approval_step ulid0) (new_live root0) asked0) ! k)))"
proof -
  let ?ls = "run_ops (approval_step ulid0) (new_live root0) asked0"
  have "lr_tasks ?ls = [Resolving NoResolution, Resolving NoResolution, Waiting 0, Answering 0 allowed0]" by (rule asked0_run[of ulid0 root0]) simp
  then have "3 < length (lr_tasks ?ls)" "0 \<in> set (holds (lr_tasks ?ls ! 3))" by simp_all
  from approval_decided_once[OF reachable_root0 refl this] show ?thesis by simp
qed

end
