(* ===== verification/Time_Read.thy ===== *)
theory Time_Read
  imports Go_Time "HOL-Library.Monad_Syntax"
begin

text \<open>
  \<open>time.Parse(time.RFC3339Nano, s)\<close>, chunk by chunk of the layout \<open>2006-01-02T15:04:05.999999999Z07:00\<close>:
  the hour may have one digit, the fraction may start with a comma and have any number of digits, of
  which nine count, and an offset may go up to 24 hours and 60 minutes. It reads back every time that
  \<open>Format\<close> wrote with a year of four digits and an offset of whole minutes.
\<close>

definition getnum :: "bool \<Rightarrow> bytes \<Rightarrow> (nat \<times> bytes) option" where
  "getnum fixed s =
     (case s of
        [] \<Rightarrow> None
      | a # r \<Rightarrow>
          if \<not> is_digit a then None
          else case r of
              b # r' \<Rightarrow> if is_digit b then Some (10 * digit_val a + digit_val b, r') else if fixed then None else Some (digit_val a, r)
            | [] \<Rightarrow> if fixed then None else Some (digit_val a, []))"

definition skip_char :: "char \<Rightarrow> bytes \<Rightarrow> bytes option" where
  "skip_char c s = (case s of [] \<Rightarrow> None | x # r \<Rightarrow> if x = c then Some r else None)"

definition parse_year :: "bytes \<Rightarrow> (nat \<times> bytes) option" where
  "parse_year s = (if 4 \<le> length s \<and> list_all is_digit (take 4 s) then Some (nat_of_digits 0 (take 4 s), drop 4 s) else None)"

definition parse_frac :: "bytes \<Rightarrow> nat \<times> bytes" where
  "parse_frac s =
     (case s of
        [] \<Rightarrow> (0, [])
      | p # r \<Rightarrow>
          (let d = takeWhile is_digit r; d9 = take 9 d in
           if (p = CHR ''.'' \<or> p = CHR '','') \<and> d \<noteq> [] then (nat_of_digits 0 d9 * 10 ^ (9 - length d9), dropWhile is_digit r)
           else (0, s)))"

definition parse_zone :: "bytes \<Rightarrow> (int \<times> bytes) option" where
  "parse_zone s =
     (if has_prefix s ''Z'' then Some (0, drop 1 s)
      else if length s < 6 \<or> s ! 3 \<noteq> CHR '':'' then None
      else case (getnum True [s ! 1, s ! 2], getnum True [s ! 4, s ! 5]) of
          (Some (hr, _), Some (mm, _)) \<Rightarrow>
            if 24 < hr \<or> 60 < mm then None
            else if s ! 0 = CHR ''+'' then Some (int ((hr * 60 + mm) * 60), drop 6 s)
            else if s ! 0 = CHR ''-'' then Some (- int ((hr * 60 + mm) * 60), drop 6 s)
            else None
        | _ \<Rightarrow> None)"

definition is_leap :: "nat \<Rightarrow> bool" where
  "is_leap y \<longleftrightarrow> 4 dvd y \<and> (\<not> 100 dvd y \<or> 400 dvd y)"

definition days_in :: "nat \<Rightarrow> nat \<Rightarrow> nat" where
  "days_in m y = (if m = 2 then (if is_leap y then 29 else 28) else if m \<in> {4, 6, 9, 11} then 30 else 31)"

definition parse_time :: "bytes \<Rightarrow> Time option" where
  "parse_time s =
     do {
       (y, s) \<leftarrow> parse_year s;
       s \<leftarrow> skip_char (CHR ''-'') s;
       (mo, s) \<leftarrow> getnum True s;
       s \<leftarrow> skip_char (CHR ''-'') s;
       (dd, s) \<leftarrow> getnum True s;
       s \<leftarrow> skip_char (CHR ''T'') s;
       (h, s) \<leftarrow> getnum False s;
       s \<leftarrow> skip_char (CHR '':'') s;
       (mi, s) \<leftarrow> getnum True s;
       s \<leftarrow> skip_char (CHR '':'') s;
       (sec, s) \<leftarrow> getnum True s;
       let (ns, s) = parse_frac s;
       (off, s) \<leftarrow> parse_zone s;
       if s = [] \<and> 1 \<le> mo \<and> mo \<le> 12 \<and> h < 24 \<and> mi < 60 \<and> sec < 60 \<and> 1 \<le> dd \<and> dd \<le> days_in mo y
       then Some \<lparr>t_year = y, t_month = mo, t_day = dd, t_hour = h, t_min = mi, t_sec = sec, t_nano = ns, t_off = off\<rparr>
       else None
     }"

definition time_ok :: "Time \<Rightarrow> bool" where
  "time_ok t \<longleftrightarrow> t_year t < 10000 \<and> 1 \<le> t_month t \<and> t_month t \<le> 12 \<and> 1 \<le> t_day t \<and> t_day t \<le> days_in (t_month t) (t_year t) \<and>
     t_hour t < 24 \<and> t_min t < 60 \<and> t_sec t < 60 \<and> t_nano t < 10 ^ 9 \<and> 60 dvd t_off t \<and> abs (t_off t) \<le> 24 * 60 * 60"

section \<open>Padded numbers\<close>

lemma length_show_nat: "n < 10 ^ w \<Longrightarrow> 0 < w \<Longrightarrow> length (show_nat n) \<le> w"
proof (induction n arbitrary: w rule: show_nat.induct)
  case (1 n)
  show ?case
  proof (cases "n < 10")
    case True
    with 1(3) show ?thesis by (simp add: show_nat.simps[of n])
  next
    case False
    then obtain v where w: "w = Suc v" "0 < v" using 1(2,3) by (cases w; cases "w - 1") auto
    then have "n div 10 < 10 ^ v" using 1(2) by (simp add: less_mult_imp_div_less mult.commute)
    with 1(1)[OF False _ w(2)] False w(1) show ?thesis by (simp add: show_nat.simps[of n])
  qed
qed

lemma nat_of_digits_zeros: "nat_of_digits a (replicate k (CHR ''0'')) = a * 10 ^ k"
  by (induction k arbitrary: a) (simp_all add: digit_val_def)

lemma pad_digits:
  assumes "n < 10 ^ w" and "0 < w"
  shows "length (pad w n) = w" "list_all is_digit (pad w n)" "nat_of_digits 0 (pad w n) = n"
  using length_show_nat[OF assms] show_nat_digits[of n]
  by (auto simp: pad_def Let_def list_all_iff nat_of_digits_zeros is_digit_def)

lemma getnum_pad: "n < 100 \<Longrightarrow> getnum fixed (pad 2 n @ s) = Some (n, s)"
proof -
  assume "n < 100"
  then have p: "length (pad 2 n) = 2" "list_all is_digit (pad 2 n)" "nat_of_digits 0 (pad 2 n) = n"
    using pad_digits[of n 2] by auto
  then obtain a b where ab: "pad 2 n = [a, b]" by (auto simp: length_Suc_conv numeral_2_eq_2)
  with p show ?thesis by (simp add: getnum_def)
qed

lemma parse_year_pad:
  assumes "n < 10000"
  shows "parse_year (pad 4 n @ s) = Some (n, s)"
  using pad_digits[of n 4] assms by (simp add: parse_year_def)

lemma trim_right_split: "\<exists>k. s = trim_right c s @ replicate k c"
proof -
  have "rev s = replicate k c @ dropWhile (\<lambda>x. x = c) (rev s)" if "k = length (takeWhile (\<lambda>x. x = c) (rev s))" for k
    unfolding that by (metis (mono_tags, lifting) replicate_length_same set_takeWhileD takeWhile_dropWhile_id)
  then show ?thesis unfolding trim_right_def by (metis rev_append rev_replicate rev_rev_ident)
qed

lemma parse_frac_format:
  assumes "ns < 10 ^ 9" and "s \<noteq> []" and "\<not> is_digit (hd s)" and "hd s \<notin> {CHR ''.'', CHR '',''}"
  shows "parse_frac (format_frac ns @ s) = (ns, s)"
proof (cases "ns = 0")
  case True
  with assms show ?thesis by (cases s) (auto simp: parse_frac_def format_frac_def)
next
  case False
  let ?d = "trim_right (CHR ''0'') (pad 9 ns)"
  have p: "length (pad 9 ns) = 9" "list_all is_digit (pad 9 ns)" "nat_of_digits 0 (pad 9 ns) = ns"
    using pad_digits[of ns 9] assms(1) by auto
  obtain k where k: "pad 9 ns = ?d @ replicate k (CHR ''0'')" using trim_right_split by blast
  have digits: "\<forall>x\<in>set ?d. is_digit x" using p(2) trim_right_set by (fastforce simp: list_all_iff)
  have len: "length ?d + k = 9" using p(1) k by (metis length_append length_replicate)
  have val: "nat_of_digits 0 ?d * 10 ^ k = ns" using p(3) k by (metis nat_of_digits_append nat_of_digits_zeros)
  with False have ne: "?d \<noteq> []" by auto
  have tw: "takeWhile is_digit (?d @ s) = ?d" "dropWhile is_digit (?d @ s) = s"
    using digits assms(2,3) by (cases s; auto simp: takeWhile_append2 dropWhile_append2 takeWhile_eq_all_conv)+
  have "take 9 ?d = ?d" "9 - length ?d = k" using len by auto
  with False ne tw val show ?thesis by (simp add: parse_frac_def format_frac_def Let_def)
qed

lemma parse_zone_format:
  assumes "60 dvd off" and "abs off \<le> 24 * 60 * 60"
  shows "parse_zone (format_zone off) = Some (off, [])"
proof (cases "off = 0")
  case True
  then show ?thesis by (simp add: parse_zone_def format_zone_def has_prefix_def)
next
  case False
  define m where "m = nat (abs off) div 60"
  have off: "abs off = int (m * 60)" using assms(1) by (auto simp: m_def elim!: dvdE simp: abs_mult nat_mult_distrib)
  have b: "m div 60 < 100" "m mod 60 < 100" "m div 60 \<le> 24" "m mod 60 \<le> 60" using assms(2) off by auto
  obtain a1 a2 b1 b2 where p: "pad 2 (m div 60) = [a1, a2]" "pad 2 (m mod 60) = [b1, b2]"
    using pad_digits(1)[of "m div 60" 2] pad_digits(1)[of "m mod 60" 2] b by (auto simp: length_Suc_conv numeral_2_eq_2)
  have g: "getnum True [a1, a2] = Some (m div 60, [])" "getnum True [b1, b2] = Some (m mod 60, [])"
    using getnum_pad[of "m div 60" True "[]"] getnum_pad[of "m mod 60" True "[]"] b p by simp_all
  have m: "m div 60 * 60 + m mod 60 = m" by simp
  have z: "parse_zone [sg, a1, a2, CHR '':'', b1, b2] =
      (if sg = CHR ''+'' then Some (int (m * 60), []) else Some (- int (m * 60), []))" if "sg = CHR ''+'' \<or> sg = CHR ''-''" for sg
  proof -
    have nth: "[sg, a1, a2, CHR '':'', b1, b2] ! 3 = CHR '':''" "[sg, a1, a2, CHR '':'', b1, b2] ! 2 = a2"
      "[sg, a1, a2, CHR '':'', b1, b2] ! 4 = b1" "[sg, a1, a2, CHR '':'', b1, b2] ! 5 = b2" by simp_all
    show ?thesis using that g b(3,4) unfolding parse_zone_def nth by (auto simp: has_prefix_def m simp del: of_nat_mult)
  qed
  have "format_zone off = [if off < 0 then CHR ''-'' else CHR ''+'', a1, a2, CHR '':'', b1, b2]"
    using False p by (simp add: format_zone_def Let_def m_def)
  with z[of "if off < 0 then CHR ''-'' else CHR ''+''"] off show ?thesis by (cases "off < 0") simp_all
qed

theorem parse_format_time:
  assumes "time_ok t"
  shows "parse_time (format_time t) = Some t"
proof -
  have z: "format_zone o' \<noteq> []" "\<not> is_digit (hd (format_zone o'))" "hd (format_zone o') \<notin> {CHR ''.'', CHR '',''}" for o'
    by (auto simp: format_zone_def Let_def is_digit_def)
  have "days_in (t_month t) (t_year t) < 100" by (simp add: days_in_def)
  then have b: "t_month t < 100" "t_day t < 100" "t_hour t < 100" "t_min t < 100" "t_sec t < 100" "t_year t < 10000" "t_nano t < 10 ^ 9"
    using assms by (auto simp: time_ok_def)
  note fr = parse_frac_format[OF b(7) z]
  from assms show ?thesis
    by (simp add: parse_time_def format_time_def skip_char_def parse_year_pad getnum_pad b fr parse_zone_format time_ok_def)
qed

end
