(* ===== verification/Entry_Decode.thy ===== *)
theory Entry_Decode
  imports Entry_JSON Time_Read
begin

text \<open>
  How a line of \<open>entries.jsonl\<close> becomes an entry: \<open>Entry.UnmarshalJSON\<close> and \<open>Block.UnmarshalJSON\<close>
  of \<open>internal/session/entry_json.go\<close>, over the tree \<open>json_parse\<close> yields. \<open>json.Unmarshal\<close> walks the
  members of an object in order and assigns each to the field it matches; the fields do not depend on
  each other, so a decoder here runs over the members once per field. A value of the wrong type fails
  the whole decoding, \<open>null\<close> leaves a field as it is, an unknown key is skipped. An array is decoded
  into a new slice each time its key occurs.
\<close>

section \<open>Fields\<close>

type_synonym members = "(bytes \<times> bytes \<times> json) list"

text \<open>A setter takes the field's value so far, the source bytes and the value of the member.\<close>

type_synonym 'a setter = "'a \<Rightarrow> bytes \<Rightarrow> json \<Rightarrow> 'a option"

fun assign :: "bytes \<Rightarrow> 'a setter \<Rightarrow> 'a \<Rightarrow> members \<Rightarrow> 'a option" where
  "assign name f acc [] = Some acc"
| "assign name f acc ((k, raw, v) # ms) =
     (if key_matches name k then
        (case f acc raw v of None \<Rightarrow> None | Some a \<Rightarrow> assign name f a ms)
      else assign name f acc ms)"

definition set_string :: "bytes setter" where
  "set_string acc raw v = (case v of JStr b \<Rightarrow> Some (unquote b) | JNull \<Rightarrow> Some acc | _ \<Rightarrow> None)"

text \<open>\<open>strconv.ParseInt(n, 10, 64)\<close> on a JSON number: no fraction, no exponent, within 64 bits.\<close>

definition parse_int64 :: "bytes \<Rightarrow> int option" where
  "parse_int64 n =
     (let neg = (case n of x # _ \<Rightarrow> x = CHR ''-'' | [] \<Rightarrow> False); d = (if neg then tl n else n);
          i = (if neg then - int (nat_of_digits 0 d) else int (nat_of_digits 0 d)) in
      if d \<noteq> [] \<and> list_all is_digit d \<and> - (2 ^ 63) \<le> i \<and> i < 2 ^ 63 then Some i else None)"

definition set_int :: "int setter" where
  "set_int acc raw v = (case v of JNum n \<Rightarrow> parse_int64 n | JNull \<Rightarrow> Some acc | _ \<Rightarrow> None)"

definition set_int64 :: "int64 setter" where
  "set_int64 acc raw v = (case v of JNum n \<Rightarrow> map_option word_of_int (parse_int64 n) | JNull \<Rightarrow> Some acc | _ \<Rightarrow> None)"

definition set_raw :: "bytes setter" where
  "set_raw acc raw v = Some raw"

definition set_ulid :: "ulid_lib \<Rightarrow> ulid setter" where
  "set_ulid U acc raw v = (case v of JStr b \<Rightarrow> ulid_UnmarshalText U (unquote b) | JNull \<Rightarrow> Some acc | _ \<Rightarrow> None)"

definition set_struct :: "('a \<Rightarrow> members \<Rightarrow> 'a option) \<Rightarrow> 'a setter" where
  "set_struct dec acc raw v = (case v of JObj ms \<Rightarrow> dec acc ms | JNull \<Rightarrow> Some acc | _ \<Rightarrow> None)"

fun decode_all :: "(json \<Rightarrow> 'a option) \<Rightarrow> json list \<Rightarrow> 'a list option" where
  "decode_all dec [] = Some []"
| "decode_all dec (v # vs) =
     (case dec v of None \<Rightarrow> None | Some x \<Rightarrow> (case decode_all dec vs of None \<Rightarrow> None | Some xs \<Rightarrow> Some (x # xs)))"

definition set_strings :: "bytes list option setter" where
  "set_strings acc raw v =
     (case v of JArr vs \<Rightarrow> map_option Some (decode_all (set_string [] []) vs) | JNull \<Rightarrow> Some None | _ \<Rightarrow> None)"

section \<open>Structs\<close>

definition decode_Workspace :: "Workspace \<Rightarrow> members \<Rightarrow> Workspace option" where
  "decode_Workspace w ms =
     do { a \<leftarrow> assign ''root'' set_string (ws_Root w) ms; b \<leftarrow> assign ''git_root'' set_string (ws_GitRoot w) ms;
          c \<leftarrow> assign ''project_id'' set_string (ws_ProjectID w) ms;
          Some \<lparr>ws_Root = a, ws_GitRoot = b, ws_ProjectID = c\<rparr> }"

definition decode_ModelRef :: "ModelRef \<Rightarrow> members \<Rightarrow> ModelRef option" where
  "decode_ModelRef r ms =
     do { a \<leftarrow> assign ''provider'' set_string (mr_Provider r) ms; b \<leftarrow> assign ''model'' set_string (mr_Model r) ms;
          Some \<lparr>mr_Provider = a, mr_Model = b\<rparr> }"

definition decode_Usage :: "Usage \<Rightarrow> members \<Rightarrow> Usage option" where
  "decode_Usage u ms =
     do { a \<leftarrow> assign ''input'' set_int64 (u_Input u) ms; b \<leftarrow> assign ''output'' set_int64 (u_Output u) ms;
          c \<leftarrow> assign ''cache_read'' set_int64 (u_CacheRead u) ms; d \<leftarrow> assign ''cache_write'' set_int64 (u_CacheWrite u) ms;
          Some \<lparr>u_Input = a, u_Output = b, u_CacheRead = c, u_CacheWrite = d\<rparr> }"

definition decode_Matcher :: "Matcher \<Rightarrow> members \<Rightarrow> Matcher option" where
  "decode_Matcher m ms =
     do { a \<leftarrow> assign ''tool'' set_string (ma_Tool m) ms; b \<leftarrow> assign ''prefix'' set_string (ma_Prefix m) ms;
          Some \<lparr>ma_Tool = a, ma_Prefix = b\<rparr> }"

definition decode_Execution :: "Execution \<Rightarrow> members \<Rightarrow> Execution option" where
  "decode_Execution e ms =
     do { a \<leftarrow> assign ''kind'' set_string (ex_Kind e) ms; b \<leftarrow> assign ''provider'' set_string (ex_Provider e) ms;
          c \<leftarrow> assign ''runtime'' set_string (ex_Runtime e) ms;
          Some \<lparr>ex_Kind = a, ex_Provider = b, ex_Runtime = c\<rparr> }"

text \<open>\<open>Block.UnmarshalJSON\<close>: decodes into a fresh block and refuses an unknown type.\<close>

definition Block_UnmarshalJSON :: "json \<Rightarrow> Block option" where
  "Block_UnmarshalJSON v =
     do { ms \<leftarrow> (case v of JObj ms \<Rightarrow> Some ms | JNull \<Rightarrow> Some [] | _ \<Rightarrow> None);
          a \<leftarrow> assign ''type'' set_string [] ms; b \<leftarrow> assign ''text'' set_string [] ms;
          c \<leftarrow> assign ''media_type'' set_string [] ms; d \<leftarrow> assign ''sha256'' set_string [] ms;
          e \<leftarrow> assign ''signature'' set_string [] ms; f \<leftarrow> assign ''id'' set_string [] ms;
          g \<leftarrow> assign ''name'' set_string [] ms; h \<leftarrow> assign ''input'' set_raw [] ms;
          if BlockType_Valid a
          then Some \<lparr>bl_Type = a, bl_Text = b, bl_MediaType = c, bl_SHA256 = d, bl_Signature = e, bl_ID = f, bl_Name = g, bl_Input = h\<rparr>
          else None }"

definition set_blocks :: "Block list setter" where
  "set_blocks acc raw v =
     (case v of JArr vs \<Rightarrow> decode_all Block_UnmarshalJSON vs | JNull \<Rightarrow> Some [] | _ \<Rightarrow> None)"

section \<open>Payloads\<close>

definition zero_Workspace :: Workspace where
  "zero_Workspace = \<lparr>ws_Root = [], ws_GitRoot = [], ws_ProjectID = []\<rparr>"

definition decode_SessionOpened :: "members \<Rightarrow> SessionOpened option" where
  "decode_SessionOpened ms =
     do { a \<leftarrow> assign ''schema_version'' set_int 0 ms; b \<leftarrow> assign ''rudy_version'' set_string [] ms;
          c \<leftarrow> assign ''workspace'' (set_struct decode_Workspace) zero_Workspace ms;
          d \<leftarrow> assign ''model'' (set_struct decode_ModelRef) zero_ModelRef ms;
          e \<leftarrow> assign ''thinking'' set_string [] ms; f \<leftarrow> assign ''mode'' set_string [] ms;
          g \<leftarrow> assign ''agent'' set_string [] ms; h \<leftarrow> assign ''parent_session_id'' set_string [] ms;
          i \<leftarrow> assign ''parent_tool_use_id'' set_string [] ms; j \<leftarrow> assign ''tools'' set_strings None ms;
          k \<leftarrow> assign ''execution'' (set_struct decode_Execution) zero_Execution ms;
          Some \<lparr>so_SchemaVersion = a, so_RudyVersion = b, so_Workspace = c, so_Model = d, so_Thinking = e, so_Mode = f,
            so_Agent = g, so_ParentSessionID = h, so_ParentToolUseID = i, so_Tools = j, so_Execution = k\<rparr> }"

definition decode_ForkPoint :: "ulid_lib \<Rightarrow> members \<Rightarrow> ForkPoint option" where
  "decode_ForkPoint U ms =
     do { a \<leftarrow> assign ''parent_session_id'' (set_ulid U) 0 ms; b \<leftarrow> assign ''parent_entry_id'' (set_ulid U) 0 ms;
          Some \<lparr>fp_ParentSessionID = a, fp_ParentEntryID = b\<rparr> }"

definition decode_UserMessage :: "members \<Rightarrow> UserMessage option" where
  "decode_UserMessage ms =
     do { a \<leftarrow> assign ''source'' set_string [] ms; b \<leftarrow> assign ''content'' set_blocks [] ms;
          Some \<lparr>um_Source = a, um_Content = b\<rparr> }"

definition decode_AssistantMessage :: "members \<Rightarrow> AssistantMessage option" where
  "decode_AssistantMessage ms =
     do { a \<leftarrow> assign ''model'' (set_struct decode_ModelRef) zero_ModelRef ms; b \<leftarrow> assign ''thinking'' set_string [] ms;
          c \<leftarrow> assign ''content'' set_blocks [] ms; d \<leftarrow> assign ''usage'' (set_struct decode_Usage) zero_Usage ms;
          e \<leftarrow> assign ''stop_reason'' set_string [] ms; f \<leftarrow> assign ''stop_reason_raw'' set_string [] ms;
          Some \<lparr>am_Model = a, am_Thinking = b, am_Content = c, am_Usage = d, am_StopReason = e, am_StopReasonRaw = f\<rparr> }"

definition decode_PermissionDecision :: "members \<Rightarrow> PermissionDecision option" where
  "decode_PermissionDecision ms =
     do { a \<leftarrow> assign ''tool_use_id'' set_string [] ms; b \<leftarrow> assign ''tool'' set_string [] ms;
          c \<leftarrow> assign ''mode'' set_string [] ms; d \<leftarrow> assign ''matcher'' (set_struct decode_Matcher) \<lparr>ma_Tool = [], ma_Prefix = []\<rparr> ms;
          e \<leftarrow> assign ''decision'' set_string [] ms; f \<leftarrow> assign ''decided_by'' set_string [] ms;
          g \<leftarrow> assign ''scope'' set_string [] ms; h \<leftarrow> assign ''reason'' set_string [] ms; i \<leftarrow> assign ''input'' set_raw [] ms;
          Some \<lparr>pd_ToolUseID = a, pd_Tool = b, pd_Mode = c, pd_Matcher = d, pd_Decision = e, pd_DecidedBy = f,
            pd_Scope = g, pd_Reason = h, pd_Input = i\<rparr> }"

definition decode_RuntimePermissionDecision :: "members \<Rightarrow> RuntimePermissionDecision option" where
  "decode_RuntimePermissionDecision ms =
     do { a \<leftarrow> assign ''runtime'' set_string [] ms; b \<leftarrow> assign ''thread_id'' set_string [] ms;
          c \<leftarrow> assign ''turn_id'' set_string [] ms; d \<leftarrow> assign ''item_id'' set_string [] ms;
          e \<leftarrow> assign ''request_id'' set_string [] ms; f \<leftarrow> assign ''approval_kind'' set_string [] ms;
          g \<leftarrow> assign ''decision'' set_string [] ms; h \<leftarrow> assign ''decided_by'' set_string [] ms;
          i \<leftarrow> assign ''scope'' set_string [] ms; j \<leftarrow> assign ''reason'' set_string [] ms;
          Some \<lparr>rd_Runtime = a, rd_ThreadID = b, rd_TurnID = c, rd_ItemID = d, rd_RequestID = e, rd_ApprovalKind = f,
            rd_Decision = g, rd_DecidedBy = h, rd_Scope = i, rd_Reason = j\<rparr> }"

definition decode_ToolResult :: "members \<Rightarrow> ToolResult option" where
  "decode_ToolResult ms =
     do { a \<leftarrow> assign ''tool_use_id'' set_string [] ms; b \<leftarrow> assign ''outcome'' set_string [] ms;
          c \<leftarrow> assign ''content'' set_blocks [] ms; d \<leftarrow> assign ''duration_ms'' set_int 0 ms;
          Some \<lparr>tr_ToolUseID = a, tr_Outcome = b, tr_Content = c, tr_DurationMS = d\<rparr> }"

definition decode_Compaction :: "ulid_lib \<Rightarrow> members \<Rightarrow> Compaction option" where
  "decode_Compaction U ms =
     do { a \<leftarrow> assign ''summary'' set_string [] ms; b \<leftarrow> assign ''first_entry_id'' (set_ulid U) 0 ms;
          c \<leftarrow> assign ''last_entry_id'' (set_ulid U) 0 ms; d \<leftarrow> assign ''model'' (set_struct decode_ModelRef) zero_ModelRef ms;
          e \<leftarrow> assign ''usage'' (set_struct decode_Usage) zero_Usage ms;
          Some \<lparr>co_Summary = a, co_FirstEntryID = b, co_LastEntryID = c, co_Model = d, co_Usage = e\<rparr> }"

definition decode_TurnInterrupted :: "ulid_lib \<Rightarrow> members \<Rightarrow> TurnInterrupted option" where
  "decode_TurnInterrupted U ms =
     do { a \<leftarrow> assign ''turn_id'' (set_ulid U) 0 ms; b \<leftarrow> assign ''how'' set_string [] ms;
          Some \<lparr>ti_TurnID = a, ti_How = b\<rparr> }"

definition decode_TurnFailed :: "ulid_lib \<Rightarrow> members \<Rightarrow> TurnFailed option" where
  "decode_TurnFailed U ms =
     do { a \<leftarrow> assign ''turn_id'' (set_ulid U) 0 ms; b \<leftarrow> assign ''class'' set_string [] ms;
          c \<leftarrow> assign ''message'' set_string [] ms; d \<leftarrow> assign ''retries'' set_int 0 ms;
          Some \<lparr>tf_TurnID = a, tf_Class = b, tf_Message = c, tf_Retries = d\<rparr> }"

definition decode_Note :: "members \<Rightarrow> Note option" where
  "decode_Note ms =
     do { a \<leftarrow> assign ''plugin'' set_string [] ms; b \<leftarrow> assign ''text'' set_string [] ms;
          c \<leftarrow> assign ''role'' set_string [] ms;
          Some \<lparr>no_Plugin = a, no_Text = b, no_Role = c\<rparr> }"

text \<open>The switch of \<open>Entry.UnmarshalJSON\<close> over the kind; an unknown kind is \<open>None\<close>, a failed decoding \<open>Some None\<close>.\<close>

definition decode_payload :: "ulid_lib \<Rightarrow> Kind \<Rightarrow> members \<Rightarrow> payload option option" where
  "decode_payload U k ms =
     (if k = KindSessionOpened then Some (map_option SessionOpened (decode_SessionOpened ms))
      else if k = KindForkPoint then Some (map_option ForkPoint (decode_ForkPoint U ms))
      else if k = KindUserMessage then Some (map_option UserMessage (decode_UserMessage ms))
      else if k = KindAssistantMessage then Some (map_option AssistantMessage (decode_AssistantMessage ms))
      else if k = KindPermissionDecision then Some (map_option PermissionDecision (decode_PermissionDecision ms))
      else if k = KindRuntimePermissionDecision
      then Some (map_option RuntimePermissionDecision (decode_RuntimePermissionDecision ms))
      else if k = KindToolResult then Some (map_option ToolResult (decode_ToolResult ms))
      else if k = KindModelChange then
        Some (map_option ModelChange (assign ''model'' (set_struct decode_ModelRef) zero_ModelRef ms))
      else if k = KindModeChange then Some (map_option ModeChange (assign ''mode'' set_string [] ms))
      else if k = KindThinkingChange then Some (map_option ThinkingChange (assign ''thinking'' set_string [] ms))
      else if k = KindTitleChange then Some (map_option TitleChange (assign ''title'' set_string [] ms))
      else if k = KindCompaction then Some (map_option Compaction (decode_Compaction U ms))
      else if k = KindTurnInterrupted then Some (map_option TurnInterrupted (decode_TurnInterrupted U ms))
      else if k = KindTurnFailed then Some (map_option TurnFailed (decode_TurnFailed U ms))
      else if k = KindNote then Some (map_option Note (decode_Note ms))
      else None)"

text \<open>Records before schema 3 carry no execution: it is inferred.\<close>

definition infer_execution :: "payload \<Rightarrow> payload" where
  "infer_execution p =
     (case p of
        SessionOpened o' \<Rightarrow>
          if so_SchemaVersion o' < 3 \<and> ex_Kind (so_Execution o') = []
          then SessionOpened (o'\<lparr>so_Execution := \<lparr>ex_Kind = ExecutionNative, ex_Provider = mr_Provider (so_Model o'), ex_Runtime = []\<rparr>\<rparr>)
          else p
      | _ \<Rightarrow> p)"

datatype unmarshal_error = BadJSON | BadEnvelope | BadID | BadAt | UnknownKind Kind | BadPayload Kind | Invalid Kind validate_error

definition Entry_UnmarshalJSON :: "ulid_lib \<Rightarrow> bytes \<Rightarrow> (unmarshal_error, Entry) result" where
  "Entry_UnmarshalJSON U data =
     (case json_parse data of
        None \<Rightarrow> Inl BadJSON
      | Some v \<Rightarrow>
          (case (case v of JObj ms \<Rightarrow> Some ms | JNull \<Rightarrow> Some [] | _ \<Rightarrow> None) of
             None \<Rightarrow> Inl BadEnvelope
           | Some ms \<Rightarrow>
               (case (assign ''id'' set_string [] ms, assign ''at'' set_string [] ms, assign ''kind'' set_string [] ms) of
                  (Some i, Some at, Some k) \<Rightarrow>
                    (case ulid_ParseStrict U i of
                       None \<Rightarrow> Inl BadID
                     | Some u \<Rightarrow>
                         (case parse_time at of
                            None \<Rightarrow> Inl BadAt
                          | Some t \<Rightarrow>
                              (case decode_payload U k ms of
                                 None \<Rightarrow> Inl (UnknownKind k)
                               | Some None \<Rightarrow> Inl (BadPayload k)
                               | Some (Some p) \<Rightarrow>
                                   (case Validate (ulid_ParseStrict U) (infer_execution p) of
                                      Some e \<Rightarrow> Inl (Invalid k e)
                                    | None \<Rightarrow> Inr \<lparr>en_ID = u, en_At = t, en_Kind = k, en_Payload = infer_execution p\<rparr>))))
                | _ \<Rightarrow> Inl BadEnvelope)))"

end
