(* ===== verification/JSON_Read.thy ===== *)
theory JSON_Read
  imports Entry_JSON
begin

text \<open>
  How \<open>encoding/json\<close> reads back what it wrote. A text reads as a value when the parser, at the
  text followed by whatever may follow a value, yields the value and stops there. The lemmas give
  this for the texts the encoder produces - strings, integers, objects, arrays - and for raw JSON
  that is copied or compacted into a larger text.
\<close>

section \<open>Strings\<close>

lemma byte_at_take: "i < n \<Longrightarrow> n \<le> length cs \<Longrightarrow> byte_at (take n cs @ t) i = byte_at cs i"
  by (simp add: byte_at_def nth_append)

text \<open>The length of a rune looks at the first byte and at up to three more.\<close>

definition rune_len4 :: "nat \<Rightarrow> nat \<Rightarrow> nat \<Rightarrow> nat \<Rightarrow> nat" where
  "rune_len4 x a b c =
     (if x < 128 then 1 else if x < 194 then 0
      else if x < 224 then (if 128 \<le> a \<and> a \<le> 191 then 2 else 0)
      else if x < 240 then
        (if (if x = 224 then 160 else 128) \<le> a \<and> a \<le> (if x = 237 then 159 else 191) \<and> 128 \<le> b \<and> b \<le> 191 then 3 else 0)
      else if x < 245 then
        (if (if x = 240 then 144 else 128) \<le> a \<and> a \<le> (if x = 244 then 143 else 191) \<and> 128 \<le> b \<and> b \<le> 191 \<and> 128 \<le> c \<and> c \<le> 191
         then 4 else 0)
      else 0)"

lemma rune_len_four: "rune_len (c # cs) = rune_len4 (byte c) (byte_at cs 0) (byte_at cs 1) (byte_at cs 2)"
  unfolding rune_len.simps rune_len4_def Let_def conj_assoc by (rule refl)

lemma rune_len4_same:
  assumes "rune_len4 x a b c = Suc n" and "0 < n \<longrightarrow> a' = a" and "1 < n \<longrightarrow> b' = b" and "2 < n \<longrightarrow> c' = c"
  shows "rune_len4 x a' b' c' = Suc n"
proof -
  have "n \<in> {0, 1, 2, 3}" "n = 0 \<longleftrightarrow> x < 128" "n = 1 \<longleftrightarrow> 194 \<le> x \<and> x < 224" "n = 2 \<longleftrightarrow> 224 \<le> x \<and> x < 240"
    using assms(1) by (simp_all add: rune_len4_def split: if_split_asm)
  with assms show ?thesis by (cases "n = 0"; cases "n = 1"; cases "n = 2") (simp_all add: rune_len4_def)
qed

lemma rune_len_take:
  assumes "rune_len (c # cs) = Suc n"
  shows "rune_len (c # take n cs @ t) = Suc n"
proof -
  have "n \<le> length cs" using rune_len_le[of "c # cs"] assms by simp
  then show ?thesis
    unfolding rune_len_four by (intro rune_len4_same[OF assms[unfolded rune_len_four]]) (simp_all add: byte_at_take)
qed

lemma rune_bytes:
  assumes "rune_len (c # cs) = Suc n" and "128 \<le> byte c" and "x \<in> set (take n cs)"
  shows "128 \<le> byte x"
proof -
  from assms(3) obtain i where i: "i < n" "i < length cs" "x = cs ! i" by (auto simp: in_set_conv_nth)
  then have "i = 0 \<or> i = 1 \<or> i = 2 \<or> 3 \<le> i" by arith
  moreover have "byte_at cs i = byte x" using i by (simp add: byte_at_def)
  ultimately show ?thesis using assms(1,2) i(1) by (auto simp: rune_len.simps Let_def split: if_splits)
qed

lemma hex_val_digit: "n < 16 \<Longrightarrow> hex_val (hex_digit n) = Some n"
  by (auto simp: hex_val_def hex_digit_def Let_def)

lemma is_hex_digit: "n < 16 \<Longrightarrow> is_hex (hex_digit n)"
  by (simp add: is_hex_def hex_val_digit)

text \<open>Bytes that stand for themselves in a string literal.\<close>

definition plain :: "char \<Rightarrow> bool" where
  "plain c \<longleftrightarrow> c \<noteq> c_quote \<and> c \<noteq> c_backslash \<and> 32 \<le> byte c"

lemma plain_high: "128 \<le> byte c \<Longrightarrow> plain c"
  by (auto simp: plain_def)

lemma lex_plain:
  "list_all plain xs \<Longrightarrow> lex_string (xs @ r) = map_option (\<lambda>(b, t). (xs @ b, t)) (lex_string r)"
  by (induction xs) (auto simp: plain_def option.map_comp comp_def split_def option.map_ident)

lemma lex_escape_byte:
  assumes "byte c < 128"
  shows "lex_string (escape_byte c @ r) = map_option (\<lambda>(b, t). (escape_byte c @ b, t)) (lex_string r)"
proof -
  have "is_hex (hex_digit (byte c div 16))" "is_hex (hex_digit (byte c mod 16))"
    using assms by (auto intro!: is_hex_digit)
  moreover have "is_hex (CHR ''0'')" by code_simp
  ultimately show ?thesis
    by (auto simp: escape_byte_def Let_def escape_len_def simple_escape_def)
qed

lemma lex_escape_text: "lex_string (escape_text s @ c_quote # t) = Some (escape_text s, t)"
proof (induction s rule: escape_text.induct)
  case 1
  then show ?case by simp
next
  case (2 c cs)
  show ?case
  proof (cases "byte c < 128")
    case True
    with 2 show ?thesis by (simp add: lex_escape_byte)
  next
    case False
    then have hi: "128 \<le> byte c" by simp
    have hex: "is_hex (CHR ''2'')" "is_hex (CHR ''0'')" "is_hex (CHR ''f'')" "is_hex (CHR ''d'')" by code_simp+
    show ?thesis
    proof (cases "line_separator (c # cs)")
      case True
      with False 2 hex is_hex_digit[of "byte (cs ! 1) mod 16"] show ?thesis
        by (simp add: escape_len_def simple_escape_def)
    next
      case ls: False
      show ?thesis
      proof (cases "rune_len (c # cs)")
        case 0
        with False ls 2 hex show ?thesis by (simp add: escape_len_def simple_escape_def)
      next
        case (Suc n)
        have "list_all plain (c # take n cs)" using rune_bytes[OF Suc hi] hi by (auto simp: list_all_iff intro!: plain_high)
        from lex_plain[OF this, of "escape_text (drop n cs) @ c_quote # t"] 2(4)[OF False ls Suc] False ls Suc
        show ?thesis by simp
      qed
    qed
  qed
qed

lemma u4_low:
  assumes "x < 256"
  shows "u4 (CHR ''0'' # CHR ''0'' # hex_digit (x div 16) # hex_digit (x mod 16) # r) = x"
proof -
  have "hex_val (CHR ''0'') = Some 0" by code_simp
  then show ?thesis using assms by (simp add: u4_def hex_val_digit)
qed

lemma unquote_escape_byte:
  assumes "byte c < 128"
  shows "unquote (escape_byte c @ r) = c # unquote r"
proof -
  consider "c = c_quote \<or> c = c_backslash" | "byte c = 8 \<or> byte c = 12 \<or> byte c = 10 \<or> byte c = 13 \<or> byte c = 9"
    | "c \<noteq> c_quote" "c \<noteq> c_backslash" "byte c \<notin> {8, 12, 10, 13, 9}" "byte c < 32"
    | "c \<noteq> c_quote" "c \<noteq> c_backslash" "32 \<le> byte c" by fastforce
  then show ?thesis
  proof cases
    case 1
    then show ?thesis by (auto simp: escape_byte_def unescape_byte_def)
  next
    case 2
    then have "byte c = byte (CHR 0x08) \<or> byte c = byte (CHR 0x0C) \<or> byte c = byte c_nl \<or> byte c = byte c_cr \<or>
      byte c = byte (CHR 0x09)" by simp
    then have "c = CHR 0x08 \<or> c = CHR 0x0C \<or> c = c_nl \<or> c = c_cr \<or> c = CHR 0x09"
      by (simp only: of_char_eq_iff)
    moreover have "char_of (8::nat) = CHR 0x08" "char_of (12::nat) = CHR 0x0C" "char_of (9::nat) = CHR 0x09" by code_simp+
    ultimately show ?thesis by (auto simp: escape_byte_def unescape_byte_def)
  next
    case 3
    have "u4 (CHR ''0'' # CHR ''0'' # hex_digit (byte c div 16) # hex_digit (byte c mod 16) # r) = byte c"
      using 3(4) by (intro u4_low) simp
    with 3 show ?thesis by (simp add: escape_byte_def utf8_encode_def Let_def)
  next
    case 4
    with assms show ?thesis by (auto simp: escape_byte_def Let_def)
  qed
qed

lemma mod_168: "(168::nat) mod 16 = 8" "(169::nat) mod 16 = 9"
  by simp_all

lemma line_separator_bytes:
  assumes "line_separator (c # cs)"
  shows "utf8_encode (u4 (''202'' @ [hex_digit (byte (cs ! 1) mod 16)] @ r)) = c # take 2 cs \<and>
    u4 (''202'' @ [hex_digit (byte (cs ! 1) mod 16)] @ r) = 8224 + byte (cs ! 1) mod 16 \<and> byte (cs ! 1) mod 16 \<in> {8, 9}"
proof -
  from assms have b: "byte c = 226" "byte (cs ! 0) = 128" "byte (cs ! 1) = 168 \<or> byte (cs ! 1) = 169" "2 \<le> length cs"
    by (auto simp: line_separator_def numeral_2_eq_2)
  have hex: "hex_val (CHR ''2'') = Some 2" "hex_val (CHR ''0'') = Some 0" by code_simp+
  have tk: "take 2 cs = [cs ! 0, cs ! 1]" using b(4) by (cases cs; cases "tl cs") (auto simp: numeral_2_eq_2)
  have ch: "c = char_of (226::nat)" "cs ! 0 = char_of (128::nat)" using b(1,2) by (metis char_of_char)+
  from b(3) have "byte (cs ! 1) mod 16 = 8 \<and> cs ! 1 = char_of (168::nat) \<or> byte (cs ! 1) mod 16 = 9 \<and> cs ! 1 = char_of (169::nat)"
    by (elim disjE; metis char_of_char[of "cs ! 1"] mod_168)
  then show ?thesis
  proof
    assume a: "byte (cs ! 1) mod 16 = 8 \<and> cs ! 1 = char_of (168::nat)"
    have "u4 (''202'' @ [hex_digit 8] @ r) = 8232" using hex by (simp add: u4_def hex_val_digit)
    with a tk ch show ?thesis by (simp add: utf8_encode_def)
  next
    assume a: "byte (cs ! 1) mod 16 = 9 \<and> cs ! 1 = char_of (169::nat)"
    have "u4 (''202'' @ [hex_digit 9] @ r) = 8233" using hex by (simp add: u4_def hex_val_digit)
    with a tk ch show ?thesis by (simp add: utf8_encode_def)
  qed
qed

lemma unquote_escape_text: "valid_utf8 s \<Longrightarrow> unquote (escape_text s) = s"
proof (induction s rule: escape_text.induct)
  case 1
  then show ?case by simp
next
  case (2 c cs)
  show ?case
  proof (cases "byte c < 128")
    case True
    with 2(1,5) rune_len_ascii[OF True, of cs] show ?thesis by (simp add: unquote_escape_byte)
  next
    case False
    then have hi: "128 \<le> byte c" by simp
    from 2(5) obtain n where n: "rune_len (c # cs) = Suc n" "valid_utf8 (drop n cs)" by (auto split: nat.splits)
    show ?thesis
    proof (cases "line_separator (c # cs)")
      case True
      then have "byte c = 226" by (simp add: line_separator_def)
      with n(1) have "n = 2" by (auto simp: rune_len.simps Let_def split: if_splits)
      with n(2) 2(2)[OF False True] have ih: "unquote (escape_text (drop 2 cs)) = drop 2 cs" by simp
      note sep = line_separator_bytes[OF True, of "escape_text (drop 2 cs)"]
      from sep have "\<not> (55296 \<le> u4 (''202'' @ [hex_digit (byte (cs ! 1) mod 16)] @ escape_text (drop 2 cs)))" by auto
      with False True sep[THEN conjunct1] ih show ?thesis by (simp add: Let_def)
    next
      case ls: False
      have "c \<noteq> c_backslash" using hi by auto
      moreover have "min (length cs) n = n" using rune_len_le[of "c # cs"] n(1) by simp
      ultimately show ?thesis
        using False ls n 2(4)[OF False ls n(1)] rune_len_take[OF n(1), of "escape_text (drop n cs)"] by simp
    qed
  qed
qed

section \<open>Numbers\<close>

text \<open>What may follow a value: nothing, a separator, a closing bracket or white space.\<close>

definition boundary :: "bytes \<Rightarrow> bool" where
  "boundary t \<longleftrightarrow> (case t of [] \<Rightarrow> True | c # _ \<Rightarrow> c \<in> set '',}]'' \<or> is_ws c)"

lemma boundary_simps [simp]:
  "boundary []" "boundary (CHR '','' # t)" "boundary (CHR ''}'' # t)" "boundary (CHR '']'' # t)"
  by (simp_all add: boundary_def)

lemma boundary_ws: "list_all is_ws z \<Longrightarrow> boundary t \<Longrightarrow> boundary (z @ t)"
  by (cases z) (auto simp: boundary_def)

lemma boundary_hd:
  assumes "boundary (c # t)"
  shows "\<not> is_digit c \<and> c \<noteq> CHR ''.'' \<and> c \<noteq> CHR ''e'' \<and> c \<noteq> CHR ''E''"
  using assms by (auto simp: boundary_def is_digit_def is_ws_def)

lemma takeWhile_boundary:
  assumes "dropWhile is_digit s \<noteq> [] \<or> boundary t"
  shows "takeWhile is_digit (s @ t) = takeWhile is_digit s \<and> dropWhile is_digit (s @ t) = dropWhile is_digit s @ t"
proof (cases "dropWhile is_digit s = []")
  case True
  then have all: "\<forall>c\<in>set s. is_digit c" by (simp add: dropWhile_eq_Nil_conv)
  with assms True show ?thesis
    by (cases t) (auto simp: takeWhile_append2 dropWhile_append2 boundary_hd takeWhile_eq_all_conv[THEN iffD2])
next
  case False
  then obtain x where "x \<in> set s" "\<not> is_digit x" by (auto simp: dropWhile_eq_Nil_conv)
  then show ?thesis by (simp add: takeWhile_append1 dropWhile_append1)
qed

lemma lex_exp_extend:
  assumes "lex_exp acc s = Some (b, r)" and "r \<noteq> [] \<or> boundary t"
  shows "lex_exp acc (s @ t) = Some (b, r @ t)"
proof (cases s)
  case Nil
  with assms show ?thesis by (cases t) (auto simp: lex_exp_def boundary_hd)
next
  case (Cons e s')
  show ?thesis
  proof (cases "e = CHR ''e'' \<or> e = CHR ''E''")
    case False
    with assms Cons show ?thesis by (auto simp: lex_exp_def)
  next
    case True
    define sg where "sg = (case s' of x # _ \<Rightarrow> if x = CHR ''+'' \<or> x = CHR ''-'' then [x] else [] | [] \<Rightarrow> [])"
    define r1 where "r1 = drop (length sg) s'"
    have a: "(if takeWhile is_digit r1 = [] then None
      else Some (acc @ e # sg @ takeWhile is_digit r1, dropWhile is_digit r1)) = Some (b, r)"
      using assms(1) True unfolding Cons lex_exp_def list.case Let_def sg_def[symmetric] r1_def[symmetric] by simp
    then have ne: "s' \<noteq> []" and d: "takeWhile is_digit r1 \<noteq> []" and r: "r = dropWhile is_digit r1"
      by (auto simp: r1_def split: if_splits)
    have sg': "(case s' @ t of x # _ \<Rightarrow> if x = CHR ''+'' \<or> x = CHR ''-'' then [x] else [] | [] \<Rightarrow> []) = sg"
      using ne by (cases s') (auto simp: sg_def)
    have "length sg \<le> length s'" using ne by (cases s') (auto simp: sg_def)
    then have r1': "drop (length sg) (s' @ t) = r1 @ t" by (simp add: r1_def)
    show ?thesis
      using True a d assms(2) takeWhile_boundary[of r1 t] r
      unfolding lex_exp_def Cons append_Cons list.case Let_def sg' r1' by simp
  qed
qed

lemma lex_frac_extend:
  assumes "lex_frac acc s = Some (b, r)" and "r \<noteq> [] \<or> boundary t"
  shows "lex_frac acc (s @ t) = Some (b, r @ t)"
proof (cases s)
  case Nil
  with assms show ?thesis
    by (cases t) (auto simp: lex_frac_def boundary_hd lex_exp_def)
next
  case (Cons p s')
  show ?thesis
  proof (cases "p = CHR ''.''")
    case False
    with assms Cons lex_exp_extend[of acc s b r t] show ?thesis by (auto simp: lex_frac_def)
  next
    case True
    let ?d = "takeWhile is_digit s'"
    have d: "?d \<noteq> []" and e: "lex_exp (acc @ p # ?d) (dropWhile is_digit s') = Some (b, r)"
      using assms(1) Cons True by (auto simp: lex_frac_def Let_def split: if_splits)
    have "dropWhile is_digit s' \<noteq> [] \<or> boundary t"
      using e assms(2) by (cases "dropWhile is_digit s'") (simp_all add: lex_exp_def)
    with takeWhile_boundary[OF this] lex_exp_extend[OF e assms(2)] d Cons True show ?thesis by (simp add: lex_frac_def)
  qed
qed

lemma lex_frac_rest: "lex_frac acc [] = Some (b, r) \<Longrightarrow> r = []"
  by (simp add: lex_frac_def)

lemma lex_number_extend:
  assumes "lex_number s = Some (b, r)" and "r \<noteq> [] \<or> boundary t"
  shows "lex_number (s @ t) = Some (b, r @ t)"
proof -
  define sg where "sg = (case s of x # _ \<Rightarrow> if x = CHR ''-'' then [x] else [] | [] \<Rightarrow> [])"
  define s1 where "s1 = drop (length sg) s"
  have ne: "s \<noteq> []" using assms(1) by (auto simp: lex_number_def)
  then have sg': "(case s @ t of x # _ \<Rightarrow> if x = CHR ''-'' then [x] else [] | [] \<Rightarrow> []) = sg" by (cases s) (auto simp: sg_def)
  have "length sg \<le> length s" using ne by (cases s) (auto simp: sg_def)
  then have s1': "drop (length sg) (s @ t) = s1 @ t" by (simp add: s1_def)
  have a: "(case s1 of [] \<Rightarrow> None | c # r \<Rightarrow> if c = CHR ''0'' then lex_frac (sg @ [c]) r
    else if is_digit c then lex_frac (sg @ takeWhile is_digit s1) (dropWhile is_digit s1) else None) = Some (b, r)"
    using assms(1) unfolding lex_number_def Let_def sg_def[symmetric] s1_def[symmetric] .
  then obtain c u where c: "s1 = c # u" by (cases s1) auto
  have lf: "is_digit c" "lex_frac (sg @ takeWhile is_digit s1) (dropWhile is_digit s1) = Some (b, r)" if "c \<noteq> CHR ''0''"
    using a that unfolding c list.case by (simp_all split: if_splits)
  have dw: "dropWhile is_digit s1 \<noteq> [] \<or> boundary t" if "c \<noteq> CHR ''0''"
  proof (rule disjCI)
    assume nb: "\<not> boundary t"
    show "dropWhile is_digit s1 \<noteq> []"
    proof
      assume "dropWhile is_digit s1 = []"
      with lf(2)[OF that] have "r = []" by (metis lex_frac_rest)
      with assms(2) nb show False by simp
    qed
  qed
  have "(case s1 @ t of [] \<Rightarrow> None | c # r \<Rightarrow> if c = CHR ''0'' then lex_frac (sg @ [c]) r
    else if is_digit c then lex_frac (sg @ takeWhile is_digit (s1 @ t)) (dropWhile is_digit (s1 @ t)) else None) = Some (b, r @ t)"
  proof (cases "c = CHR ''0''")
    case True
    with a c lex_frac_extend[OF _ assms(2)] show ?thesis by simp
  next
    case False
    note tw = takeWhile_boundary[OF dw[OF False]]
    have "lex_frac (sg @ takeWhile is_digit (s1 @ t)) (dropWhile is_digit (s1 @ t)) = Some (b, r @ t)"
      using lex_frac_extend[OF lf(2)[OF False] assms(2)] tw by simp
    with False lf(1)[OF False] c show ?thesis by simp
  qed
  then show ?thesis unfolding lex_number_def Let_def sg' s1' .
qed

lemma show_nat_lead: "0 < n \<Longrightarrow> hd (show_nat n) \<noteq> CHR ''0''"
proof (induction n rule: show_nat.induct)
  case (1 n)
  show ?case
  proof (cases "n < 10")
    case True
    with 1(2) have "byte (digit_char n) \<noteq> byte (CHR ''0'')" by (simp add: byte_digit_char)
    with True show ?thesis by (subst show_nat.simps) auto
  next
    case False
    with 1 show ?thesis by (subst show_nat.simps) (simp add: hd_append)
  qed
qed

lemma lex_show_nat:
  "lex_number (show_nat n) = Some (show_nat n, [])" "lex_number (CHR ''-'' # show_nat n) = Some (CHR ''-'' # show_nat n, [])"
proof -
  obtain c u where c: "show_nat n = c # u" using show_nat_ne by (meson neq_Nil_conv)
  have d: "is_digit c" "\<forall>x\<in>set u. is_digit x" using show_nat_digits[of n] c by auto
  have m: "c \<noteq> CHR ''-''" using d(1) by (auto simp: is_digit_def)
  have z: "c = CHR ''0'' \<Longrightarrow> u = []"
    using show_nat_lead[of n] c by (cases "n = 0") (auto simp: show_nat.simps[of 0])
  have tw: "takeWhile is_digit u = u" "dropWhile is_digit u = []"
    using d by (auto simp: takeWhile_eq_all_conv dropWhile_eq_Nil_conv)
  show "lex_number (show_nat n) = Some (show_nat n, [])" "lex_number (CHR ''-'' # show_nat n) = Some (CHR ''-'' # show_nat n, [])"
    using c d(1) m z by (auto simp: lex_number_def Let_def lex_frac_def tw)
qed

lemma lex_show_int: "lex_number (show_int i) = Some (show_int i, [])"
  by (simp add: show_int_def lex_show_nat)

section \<open>Values\<close>

definition reads :: "nat \<Rightarrow> bytes \<Rightarrow> json \<Rightarrow> bool" where
  "reads d s v \<longleftrightarrow> s \<noteq> [] \<and> \<not> is_ws (hd s) \<and>
     (\<forall>t f. boundary t \<longrightarrow> 2 * length (s @ t) < f \<longrightarrow> parse_value f d (s @ t) = Some (v, t))"

lemma readsI:
  assumes "s \<noteq> []" and "\<not> is_ws (hd s)"
    and "\<And>t f. boundary t \<Longrightarrow> 2 * length (s @ t) \<le> f \<Longrightarrow> parse_value (Suc f) d (s @ t) = Some (v, t)"
  shows "reads d s v"
  unfolding reads_def
proof (intro conjI allI impI)
  fix t f
  assume "boundary t" "2 * length (s @ t) < f"
  with assms(3)[of t "f - 1"] show "parse_value f d (s @ t) = Some (v, t)" by (cases f) simp_all
qed (use assms in simp_all)

lemma readsD: "reads d s v \<Longrightarrow> boundary t \<Longrightarrow> 2 * length (s @ t) < f \<Longrightarrow> parse_value f d (s @ t) = Some (v, t)"
  by (simp add: reads_def)

lemma reads_start: "reads d s v \<Longrightarrow> skip_ws (s @ t) = s @ t"
  by (cases s) (auto simp: reads_def skip_ws_def)

lemma skip_ws_run: "list_all is_ws a \<Longrightarrow> skip_ws (a @ s) = skip_ws s"
  by (simp add: skip_ws_def list_all_iff dropWhile_append2)

lemma skip_ws_stop: "\<not> is_ws c \<Longrightarrow> skip_ws (c # s) = c # s"
  by (simp add: skip_ws_def)

lemma not_ws_simps [simp]:
  "\<not> is_ws (CHR '','')" "\<not> is_ws (CHR ''}'')" "\<not> is_ws (CHR '']'')" "\<not> is_ws (CHR ''{'')" "\<not> is_ws (CHR ''['')"
  "\<not> is_ws (CHR '':'')" "\<not> is_ws c_quote"
  by (simp_all add: is_ws_def)

text \<open>A text with white space around it, as a raw value may have.\<close>

definition padded :: "bytes \<Rightarrow> bytes \<Rightarrow> bool" where
  "padded raw txt \<longleftrightarrow> (\<exists>a z. list_all is_ws a \<and> list_all is_ws z \<and> txt = a @ raw @ z)"

lemma padded_refl [simp]: "padded s s"
  unfolding padded_def by (intro exI[of _ "[]"]) simp

lemma reads_string: "reads d (json_string s) (JStr (escape_text s))"
  by (rule readsI) (simp_all add: json_string_def lex_escape_text)

lemma reads_quoted:
  assumes "list_all plain s"
  shows "reads d (c_quote # s @ [c_quote]) (JStr s)"
  using lex_plain[OF assms] by (intro readsI) simp_all

lemma reads_null: "reads d lit_null JNull"
  by (rule readsI) (simp_all add: lit_null_def lit_true_def lit_false_def has_prefix_def is_ws_def)

lemma reads_int: "reads d (show_int i) (JNum (show_int i))"
proof (rule readsI)
  obtain c u where c: "show_int i = c # u" and cd: "c = CHR ''-'' \<or> is_digit c"
  proof (cases "i < 0")
    case True
    then show ?thesis by (intro that) (auto simp: show_int_def)
  next
    case False
    obtain c u where "show_nat (nat i) = c # u" by (meson show_nat_ne neq_Nil_conv)
    with show_nat_digits[of "nat i"] False show ?thesis by (intro that) (auto simp: show_int_def)
  qed
  show "show_int i \<noteq> []" by (simp add: c)
  show "\<not> is_ws (hd (show_int i))" using cd by (auto simp: c is_ws_def is_digit_def)
  fix t f
  assume t: "boundary t"
  have "c \<notin> {CHR ''{'', CHR ''['', c_quote, CHR ''t'', CHR ''f'', CHR ''n''}" using cd by (auto simp: is_digit_def)
  then show "parse_value (Suc f) d (show_int i @ t) = Some (JNum (show_int i), t)"
    using lex_number_extend[OF lex_show_int, of t i] t
    by (simp add: c lit_true_def lit_false_def lit_null_def has_prefix_def)
qed

text \<open>Members of an object, by the spelling of their keys.\<close>

definition spelled :: "bytes \<Rightarrow> bool" where
  "spelled k \<longleftrightarrow> (\<forall>t. lex_string (k @ c_quote # t) = Some (k, t))"

definition member_texts :: "(bytes \<times> bytes) list \<Rightarrow> bytes" where
  "member_texts fs = join '','' (map (\<lambda>(k, tx). c_quote # k @ c_quote # CHR '':'' # tx) fs)"

definition members_read :: "nat \<Rightarrow> (bytes \<times> bytes) list \<Rightarrow> (bytes \<times> bytes \<times> json) list \<Rightarrow> bool" where
  "members_read d fs ms \<longleftrightarrow>
     list_all2 (\<lambda>(k, tx) (k', raw, v). k' = k \<and> spelled k \<and> padded raw tx \<and> reads d raw v) fs ms"

lemma parse_member:
  assumes "spelled k" and "padded raw tx" and "reads d raw v" and "x = CHR '','' \<or> x = CHR ''}''"
    and "2 * length (c_quote # k @ c_quote # CHR '':'' # tx @ x # r) < Suc f"
  shows "parse_members (Suc f) d (c_quote # k @ c_quote # CHR '':'' # tx @ x # r) =
    (if x = CHR ''}'' then Some ([(k, raw, v)], r)
     else map_option (\<lambda>(ms, t). ((k, raw, v) # ms, t)) (parse_members f d (skip_ws r)))"
proof -
  obtain a z where az: "list_all is_ws a" "list_all is_ws z" "tx = a @ raw @ z" using assms(2) by (auto simp: padded_def)
  have s4: "skip_ws (tx @ x # r) = raw @ z @ x # r"
    using az skip_ws_run[OF az(1)] reads_start[OF assms(3)] by simp
  have bd: "boundary (z @ x # r)" by (rule boundary_ws[OF az(2)]) (use assms(4) in auto)
  have "2 * length (raw @ z @ x # r) < f" using assms(5) az by simp
  from readsD[OF assms(3) bd this] have pv: "parse_value f d (raw @ z @ x # r) = Some (v, z @ x # r)" .
  have s6: "skip_ws (z @ x # r) = x # r" using skip_ws_run[OF az(2)] assms(4) by (auto simp: skip_ws_stop)
  show ?thesis
    using assms(1,4) s4 pv s6
    by (auto simp: spelled_def skip_ws_stop simp del: parse_value.simps)
qed

lemma member_texts_Cons:
  "member_texts ((k, tx) # fs) @ t =
    c_quote # k @ c_quote # CHR '':'' # tx @ (if fs = [] then t else CHR '','' # member_texts fs @ t)"
  by (simp add: member_texts_def join_Cons)

lemma parse_fields:
  assumes "members_read d fs ms" and "fs \<noteq> []" and "2 * length (member_texts fs @ CHR ''}'' # t) < f"
  shows "parse_members f d (member_texts fs @ CHR ''}'' # t) = Some (ms, t)"
  using assms
proof (induction fs arbitrary: ms f)
  case Nil
  then show ?case by simp
next
  case (Cons kt fs)
  obtain k tx where kt: "kt = (k, tx)" by force
  from Cons.prems(1) obtain raw v ms' where ms: "ms = (k, raw, v) # ms'" and r: "spelled k" "padded raw tx" "reads d raw v"
    and rest: "members_read d fs ms'"
    by (auto simp: members_read_def kt list_all2_Cons1)
  obtain f' where f: "f = Suc f'" using Cons.prems(3) by (cases f) auto
  note e = member_texts_Cons[of k tx fs "CHR ''}'' # t", folded kt]
  show ?case
  proof (cases "fs = []")
    case True
    with rest have "ms' = []" by (simp add: members_read_def)
    with True parse_member[OF r, of "CHR ''}''" t f'] Cons.prems(3) ms e f show ?thesis by simp
  next
    case False
    obtain k2 t2 fs2 where fs: "fs = (k2, t2) # fs2" using False by (cases fs) auto
    have start: "skip_ws (member_texts fs @ u) = member_texts fs @ u" for u
      unfolding fs member_texts_Cons by (simp add: skip_ws_stop)
    have e': "member_texts (kt # fs) @ CHR ''}'' # t = c_quote # k @ c_quote # CHR '':'' # tx @ CHR '','' # member_texts fs @ CHR ''}'' # t"
      using e False by simp
    have lt: "2 * length (member_texts fs @ CHR ''}'' # t) < f'" using Cons.prems(3) unfolding e' f by simp
    from parse_member[OF r, of "CHR '',''" "member_texts fs @ CHR ''}'' # t" f'] Cons.prems(3) Cons.IH[OF rest False lt] show ?thesis
      unfolding e' f by (simp add: ms start)
  qed
qed

lemma reads_members:
  assumes "members_read (Suc d) fs ms" and "d < max_nesting"
  shows "reads d (''{'' @ member_texts fs @ ''}'') (JObj ms)"
proof (cases "fs = []")
  case True
  with assms have "ms = []" by (simp add: members_read_def)
  with True assms(2) show ?thesis by (intro readsI) (simp_all add: member_texts_def skip_ws_stop)
next
  case False
  obtain k1 t1 fs1 where fs: "fs = (k1, t1) # fs1" using False by (cases fs) auto
  show ?thesis
  proof (rule readsI)
    fix t f
    assume le: "2 * length ((''{'' @ member_texts fs @ ''}'') @ t) \<le> f"
    obtain u where u: "member_texts fs @ CHR ''}'' # t = c_quote # u" by (simp add: fs member_texts_Cons)
    have "parse_members f (Suc d) (member_texts fs @ CHR ''}'' # t) = Some (ms, t)"
      using parse_fields[OF assms(1) False, of t f] le by simp
    then show "parse_value (Suc f) d ((''{'' @ member_texts fs @ ''}'') @ t) = Some (JObj ms, t)"
      using assms(2) skip_ws_stop[of c_quote u] by (simp add: u)
  qed simp_all
qed

text \<open>The objects of the encoder, whose keys it writes as strings.\<close>

lemma spelled_escape: "spelled (escape_text k)"
  by (simp add: spelled_def lex_escape_text)

definition fields_read :: "nat \<Rightarrow> (bytes \<times> bytes) list \<Rightarrow> (bytes \<times> bytes \<times> json) list \<Rightarrow> bool" where
  "fields_read d fs ms \<longleftrightarrow>
     list_all2 (\<lambda>(k, tx) (k', raw, v). k' = escape_text k \<and> padded raw tx \<and> reads d raw v) fs ms"

lemma reads_object:
  assumes "fields_read (Suc d) fs ms" and "d < max_nesting"
  shows "reads d (''{'' @ json_fields fs @ ''}'') (JObj ms)"
proof -
  have "json_fields fs = member_texts (map (\<lambda>(k, tx). (escape_text k, tx)) fs)"
    by (simp add: json_fields_def member_texts_def json_string_def split_def comp_def)
  moreover have "members_read (Suc d) (map (\<lambda>(k, tx). (escape_text k, tx)) fs) ms"
    using assms(1) by (auto simp: members_read_def fields_read_def list_all2_conv_all_nth spelled_escape split_def)
  ultimately show ?thesis using reads_members[OF _ assms(2)] by simp
qed

lemma parse_texts:
  assumes "list_all2 (reads d) ts vs" and "ts \<noteq> []" and "2 * length (join '','' ts @ CHR '']'' # t) + 1 < f"
  shows "parse_elements f d (join '','' ts @ CHR '']'' # t) = Some (vs, t)"
  using assms
proof (induction ts arbitrary: vs f)
  case Nil
  then show ?case by simp
next
  case (Cons tx ts)
  from Cons.prems(1) obtain v vs' where vs: "vs = v # vs'" and r: "reads d tx v" and rest: "list_all2 (reads d) ts vs'"
    by (auto simp: list_all2_Cons1)
  obtain f' where f: "f = Suc f'" using Cons.prems(3) by (cases f) auto
  show ?case
  proof (cases "ts = []")
    case True
    with rest have "vs' = []" by simp
    with True vs Cons.prems(3) readsD[OF r, of "CHR '']'' # t" f'] show ?thesis by (simp add: f skip_ws_stop)
  next
    case False
    have e: "join '','' (tx # ts) @ CHR '']'' # t = tx @ CHR '','' # join '','' ts @ CHR '']'' # t"
      using False by (simp add: join_Cons)
    obtain t2 ts2 v2 vs2 where ts: "ts = t2 # ts2" "reads d t2 v2" using False rest by (cases ts) (auto simp: list_all2_Cons1)
    have start: "skip_ws (join '','' ts @ u) = join '','' ts @ u" for u using reads_start[OF ts(2)] by (simp add: ts(1) join_Cons)
    have "2 * length (tx @ CHR '','' # join '','' ts @ CHR '']'' # t) < f'" using Cons.prems(3) unfolding e f by simp
    from readsD[OF r _ this] Cons.IH[OF rest False, of f'] Cons.prems(3) show ?thesis
      unfolding e f by (simp add: vs start skip_ws_stop)
  qed
qed

lemma reads_array:
  assumes "list_all2 (reads (Suc d)) ts vs" and "d < max_nesting"
  shows "reads d (''['' @ join '','' ts @ '']'') (JArr vs)"
proof (cases "ts = []")
  case True
  with assms show ?thesis by (intro readsI) (simp_all add: skip_ws_stop)
next
  case False
  obtain t1 ts1 v1 where ts: "ts = t1 # ts1" "reads (Suc d) t1 v1" using False assms(1) by (cases ts) (auto simp: list_all2_Cons1)
  show ?thesis
  proof (rule readsI)
    fix t f
    assume le: "2 * length ((''['' @ join '','' ts @ '']'') @ t) \<le> f"
    have start: "skip_ws (join '','' ts @ u) = join '','' ts @ u" for u using reads_start[OF ts(2)] by (simp add: ts(1) join_Cons)
    have pe: "parse_elements f (Suc d) (join '','' ts @ CHR '']'' # t) = Some (vs, t)"
      using parse_texts[OF assms(1) False, of t f] le by simp
    obtain c u where cu: "join '','' ts @ CHR '']'' # t = c # u" and c: "c = hd t1"
      using ts by (cases t1) (auto simp: reads_def join_Cons)
    have "c \<noteq> CHR '']''"
    proof
      assume "c = CHR '']''"
      moreover have "parse_value (2 * length t1 + 2) (Suc d) t1 = Some (v1, [])" using readsD[OF ts(2), of "[]" "2 * length t1 + 2"] by simp
      ultimately show False using c ts(2)
        by (cases t1) (auto simp: reads_def has_prefix_def lit_true_def lit_false_def lit_null_def lex_number_def is_digit_def)
    qed
    then show "parse_value (Suc f) d ((''['' @ join '','' ts @ '']'') @ t) = Some (JArr vs, t)"
      using assms(2) pe start[of "CHR '']'' # t"] by (simp add: cu)
  qed simp_all
qed

text \<open>A text that reads as a value is one the parser accepts as a whole.\<close>

lemma json_parse_reads:
  assumes "reads 0 s v"
  shows "json_parse s = Some v"
proof -
  have "parse_value (2 * length s + 2) 0 s = Some (v, [])" using readsD[OF assms, of "[]" "2 * length s + 2"] by simp
  moreover have "skip_ws s = s" "skip_ws [] = []" using reads_start[OF assms, of "[]"] by (simp_all add: skip_ws_def)
  ultimately show ?thesis unfolding json_parse_def by simp
qed

end
