(* ===== verification/JSON_Raw.thy ===== *)
theory JSON_Raw
  imports JSON_Read
begin

text \<open>
  Raw JSON inside a larger text: a value that was accepted on its own is read back byte for byte
  where it is copied to, as long as it stays within the nesting limit there, and its compacted form
  reads as the same value without the white space.
\<close>

section \<open>Raw values\<close>

text \<open>A value that stays within the nesting limit when it is read at depth \<open>d\<close>.\<close>

fun fits :: "nat \<Rightarrow> json \<Rightarrow> bool" where
  "fits d (JArr vs) = (d < max_nesting \<and> (\<forall>v\<in>set vs. fits (Suc d) v))"
| "fits d (JObj ms) = (d < max_nesting \<and> (\<forall>m\<in>set ms. fits (Suc d) (snd (snd m))))"
| "fits d _ = True"

text \<open>
  What the parser consumed for a value reads as that value again, wherever it is put: at any depth it
  fits in, before anything that may follow a value, with any more fuel. The three statements are for
  values, elements and members.
\<close>

definition rereads :: "(nat \<Rightarrow> nat \<Rightarrow> bytes \<Rightarrow> ('a \<times> bytes) option) \<Rightarrow> (nat \<Rightarrow> 'a \<Rightarrow> bool) \<Rightarrow> (bytes \<Rightarrow> bool) \<Rightarrow> nat \<Rightarrow> bool" where
  "rereads p fit follow f \<longleftrightarrow>
     (\<forall>d s v r. p f d s = Some (v, r) \<longrightarrow>
        (\<exists>c. s = c @ r \<and> c \<noteq> [] \<and>
          (\<forall>d' t g. fit d' v \<longrightarrow> follow t \<longrightarrow> f \<le> g \<longrightarrow> p g d' (c @ t) = Some (v, t))))"

lemma rereadsD:
  assumes "rereads p fit follow f" and "p f d s = Some (v, r)"
  obtains c where "s = c @ r" "c \<noteq> []" "\<forall>d' t g. fit d' v \<longrightarrow> follow t \<longrightarrow> f \<le> g \<longrightarrow> p g d' (c @ t) = Some (v, t)"
  using assms unfolding rereads_def by blast

abbreviation rereads_value :: "nat \<Rightarrow> bool" where
  "rereads_value \<equiv> rereads parse_value fits boundary"

abbreviation rereads_elements :: "nat \<Rightarrow> bool" where
  "rereads_elements \<equiv> rereads parse_elements (\<lambda>d vs. \<forall>v\<in>set vs. fits d v) (\<lambda>_. True)"

abbreviation rereads_members :: "nat \<Rightarrow> bool" where
  "rereads_members \<equiv> rereads parse_members (\<lambda>d ms. \<forall>m\<in>set ms. fits d (snd (snd m))) (\<lambda>_. True)"

lemma skip_ws_split:
  obtains w where "s = w @ skip_ws s" "list_all is_ws w"
  unfolding skip_ws_def by (metis takeWhile_dropWhile_id list_all_iff set_takeWhileD)

lemma skip_ws_hd: "skip_ws s = x # r \<Longrightarrow> \<not> is_ws x"
  unfolding skip_ws_def by (metis hd_dropWhile list.distinct(1) list.sel(1))

lemma lex_string_reread: "lex_string s = Some (b, r) \<Longrightarrow> s = b @ c_quote # r \<and> lex_string (b @ c_quote # t) = Some (b, t)"
proof (induction s arbitrary: b r rule: lex_string.induct)
  case 1
  then show ?case by simp
next
  case (2 c cs)
  show ?case
  proof (cases "c = c_backslash")
    case True
    obtain n where n: "escape_len cs = Suc n" using 2(3) True by (auto split: nat.splits)
    with 2(3) True obtain b' where b': "lex_string (drop (Suc n) cs) = Some (b', r)" "b = c # take (Suc n) cs @ b'" by auto
    have "escape_len (take (Suc n) cs @ u) = Suc n \<and> Suc n \<le> length cs" for u
      using n by (cases cs) (auto simp: escape_len_def split: if_splits)
    with 2(1)[OF _ _ True n b'(1)] True b' show ?thesis by (simp add: min_absorb2) (metis append_take_drop_id append.assoc)
  next
    case False
    with 2 show ?thesis by (auto split: if_splits)
  qed
qed

lemma lex_exp_reread:
  assumes "lex_exp acc s = Some (b, r)"
  obtains u where "b = acc @ u" "s = u @ r" "lex_exp acc u = Some (b, [])"
proof (cases s)
  case Nil
  with assms that[of "[]"] show ?thesis by (simp add: lex_exp_def)
next
  case (Cons e s')
  show ?thesis
  proof (cases "e = CHR ''e'' \<or> e = CHR ''E''")
    case False
    with assms Cons that[of "[]"] show ?thesis by (simp add: lex_exp_def)
  next
    case True
    define sg where "sg = (case s' of x # _ \<Rightarrow> if x = CHR ''+'' \<or> x = CHR ''-'' then [x] else [] | [] \<Rightarrow> [])"
    define r1 where "r1 = drop (length sg) s'"
    let ?d = "takeWhile is_digit r1"
    have a: "(if ?d = [] then None else Some (acc @ e # sg @ ?d, dropWhile is_digit r1)) = Some (b, r)"
      using assms True unfolding Cons lex_exp_def list.case Let_def sg_def[symmetric] r1_def[symmetric] by simp
    have s': "s' = sg @ r1" by (cases s') (auto simp: sg_def r1_def)
    have d: "?d \<noteq> []" using a by (auto split: if_splits)
    have sg': "(case sg @ ?d of x # _ \<Rightarrow> if x = CHR ''+'' \<or> x = CHR ''-'' then [x] else [] | [] \<Rightarrow> []) = sg"
    proof (cases sg)
      case Nil
      obtain x y where xy: "?d = x # y" using d by (meson neq_Nil_conv)
      then have "is_digit x" by (metis list.set_intros(1) set_takeWhileD)
      with Nil xy show ?thesis by (auto simp: is_digit_def)
    next
      case (Cons x y)
      then show ?thesis by (cases s') (auto simp: sg_def split: if_splits)
    qed
    have "lex_exp acc (e # sg @ ?d) = Some (acc @ e # sg @ ?d, [])"
      using True d unfolding lex_exp_def list.case Let_def sg' by (auto dest: set_takeWhileD)
    with a d s' that[of "e # sg @ ?d"] Cons show ?thesis by auto
  qed
qed

lemma lex_frac_reread:
  assumes "lex_frac acc s = Some (b, r)"
  obtains u where "b = acc @ u" "s = u @ r" "lex_frac acc u = Some (b, [])"
proof (cases "\<exists>s'. s = CHR ''.'' # s'")
  case True
  then obtain s' where s: "s = CHR ''.'' # s'" by blast
  let ?d = "takeWhile is_digit s'"
  have d: "?d \<noteq> []" and e: "lex_exp (acc @ CHR ''.'' # ?d) (dropWhile is_digit s') = Some (b, r)"
    using assms s by (auto simp: lex_frac_def Let_def split: if_splits)
  from e obtain u where u: "b = (acc @ CHR ''.'' # ?d) @ u" "dropWhile is_digit s' = u @ r" "lex_exp (acc @ CHR ''.'' # ?d) u = Some (b, [])"
    by (rule lex_exp_reread)
  have "\<not> (u \<noteq> [] \<and> is_digit (hd u))" using u(2) hd_dropWhile[of is_digit s'] by (cases u) auto
  then have "takeWhile is_digit (?d @ u) = ?d" "dropWhile is_digit (?d @ u) = u"
    by (cases u; auto simp: takeWhile_append dropWhile_append dest: set_takeWhileD)+
  with d u(3) have "lex_frac acc (CHR ''.'' # ?d @ u) = Some (b, [])" by (simp add: lex_frac_def)
  moreover have "s = (CHR ''.'' # ?d @ u) @ r" using s u(2) by (metis append.assoc append_Cons takeWhile_dropWhile_id)
  ultimately show ?thesis using that[of "CHR ''.'' # ?d @ u"] u(1) by simp
next
  case False
  then have "lex_exp acc s = Some (b, r)" using assms by (cases s) (auto simp: lex_frac_def lex_exp_def)
  then obtain u where u: "b = acc @ u" "s = u @ r" "lex_exp acc u = Some (b, [])" by (rule lex_exp_reread)
  moreover have "lex_frac acc u = lex_exp acc u" using False u(2) by (cases u) (auto simp: lex_frac_def lex_exp_def)
  ultimately show ?thesis using that by simp
qed

lemma lex_number_reread:
  assumes "lex_number s = Some (b, r)"
  shows "s = b @ r \<and> b \<noteq> [] \<and> lex_number b = Some (b, [])"
proof -
  define sg where "sg = (case s of x # _ \<Rightarrow> if x = CHR ''-'' then [x] else [] | [] \<Rightarrow> [])"
  define s1 where "s1 = drop (length sg) s"
  have s: "s = sg @ s1" by (cases s) (auto simp: sg_def s1_def)
  have a: "(case s1 of [] \<Rightarrow> None | c # r \<Rightarrow> if c = CHR ''0'' then lex_frac (sg @ [c]) r
    else if is_digit c then lex_frac (sg @ takeWhile is_digit s1) (dropWhile is_digit s1) else None) = Some (b, r)"
    using assms unfolding lex_number_def Let_def sg_def[symmetric] s1_def[symmetric] .
  then obtain c u where c: "s1 = c # u" by (cases s1) auto
  have "sg = [CHR ''-''] \<or> sg = [] \<and> c \<noteq> CHR ''-''"
  proof (cases s)
    case (Cons x y)
    then have "sg = (if x = CHR ''-'' then [x] else [])" by (simp add: sg_def)
    with s c Cons show ?thesis by (cases "x = CHR ''-''") auto
  qed (use s c in simp)
  then have sg': "(case sg @ c # w of x # _ \<Rightarrow> if x = CHR ''-'' then [x] else [] | [] \<Rightarrow> []) = sg"
    and dr: "drop (length sg) (sg @ c # w) = c # w" for w
    by auto
  show ?thesis
  proof (cases "c = CHR ''0''")
    case True
    with a c have "lex_frac (sg @ [c]) u = Some (b, r)" by simp
    then obtain w where w: "b = (sg @ [c]) @ w" "u = w @ r" "lex_frac (sg @ [c]) w = Some (b, [])" by (rule lex_frac_reread)
    have b: "b = sg @ c # w" using w(1) by simp
    have "lex_number (sg @ c # w) = Some (b, [])"
      using True w(3) unfolding lex_number_def Let_def sg' dr list.case by simp
    with b s c w(2) show ?thesis by simp
  next
    case False
    let ?d = "takeWhile is_digit s1"
    have dg: "is_digit c" and lf: "lex_frac (sg @ ?d) (dropWhile is_digit s1) = Some (b, r)"
      using a False unfolding c list.case by (simp_all split: if_splits)
    from lf obtain w where w: "b = (sg @ ?d) @ w" "dropWhile is_digit s1 = w @ r" "lex_frac (sg @ ?d) w = Some (b, [])" by (rule lex_frac_reread)
    have cd: "?d = c # takeWhile is_digit u" using c dg by simp
    have "\<not> (w \<noteq> [] \<and> is_digit (hd w))" using w(2) hd_dropWhile[of is_digit s1] by (cases w) auto
    then have tw: "takeWhile is_digit (?d @ w) = ?d" "dropWhile is_digit (?d @ w) = w"
      by (cases w; auto simp: takeWhile_append dropWhile_append dest: set_takeWhileD)+
    have b: "b = sg @ c # takeWhile is_digit u @ w" using w(1) cd by simp
    have "lex_number (sg @ c # takeWhile is_digit u @ w) = Some (b, [])"
      using False dg w(3) tw unfolding lex_number_def Let_def sg' dr list.case cd by simp
    moreover have "s1 = ?d @ w @ r" using w(2) by (metis takeWhile_dropWhile_id)
    ultimately show ?thesis using b s cd by simp
  qed
qed

definition value_reread :: "nat \<Rightarrow> bytes \<Rightarrow> json \<Rightarrow> bytes \<Rightarrow> bool" where
  "value_reread f s v r \<longleftrightarrow>
     (\<exists>u. s = u @ r \<and> u \<noteq> [] \<and>
        (\<forall>d' t g. fits d' v \<longrightarrow> boundary t \<longrightarrow> Suc f \<le> g \<longrightarrow> parse_value g d' (u @ t) = Some (v, t)))"

lemma reread_object:
  assumes "rereads_members f" and "parse_value (Suc f) d (CHR ''{'' # cs) = Some (v, r)"
  shows "value_reread f (CHR ''{'' # cs) v r"
proof -
  from assms(2) obtain x y where sk: "skip_ws cs = x # y" by (auto split: if_splits list.splits)
  obtain w where w: "cs = w @ x # y" "list_all is_ws w" using skip_ws_split[of cs] sk by metis
  have start: "skip_ws (w @ x # z) = x # z" for z using w(2) skip_ws_hd[OF sk] by (simp add: skip_ws_run skip_ws_stop)
  show ?thesis
  proof (cases "x = CHR ''}''")
    case True
    have "parse_value g d' (CHR ''{'' # w @ x # t) = Some (v, t)" if "fits d' v" "Suc f \<le> g" for d' t g
      using that assms(2) sk True start[of t] by (cases g) (auto split: if_splits)
    with assms(2) w sk True show ?thesis
      by (auto simp: value_reread_def intro!: exI[of _ "CHR ''{'' # w @ [x]"] split: if_splits)
  next
    case False
    with assms(2) sk obtain ms where m: "parse_members f (Suc d) (x # y) = Some (ms, r)" "v = JObj ms" by (auto split: if_splits)
    from assms(1) m(1) obtain u where u: "x # y = u @ r" "u \<noteq> []"
      "\<forall>d' t g. (\<forall>m\<in>set ms. fits d' (snd (snd m))) \<longrightarrow> True \<longrightarrow> f \<le> g \<longrightarrow> parse_members g d' (u @ t) = Some (ms, t)"
      by (rule rereadsD)
    then obtain u' where u': "u = x # u'" by (cases u) auto
    have "parse_value g d' (CHR ''{'' # w @ u @ t) = Some (v, t)" if "fits d' v" "Suc f \<le> g" for d' t g
      using that u(3)[rule_format, of "Suc d'" "g - 1" t] False m(2) start[of "u' @ t"] by (cases g) (auto simp: u')
    with w u(1) show ?thesis by (auto simp: value_reread_def intro!: exI[of _ "CHR ''{'' # w @ u"])
  qed
qed

lemma reread_array:
  assumes "rereads_elements f" and "parse_value (Suc f) d (CHR ''['' # cs) = Some (v, r)"
  shows "value_reread f (CHR ''['' # cs) v r"
proof -
  from assms(2) obtain x y where sk: "skip_ws cs = x # y" by (auto split: if_splits list.splits)
  obtain w where w: "cs = w @ x # y" "list_all is_ws w" using skip_ws_split[of cs] sk by metis
  have start: "skip_ws (w @ x # z) = x # z" for z using w(2) skip_ws_hd[OF sk] by (simp add: skip_ws_run skip_ws_stop)
  show ?thesis
  proof (cases "x = CHR '']''")
    case True
    have "parse_value g d' (CHR ''['' # w @ x # t) = Some (v, t)" if "fits d' v" "Suc f \<le> g" for d' t g
      using that assms(2) sk True start[of t] by (cases g) (auto split: if_splits)
    with assms(2) w sk True show ?thesis
      by (auto simp: value_reread_def intro!: exI[of _ "CHR ''['' # w @ [x]"] split: if_splits)
  next
    case False
    with assms(2) sk obtain vs where m: "parse_elements f (Suc d) (x # y) = Some (vs, r)" "v = JArr vs" by (auto split: if_splits)
    from assms(1) m(1) obtain u where u: "x # y = u @ r" "u \<noteq> []"
      "\<forall>d' t g. (\<forall>v\<in>set vs. fits d' v) \<longrightarrow> True \<longrightarrow> f \<le> g \<longrightarrow> parse_elements g d' (u @ t) = Some (vs, t)"
      by (rule rereadsD)
    then obtain u' where u': "u = x # u'" by (cases u) auto
    have "parse_value g d' (CHR ''['' # w @ u @ t) = Some (v, t)" if "fits d' v" "Suc f \<le> g" for d' t g
      using that u(3)[rule_format, of "Suc d'" "g - 1" t] False m(2) start[of "u' @ t"] by (cases g) (auto simp: u')
    with w u(1) show ?thesis by (auto simp: value_reread_def intro!: exI[of _ "CHR ''['' # w @ u"])
  qed
qed

lemma literals: "lit_true = ''true''" "lit_false = ''false''" "lit_null = ''null''"
  by (simp_all add: lit_true_def lit_false_def lit_null_def)

lemma reread_literal:
  assumes "parse_value (Suc f) d (l @ cs) = Some (v, r)" and "l \<in> {lit_true, lit_false, lit_null}"
  shows "value_reread f (l @ cs) v r"
proof -
  have "r = cs \<and> (\<forall>d t g. Suc f \<le> g \<longrightarrow> parse_value g d (l @ t) = Some (v, t))"
    using assms by (auto simp: literals has_prefix_def dest!: Suc_le_D)
  with assms(2) show ?thesis by (auto simp: value_reread_def literals)
qed

lemma reread_number:
  assumes "lex_number s = Some (b, r)" and "hd s \<notin> {CHR ''{'', CHR ''['', c_quote}"
  shows "value_reread f s (JNum b) r"
proof -
  note rr = lex_number_reread[OF assms(1)]
  then obtain c b' where b': "b = c # b'" by (cases b) auto
  have "hd s = CHR ''-'' \<or> is_digit (hd s)"
    using assms(1) by (cases s; cases "hd s = CHR ''0''") (auto simp: lex_number_def Let_def is_digit_def split: if_splits)
  then have "c \<notin> {CHR ''t'', CHR ''f'', CHR ''n''}" using rr by (auto simp: is_digit_def b')
  then have "parse_value g d' (b @ t) = Some (JNum b, t)" if "boundary t" "Suc f \<le> g" for d' t g
    using lex_number_extend[of b b "[]" t] rr that assms(2) by (cases g) (auto simp: b' literals has_prefix_def)
  with rr show ?thesis by (auto simp: value_reread_def)
qed

lemma rereads_value_step:
  assumes "rereads_elements f" and "rereads_members f"
  shows "rereads_value (Suc f)"
  unfolding rereads_def value_reread_def[symmetric]
proof (intro allI impI)
  fix d s v r
  assume p: "parse_value (Suc f) d s = Some (v, r)"
  then obtain c cs where s: "s = c # cs" by (cases s) auto
  consider "c = CHR ''{''" | "c = CHR ''[''" | "c = c_quote" | l where "l \<in> {lit_true, lit_false, lit_null}" "has_prefix s l"
    | "c \<notin> {CHR ''{'', CHR ''['', c_quote}" "\<not> has_prefix s lit_true" "\<not> has_prefix s lit_false" "\<not> has_prefix s lit_null" by blast
  then show "value_reread f s v r"
  proof cases
    case 1
    with reread_object[OF assms(2)] p s show ?thesis by blast
  next
    case 2
    with reread_array[OF assms(1)] p s show ?thesis by blast
  next
    case 3
    with p s obtain b where b: "lex_string cs = Some (b, r)" "v = JStr b" by auto
    from lex_string_reread[OF b(1)] 3 s b(2) show ?thesis
      by (auto simp: value_reread_def intro!: exI[of _ "c # b @ [c_quote]"] dest!: Suc_le_D)
  next
    case 4
    with reread_literal p show ?thesis by (metis has_prefix_iff)
  next
    case 5
    with p s obtain b where b: "lex_number s = Some (b, r)" "v = JNum b" by auto
    with reread_number[OF b(1)] 5(1) s show ?thesis by simp
  qed
qed

lemma parse_elements_inv:
  assumes "parse_elements (Suc f) d s = Some (vs, r)"
  obtains v s1 x r1 where "parse_value f d s = Some (v, s1)" "skip_ws s1 = x # r1"
    "x = CHR '']'' \<and> vs = [v] \<and> r = r1 \<or> x = CHR '','' \<and> (\<exists>vs'. parse_elements f d (skip_ws r1) = Some (vs', r) \<and> vs = v # vs')"
  using assms by (auto split: option.splits list.splits if_splits)

text \<open>What follows a value inside brackets: white space, then a comma or the closing bracket.\<close>

lemma skip_ws_boundary:
  assumes "skip_ws s1 = x # r1" and "x \<in> {CHR '','', CHR '']'', CHR ''}''}"
  obtains w where "s1 = w @ x # r1" "\<And>z. boundary (w @ x # z)" "\<And>z. skip_ws (w @ x # z) = x # z"
proof -
  obtain w where w: "s1 = w @ x # r1" "list_all is_ws w" using skip_ws_split[of s1] assms(1) by metis
  moreover have "skip_ws (w @ x # z) = x # z" for z using w(2) skip_ws_hd[OF assms(1)] by (simp add: skip_ws_run skip_ws_stop)
  moreover have "boundary (w @ x # z)" for z by (rule boundary_ws[OF w(2)]) (use assms(2) in auto)
  ultimately show ?thesis using that by blast
qed

lemma skip_ws_consumed:
  assumes "skip_ws s = c @ r" and "c \<noteq> []"
  obtains w where "s = w @ c @ r" "\<And>z. skip_ws (w @ c @ z) = c @ z"
proof -
  obtain w where w: "s = w @ c @ r" "list_all is_ws w" using skip_ws_split[of s] assms(1) by metis
  obtain x y where c: "c = x # y" using assms(2) by (meson neq_Nil_conv)
  with assms(1) have "\<not> is_ws x" using skip_ws_hd[of s x] by simp
  with w that show ?thesis by (simp add: c skip_ws_run skip_ws_stop)
qed

lemma rereads_elements_step:
  assumes "rereads_value f" and "rereads_elements f"
  shows "rereads_elements (Suc f)"
  unfolding rereads_def
proof (intro allI impI)
  fix d s vs r
  assume "parse_elements (Suc f) d s = Some (vs, r)"
  then obtain v s1 x r1 where v: "parse_value f d s = Some (v, s1)" and sk: "skip_ws s1 = x # r1"
    and c: "x = CHR '']'' \<and> vs = [v] \<and> r = r1 \<or> x = CHR '','' \<and> (\<exists>vs'. parse_elements f d (skip_ws r1) = Some (vs', r) \<and> vs = v # vs')"
    by (rule parse_elements_inv)
  obtain c1 where c1: "s = c1 @ s1" "c1 \<noteq> []"
    "\<forall>d' t g. fits d' v \<longrightarrow> boundary t \<longrightarrow> f \<le> g \<longrightarrow> parse_value g d' (c1 @ t) = Some (v, t)"
    by (rule rereadsD[OF assms(1) v])
  obtain w where w: "s1 = w @ x # r1" "\<And>z. boundary (w @ x # z)" "\<And>z. skip_ws (w @ x # z) = x # z"
    by (rule skip_ws_boundary[OF sk]) (use c in auto)
  from c show "\<exists>u. s = u @ r \<and> u \<noteq> [] \<and> (\<forall>d' t g. (\<forall>v\<in>set vs. fits d' v) \<longrightarrow> True \<longrightarrow> Suc f \<le> g \<longrightarrow> parse_elements g d' (u @ t) = Some (vs, t))"
  proof (elim disjE conjE exE)
    assume e: "x = CHR '']''" "vs = [v]" "r = r1"
    have "parse_elements g d' (c1 @ w @ x # t) = Some (vs, t)" if "\<forall>v\<in>set vs. fits d' v" "Suc f \<le> g" for d' t g
      using that c1(3) w(2,3) e by (cases g) auto
    with c1 w e show ?thesis by (intro exI[of _ "c1 @ w @ [x]"]) auto
  next
    fix vs'
    assume e: "x = CHR '',''" "parse_elements f d (skip_ws r1) = Some (vs', r)" "vs = v # vs'"
    obtain c2 where c2: "skip_ws r1 = c2 @ r" "c2 \<noteq> []"
      "\<forall>d' t g. (\<forall>v\<in>set vs'. fits d' v) \<longrightarrow> True \<longrightarrow> f \<le> g \<longrightarrow> parse_elements g d' (c2 @ t) = Some (vs', t)"
      by (rule rereadsD[OF assms(2) e(2)])
    obtain w2 where w2: "r1 = w2 @ c2 @ r" "\<And>z. skip_ws (w2 @ c2 @ z) = c2 @ z" by (rule skip_ws_consumed[OF c2(1,2)]) blast
    have "parse_elements g d' (c1 @ w @ x # w2 @ c2 @ t) = Some (vs, t)" if "\<forall>v\<in>set vs. fits d' v" "Suc f \<le> g" for d' t g
      using that c1(3) c2(3) w(2,3) w2(2) e by (cases g) auto
    with c1 w w2 show ?thesis by (intro exI[of _ "c1 @ w @ x # w2 @ c2"]) auto
  qed
qed

lemma rereads_members_step:
  assumes "rereads_value f" and "rereads_members f"
  shows "rereads_members (Suc f)"
  unfolding rereads_def
proof (intro allI impI)
  fix d s ms r
  assume "parse_members (Suc f) d s = Some (ms, r)"
  then obtain s1 k s2 s3 v s5 x r1 where a: "s = c_quote # s1" "lex_string s1 = Some (k, s2)" "skip_ws s2 = CHR '':'' # s3"
    and v: "parse_value f d (skip_ws s3) = Some (v, s5)" and sk: "skip_ws s5 = x # r1"
    and c: "x = CHR ''}'' \<and> ms = [(k, take (length (skip_ws s3) - length s5) (skip_ws s3), v)] \<and> r = r1 \<or>
     x = CHR '','' \<and> (\<exists>ms'. parse_members f d (skip_ws r1) = Some (ms', r) \<and>
       ms = (k, take (length (skip_ws s3) - length s5) (skip_ws s3), v) # ms')"
    by (rule parse_members_inv)
  note lex = lex_string_reread[OF a(2)]
  obtain w0 where w0: "s2 = w0 @ CHR '':'' # s3" "list_all is_ws w0" using skip_ws_split[of s2] a(3) by metis
  then have w0': "skip_ws (w0 @ CHR '':'' # z) = CHR '':'' # z" for z by (simp add: skip_ws_run skip_ws_stop)
  obtain c1 where c1: "skip_ws s3 = c1 @ s5" "c1 \<noteq> []"
    "\<forall>d' t g. fits d' v \<longrightarrow> boundary t \<longrightarrow> f \<le> g \<longrightarrow> parse_value g d' (c1 @ t) = Some (v, t)"
    by (rule rereadsD[OF assms(1) v])
  obtain w1 where w1: "s3 = w1 @ c1 @ s5" "\<And>z. skip_ws (w1 @ c1 @ z) = c1 @ z" by (rule skip_ws_consumed[OF c1(1,2)]) blast
  obtain w where w: "s5 = w @ x # r1" "\<And>z. boundary (w @ x # z)" "\<And>z. skip_ws (w @ x # z) = x # z"
    by (rule skip_ws_boundary[OF sk]) (use c in auto)
  have raw: "take (length (skip_ws s3) - length s5) (skip_ws s3) = c1" by (simp add: c1(1))
  let ?pre = "c_quote # k @ c_quote # w0 @ CHR '':'' # w1 @ c1 @ w @ [x]"
  have s: "s = ?pre @ r1" using a(1) lex w0(1) w1(1) w(1) by simp
  have head: "parse_members (Suc g) d' (?pre @ t) =
      (if x = CHR ''}'' then Some ([(k, c1, v)], t)
       else map_option (\<lambda>(ms, t). ((k, c1, v) # ms, t)) (parse_members g d' (skip_ws t)))"
    if "fits d' v" "f \<le> g" for d' t g
  proof -
    have "parse_value g d' (c1 @ w @ x # t) = Some (v, w @ x # t)" using c1(3) that w(2) by blast
    with lex_string_reread[OF a(2), of "w0 @ CHR '':'' # w1 @ c1 @ w @ x # t"] c w0' w1(2)[of "w @ x # t"] w(3)[of t] show ?thesis by auto
  qed
  from c show "\<exists>u. s = u @ r \<and> u \<noteq> [] \<and> (\<forall>d' t g. (\<forall>m\<in>set ms. fits d' (snd (snd m))) \<longrightarrow> True \<longrightarrow> Suc f \<le> g \<longrightarrow> parse_members g d' (u @ t) = Some (ms, t))"
    unfolding raw
  proof (elim disjE conjE exE)
    assume e: "x = CHR ''}''" "ms = [(k, c1, v)]" "r = r1"
    have "parse_members g d' (?pre @ t) = Some (ms, t)" if "\<forall>m\<in>set ms. fits d' (snd (snd m))" "Suc f \<le> g" for d' t g
      using that head[of d' "g - 1" t] e by (cases g) auto
    with s e show ?thesis by (intro exI[of _ ?pre]) auto
  next
    fix ms'
    assume e: "x = CHR '',''" "parse_members f d (skip_ws r1) = Some (ms', r)" "ms = (k, c1, v) # ms'"
    obtain c2 where c2: "skip_ws r1 = c2 @ r" "c2 \<noteq> []"
      "\<forall>d' t g. (\<forall>m\<in>set ms'. fits d' (snd (snd m))) \<longrightarrow> True \<longrightarrow> f \<le> g \<longrightarrow> parse_members g d' (c2 @ t) = Some (ms', t)"
      by (rule rereadsD[OF assms(2) e(2)])
    obtain w2 where w2: "r1 = w2 @ c2 @ r" "\<And>z. skip_ws (w2 @ c2 @ z) = c2 @ z" by (rule skip_ws_consumed[OF c2(1,2)]) blast
    have "parse_members g d' (?pre @ w2 @ c2 @ t) = Some (ms, t)" if "\<forall>m\<in>set ms. fits d' (snd (snd m))" "Suc f \<le> g" for d' t g
      using that head[of d' "g - 1" "w2 @ c2 @ t"] c2(3) w2(2) e by (cases g) auto
    with s w2 show ?thesis by (intro exI[of _ "?pre @ w2 @ c2"]) auto
  qed
qed

lemma parse_rereads: "rereads_value f \<and> rereads_elements f \<and> rereads_members f"
proof (induction f)
  case 0
  then show ?case by (simp add: rereads_def)
next
  case (Suc f)
  then show ?case by (simp add: rereads_value_step rereads_elements_step rereads_members_step)
qed

section \<open>Copied\<close>

text \<open>The bytes of the value inside a raw text, without the white space around it.\<close>

definition raw_value :: "bytes \<Rightarrow> bytes" where
  "raw_value s =
     (case parse_value (2 * length s + 2) 0 (skip_ws s) of
        Some (v, r) \<Rightarrow> take (length (skip_ws s) - length r) (skip_ws s)
      | None \<Rightarrow> s)"

lemma reads_raw:
  assumes "json_parse s = Some v" and "fits d v"
  shows "padded (raw_value s) s \<and> reads d (raw_value s) v"
proof -
  let ?f = "2 * length s + 2"
  from assms(1) obtain r where p: "parse_value ?f 0 (skip_ws s) = Some (v, r)" and r: "skip_ws r = []"
    by (auto simp: json_parse_def split: option.splits if_splits simp del: parse_value.simps)
  obtain c where c: "skip_ws s = c @ r" "c \<noteq> []"
    "\<forall>d' t g. fits d' v \<longrightarrow> boundary t \<longrightarrow> ?f \<le> g \<longrightarrow> parse_value g d' (c @ t) = Some (v, t)"
    by (rule rereadsD[OF parse_rereads[THEN conjunct1] p])
  have raw: "raw_value s = c" using p by (simp add: raw_value_def c(1) del: parse_value.simps)
  obtain w where w: "s = w @ c @ r" "list_all is_ws w" using skip_ws_split[of s] c(1) by metis
  have rw: "list_all is_ws r" using r by (simp add: skip_ws_def list_all_iff)
  have "\<not> is_ws (hd c)" using c(1,2) skip_ws_hd[of s "hd c"] by (cases c) auto
  moreover have "parse_value g d (c @ t) = Some (v, t)" if "boundary t" "2 * length (c @ t) < g" for t g
  proof -
    have "parse_value (max g ?f) d (c @ t) = Some (v, t)" using c(3) assms(2) that(1) by simp
    with parse_fuel_enough[OF that(2), of "max g ?f" d] show ?thesis by simp
  qed
  ultimately have "reads d c v" using c(2) by (simp add: reads_def)
  with w rw raw show ?thesis by (auto simp: padded_def)
qed

section \<open>Compacted\<close>

text \<open>The spelling of every token of a parsed value is one the scanner reads whole.\<close>

fun tokens_ok :: "json \<Rightarrow> bool" where
  "tokens_ok (JNum n) = (lex_number n = Some (n, []))"
| "tokens_ok (JStr b) = spelled b"
| "tokens_ok (JArr vs) = (\<forall>v\<in>set vs. tokens_ok v)"
| "tokens_ok (JObj ms) = (\<forall>m\<in>set ms. spelled (fst m) \<and> tokens_ok (snd (snd m)))"
| "tokens_ok _ = True"

lemma lex_string_spelled: "lex_string s = Some (b, r) \<Longrightarrow> spelled b"
  using lex_string_reread by (auto simp: spelled_def)

lemma parse_tokens:
  "(\<forall>d s v r. parse_value f d s = Some (v, r) \<longrightarrow> tokens_ok v) \<and>
   (\<forall>d s vs r. parse_elements f d s = Some (vs, r) \<longrightarrow> tokens_ok (JArr vs)) \<and>
   (\<forall>d s ms r. parse_members f d s = Some (ms, r) \<longrightarrow> tokens_ok (JObj ms))"
proof (induction f)
  case 0
  then show ?case by simp
next
  case (Suc f)
  note v = Suc[THEN conjunct1, rule_format] and e = Suc[THEN conjunct2, THEN conjunct1, rule_format]
    and m = Suc[THEN conjunct2, THEN conjunct2, rule_format]
  have "tokens_ok w" if "parse_value (Suc f) d s = Some (w, r)" for d s w r
    using that e m lex_string_spelled lex_number_reread
    by (auto split: list.splits if_splits simp del: tokens_ok.simps(3,4)) (auto simp: tokens_ok.simps(3,4))
  moreover have "tokens_ok (JArr vs)" if "parse_elements (Suc f) d s = Some (vs, r)" for d s vs r
    using that by (rule parse_elements_inv) (use v e in fastforce)
  moreover have "tokens_ok (JObj ms)" if "parse_members (Suc f) d s = Some (ms, r)" for d s ms r
    using that by (rule parse_members_inv) (use v m lex_string_spelled in fastforce)
  ultimately show ?case by blast
qed

fun compacted :: "json \<Rightarrow> json" where
  "compacted (JArr vs) = JArr (map compacted vs)"
| "compacted (JObj ms) = JObj (map (\<lambda>(k, raw, v). (k, compact_text v, compacted v)) ms)"
| "compacted v = v"

lemma reads_compact: "tokens_ok v \<Longrightarrow> fits d v \<Longrightarrow> reads d (compact_text v) (compacted v)"
proof (induction v arbitrary: d rule: compact_text.induct)
  case 1
  then show ?case by (simp add: reads_null)
next
  case (2 b)
  show ?case by (rule readsI) (auto simp: literals has_prefix_def is_ws_def)
next
  case (3 n)
  then have n: "lex_number n = Some (n, [])" by simp
  have "hd n = CHR ''-'' \<or> is_digit (hd n)" and ne: "n \<noteq> []"
    using n by (cases n; cases "hd n = CHR ''0''"; auto simp: lex_number_def Let_def is_digit_def split: if_splits)+
  then have h: "hd n \<notin> {CHR ''{'', CHR ''['', c_quote, CHR ''t'', CHR ''f'', CHR ''n''}" "\<not> is_ws (hd n)"
    by (auto simp: is_digit_def is_ws_def)
  obtain c u where "n = c # u" using ne by (meson neq_Nil_conv)
  with h lex_number_extend[OF n] show ?case by (intro readsI) (auto simp: literals has_prefix_def)
next
  case (4 b)
  then show ?case by (intro readsI) (simp_all add: spelled_def)
next
  case (5 vs)
  then have "list_all2 (reads (Suc d)) (map compact_text vs) (map compacted vs)"
    by (simp add: list_all2_map1 list_all2_map2 list_all2_same)
  from reads_array[OF this] 5(3) show ?case by simp
next
  case (6 ms)
  have "members_read (Suc d) (map (\<lambda>(k, raw, v). (k, compact_text v)) ms) (map (\<lambda>(k, raw, v). (k, compact_text v, compacted v)) ms)"
    unfolding members_read_def list_all2_map1 list_all2_map2 list_all2_same
  proof
    fix m
    assume m: "m \<in> set ms"
    obtain k raw v where kv: "m = (k, raw, v)" by (cases m) auto
    from 6(2) m have "spelled k" "tokens_ok v" unfolding kv by force+
    moreover from 6(3) m have "fits (Suc d) v" unfolding kv by force
    ultimately have "spelled k \<and> reads (Suc d) (compact_text v) (compacted v)" using 6(1)[OF m kv[symmetric] refl] by simp
    then show "(case case m of (k, raw, v) \<Rightarrow> (k, compact_text v) of (k, tx) \<Rightarrow>
        \<lambda>(k', raw, v). k' = k \<and> spelled k \<and> padded raw tx \<and> reads (Suc d) raw v) (case m of (k, raw, v) \<Rightarrow> (k, compact_text v, compacted v))"
      by (simp add: kv)
  qed
  from reads_members[OF this] 6(3) show ?case
    by (simp add: member_texts_def comp_def split_def)
qed

lemma reads_compacted:
  assumes "json_parse s = Some v" and "fits d v"
  shows "\<exists>t. json_compact s = Some t \<and> reads d t (compacted v)"
proof -
  have "tokens_ok v"
    using assms(1) parse_tokens[THEN conjunct1, rule_format]
    by (auto simp: json_parse_def split: option.splits if_splits simp del: parse_value.simps)
  from reads_compact[OF this assms(2)] assms(1) show ?thesis by (simp add: json_compact_def)
qed

end
