(* ===== verification/Entry_Stored.thy ===== *)
theory Entry_Stored
  imports Entry_Decode JSON_Raw
begin

text \<open>
  What the log wrote, it reads back: \<open>Entry.UnmarshalJSON\<close> after \<open>Entry.MarshalJSON\<close>. The one thing a
  line changes is what it does not write: the fields a block's type does not use, the white space
  around and, when it holds a line break, inside a raw input, and the execution of a record from before
  schema 3. \<open>stored\<close> is the entry with these taken away; the lemmas show that decoding yields it.
\<close>

section \<open>Keys\<close>

definition field_name :: "bytes \<Rightarrow> bool" where
  "field_name k \<longleftrightarrow> list_all (\<lambda>c. 97 \<le> byte c \<and> byte c \<le> 122 \<or> 48 \<le> byte c \<and> byte c \<le> 57 \<or> byte c = 95) k"

lemma field_names [simp]:
  "field_name ''id''" "field_name ''at''" "field_name ''kind''" "field_name ''root''" "field_name ''git_root''"
  "field_name ''project_id''" "field_name ''provider''" "field_name ''model''" "field_name ''input''" "field_name ''output''"
  "field_name ''cache_read''" "field_name ''cache_write''" "field_name ''tool''" "field_name ''prefix''" "field_name ''runtime''"
  "field_name ''type''" "field_name ''text''" "field_name ''media_type''" "field_name ''sha256''" "field_name ''signature''"
  "field_name ''name''" "field_name ''schema_version''" "field_name ''rudy_version''" "field_name ''workspace''"
  "field_name ''thinking''" "field_name ''mode''" "field_name ''agent''" "field_name ''parent_session_id''"
  "field_name ''parent_tool_use_id''" "field_name ''tools''" "field_name ''execution''" "field_name ''parent_entry_id''"
  "field_name ''source''" "field_name ''content''" "field_name ''usage''" "field_name ''stop_reason''"
  "field_name ''stop_reason_raw''" "field_name ''tool_use_id''" "field_name ''matcher''" "field_name ''decision''"
  "field_name ''decided_by''" "field_name ''scope''" "field_name ''reason''" "field_name ''thread_id''" "field_name ''turn_id''"
  "field_name ''item_id''" "field_name ''request_id''" "field_name ''approval_kind''" "field_name ''outcome''"
  "field_name ''duration_ms''" "field_name ''title''" "field_name ''summary''" "field_name ''first_entry_id''"
  "field_name ''last_entry_id''" "field_name ''how''" "field_name ''class''" "field_name ''message''" "field_name ''retries''"
  "field_name ''plugin''" "field_name ''role''"
  by (simp_all add: field_name_def)

lemma ascii_utf8: "list_all (\<lambda>c. byte c < 128) s \<Longrightarrow> valid_utf8 s"
  by (induction s) (simp_all add: rune_len_ascii)

lemma field_name_utf8: "field_name k \<Longrightarrow> valid_utf8 k"
  unfolding field_name_def by (rule ascii_utf8) (auto simp: list_all_iff)

definition upcase :: "char \<Rightarrow> char" where
  "upcase a = (if 97 \<le> byte a \<and> byte a \<le> 122 then char_of (byte a - 32) else a)"

definition name_char :: "char \<Rightarrow> bool" where
  "name_char c \<longleftrightarrow> 97 \<le> byte c \<and> byte c \<le> 122 \<or> 48 \<le> byte c \<and> byte c \<le> 57 \<or> byte c = 95"

lemma upcase_nat_inj:
  fixes x y :: nat
  assumes "(if 97 \<le> x \<and> x \<le> 122 then x - 32 else x) = (if 97 \<le> y \<and> y \<le> 122 then y - 32 else y)"
    and "97 \<le> x \<and> x \<le> 122 \<or> 48 \<le> x \<and> x \<le> 57 \<or> x = 95" and "97 \<le> y \<and> y \<le> 122 \<or> 48 \<le> y \<and> y \<le> 57 \<or> y = 95"
  shows "x = y"
  using assms by presburger

lemma upcase_inj:
  assumes "upcase a = upcase b" and "name_char a" and "name_char b"
  shows "a = b"
proof -
  have up: "byte (upcase c) = (if 97 \<le> byte c \<and> byte c \<le> 122 then byte c - 32 else byte c)" for c by (auto simp: upcase_def)
  have "byte a = byte b"
    by (rule upcase_nat_inj) (use assms in \<open>simp_all only: up[symmetric] name_char_def\<close>)
  then show ?thesis by simp
qed

lemma fold_field_name: "field_name k \<Longrightarrow> fold_key k = map upcase k"
  by (induction k) (auto simp: field_name_def upcase_def)

lemma fold_field_inj:
  assumes "field_name k" and "field_name n" and "fold_key k = fold_key n"
  shows "k = n"
proof (rule map_inj_on)
  show "map upcase k = map upcase n" using assms by (simp add: fold_field_name)
  have "name_char c" if "c \<in> set k \<union> set n" for c using assms(1,2) that by (auto simp: field_name_def name_char_def list_all_iff)
  then show "inj_on upcase (set k \<union> set n)" by (auto intro: inj_onI upcase_inj)
qed

lemma key_matches_name: "field_name n \<Longrightarrow> field_name k \<Longrightarrow> key_matches n (escape_text k) \<longleftrightarrow> k = n"
  using fold_field_inj by (auto simp: key_matches_def unquote_escape_text field_name_utf8)

section \<open>What a line keeps\<close>

definition stored_input :: "bytes \<Rightarrow> bytes" where
  "stored_input raw =
     (if c_nl \<notin> set raw \<and> c_cr \<notin> set raw then raw_value raw
      else case json_compact raw of Some t \<Rightarrow> t | None \<Rightarrow> raw)"

definition stored_block :: "Block \<Rightarrow> Block" where
  "stored_block b =
     (if bl_Type b = BlockText then zero_Block\<lparr>bl_Type := BlockText, bl_Text := bl_Text b\<rparr>
      else if bl_Type b = BlockImage
      then zero_Block\<lparr>bl_Type := BlockImage, bl_MediaType := bl_MediaType b, bl_SHA256 := bl_SHA256 b\<rparr>
      else if bl_Type b = BlockThinking
      then zero_Block\<lparr>bl_Type := BlockThinking, bl_Text := bl_Text b, bl_Signature := bl_Signature b\<rparr>
      else zero_Block\<lparr>bl_Type := BlockToolUse, bl_ID := bl_ID b, bl_Name := bl_Name b,
             bl_Input := (if bl_Input b = [] then ''{}'' else stored_input (bl_Input b))\<rparr>)"

fun stored_payload :: "payload \<Rightarrow> payload" where
  "stored_payload (UserMessage v) = UserMessage (v\<lparr>um_Content := map stored_block (um_Content v)\<rparr>)"
| "stored_payload (AssistantMessage v) = AssistantMessage (v\<lparr>am_Content := map stored_block (am_Content v)\<rparr>)"
| "stored_payload (ToolResult v) = ToolResult (v\<lparr>tr_Content := map stored_block (tr_Content v)\<rparr>)"
| "stored_payload (PermissionDecision v) =
     PermissionDecision (v\<lparr>pd_Input := (if pd_Input v = [] then [] else stored_input (pd_Input v))\<rparr>)"
| "stored_payload (SessionOpened v) =
     SessionOpened (if so_SchemaVersion v < 3
       then v\<lparr>so_Execution := \<lparr>ex_Kind = ExecutionNative, ex_Provider = mr_Provider (so_Model v), ex_Runtime = []\<rparr>\<rparr> else v)"
| "stored_payload p = p"

definition stored :: "Entry \<Rightarrow> Entry" where
  "stored e = e\<lparr>en_Payload := stored_payload (en_Payload e)\<rparr>"

text \<open>
  The entries a line can hold: their strings are UTF-8, their integers fit in 64 bits, a raw input
  stays within the nesting limit at the depth where the line puts it, and the ids, the time and the
  provider an old record's execution is inferred from can be read back.
\<close>

definition ulid_reads :: "ulid_lib \<Rightarrow> ulid \<Rightarrow> bool" where
  "ulid_reads U u \<longleftrightarrow>
     list_all (\<lambda>c. plain c \<and> byte c < 128) (ulid_String U u) \<and>
     ulid_ParseStrict U (ulid_String U u) = Some u \<and> ulid_UnmarshalText U (ulid_String U u) = Some u"

definition int64_ok :: "int \<Rightarrow> bool" where
  "int64_ok i \<longleftrightarrow> - (2 ^ 63) \<le> i \<and> i < 2 ^ 63"

definition raw_ok :: "nat \<Rightarrow> bytes \<Rightarrow> bool" where
  "raw_ok d raw \<longleftrightarrow> raw = [] \<or> (case json_parse raw of Some v \<Rightarrow> fits d v | None \<Rightarrow> False)"

definition block_ok :: "Block \<Rightarrow> bool" where
  "block_ok b \<longleftrightarrow>
     list_all valid_utf8 [bl_Text b, bl_MediaType b, bl_SHA256 b, bl_Signature b, bl_ID b, bl_Name b] \<and> raw_ok 3 (bl_Input b)"

fun payload_ok :: "ulid_lib \<Rightarrow> payload \<Rightarrow> bool" where
  "payload_ok U (SessionOpened v) =
     (int64_ok (so_SchemaVersion v) \<and> (so_SchemaVersion v < 3 \<longrightarrow> mr_Provider (so_Model v) \<noteq> []) \<and>
      list_all valid_utf8 ([so_RudyVersion v, ws_Root (so_Workspace v), ws_GitRoot (so_Workspace v), ws_ProjectID (so_Workspace v),
        mr_Provider (so_Model v), mr_Model (so_Model v), so_Thinking v, so_Mode v, so_Agent v, so_ParentSessionID v,
        so_ParentToolUseID v, ex_Kind (so_Execution v), ex_Provider (so_Execution v), ex_Runtime (so_Execution v)] @
        (case so_Tools v of Some ts \<Rightarrow> ts | None \<Rightarrow> [])))"
| "payload_ok U (ForkPoint v) = (ulid_reads U (fp_ParentSessionID v) \<and> ulid_reads U (fp_ParentEntryID v))"
| "payload_ok U (UserMessage v) = (valid_utf8 (um_Source v) \<and> list_all block_ok (um_Content v))"
| "payload_ok U (AssistantMessage v) =
     (list_all valid_utf8 [mr_Provider (am_Model v), mr_Model (am_Model v), am_Thinking v, am_StopReason v, am_StopReasonRaw v] \<and>
      list_all block_ok (am_Content v))"
| "payload_ok U (PermissionDecision v) =
     (list_all valid_utf8 [pd_ToolUseID v, pd_Tool v, pd_Mode v, ma_Tool (pd_Matcher v), ma_Prefix (pd_Matcher v), pd_Decision v,
        pd_DecidedBy v, pd_Scope v, pd_Reason v] \<and> raw_ok 1 (pd_Input v))"
| "payload_ok U (RuntimePermissionDecision v) =
     list_all valid_utf8 [rd_Runtime v, rd_ThreadID v, rd_TurnID v, rd_ItemID v, rd_RequestID v, rd_ApprovalKind v, rd_Decision v,
        rd_DecidedBy v, rd_Scope v, rd_Reason v]"
| "payload_ok U (ToolResult v) =
     (valid_utf8 (tr_ToolUseID v) \<and> valid_utf8 (tr_Outcome v) \<and> list_all block_ok (tr_Content v) \<and> int64_ok (tr_DurationMS v))"
| "payload_ok U (ModelChange m) = (valid_utf8 (mr_Provider m) \<and> valid_utf8 (mr_Model m))"
| "payload_ok U (ModeChange m) = valid_utf8 m"
| "payload_ok U (ThinkingChange l) = valid_utf8 l"
| "payload_ok U (TitleChange t) = valid_utf8 t"
| "payload_ok U (Compaction v) =
     (valid_utf8 (co_Summary v) \<and> ulid_reads U (co_FirstEntryID v) \<and> ulid_reads U (co_LastEntryID v) \<and>
      valid_utf8 (mr_Provider (co_Model v)) \<and> valid_utf8 (mr_Model (co_Model v)))"
| "payload_ok U (TurnInterrupted v) = (ulid_reads U (ti_TurnID v) \<and> valid_utf8 (ti_How v))"
| "payload_ok U (TurnFailed v) =
     (ulid_reads U (tf_TurnID v) \<and> valid_utf8 (tf_Class v) \<and> valid_utf8 (tf_Message v) \<and> int64_ok (tf_Retries v))"
| "payload_ok U (Note v) = (valid_utf8 (no_Plugin v) \<and> valid_utf8 (no_Text v) \<and> valid_utf8 (no_Role v))"

definition entry_storable :: "ulid_lib \<Rightarrow> Entry \<Rightarrow> bool" where
  "entry_storable U e \<longleftrightarrow> ulid_reads U (en_ID e) \<and> time_ok (en_At e) \<and> payload_ok U (en_Payload e)"

section \<open>Members\<close>

lemma fields_read_simps [simp]:
  "fields_read d [] []"
  "fields_read d ((k, tx) # fs) ((k', raw, v) # ms) \<longleftrightarrow> k' = escape_text k \<and> padded raw tx \<and> reads d raw v \<and> fields_read d fs ms"
  by (simp_all add: fields_read_def)

lemma fields_read_append:
  "fields_read d fs ms \<Longrightarrow> fields_read d fs' ms' \<Longrightarrow> fields_read d (fs @ fs') (ms @ ms')"
  by (simp add: fields_read_def list_all2_appendI)

lemma assign_append: "assign n f a (ms @ ms') = Option.bind (assign n f a ms) (\<lambda>b. assign n f b ms')"
  by (induction ms arbitrary: a) (auto split: option.splits)

lemma parse_show_int: "int64_ok i \<Longrightarrow> parse_int64 (show_int i) = Some i"
proof -
  assume ok: "int64_ok i"
  have d: "list_all is_digit (show_nat n)" "nat_of_digits 0 (show_nat n) = n" for n
    using show_nat_digits[of n] by (simp_all add: list_all_iff)
  have hd: "hd (show_nat n) \<noteq> CHR ''-''" for n
    using bspec[OF show_nat_digits[of n] hd_in_set[OF show_nat_ne[of n]]] by (auto simp: is_digit_def)
  have m: "(case show_nat n of [] \<Rightarrow> False | x # _ \<Rightarrow> x = CHR ''-'') = False" for n
    using hd[of n] by (cases "show_nat n") simp_all
  show ?thesis
    using ok by (cases "i < 0") (simp_all add: parse_int64_def show_int_def Let_def d m int64_ok_def)
qed

lemma sint_ok: "int64_ok (sint (w :: int64))"
  using sint_range_size[of w] by (simp add: int64_ok_def word_size sint_greater_eq sint_less)

lemma assign_name:
  "field_name n \<Longrightarrow> field_name k \<Longrightarrow> assign n f acc ((escape_text k, raw, v) # ms) =
    (if k = n then (case f acc raw v of None \<Rightarrow> None | Some a \<Rightarrow> assign n f a ms) else assign n f acc ms)"
  by (simp add: key_matches_name)

text \<open>Members that hold a string, an integer and an object.\<close>

definition mstr :: "bytes \<Rightarrow> bytes \<Rightarrow> bytes \<times> bytes \<times> json" where
  "mstr k s = (escape_text k, json_string s, JStr (escape_text s))"

definition mint :: "bytes \<Rightarrow> int \<Rightarrow> bytes \<times> bytes \<times> json" where
  "mint k i = (escape_text k, show_int i, JNum (show_int i))"

definition mval :: "bytes \<Rightarrow> bytes \<Rightarrow> json \<Rightarrow> bytes \<times> bytes \<times> json" where
  "mval k raw v = (escape_text k, raw, v)"

lemma assign_mstr:
  "field_name n \<Longrightarrow> field_name k \<Longrightarrow> valid_utf8 s \<Longrightarrow>
    assign n set_string acc (mstr k s # ms) = assign n set_string (if k = n then s else acc) ms"
  by (simp add: mstr_def assign_name set_string_def unquote_escape_text del: assign.simps)

lemma assign_mint:
  "field_name n \<Longrightarrow> field_name k \<Longrightarrow> int64_ok i \<Longrightarrow> assign n set_int a (mint k i # ms) = assign n set_int (if k = n then i else a) ms"
  "field_name n \<Longrightarrow> field_name k \<Longrightarrow> assign n set_int64 w (mint k (sint w') # ms) = assign n set_int64 (if k = n then w' else w) ms"
  by (simp_all add: mint_def assign_name set_int_def set_int64_def parse_show_int sint_ok del: assign.simps)

lemma assign_mval:
  "field_name n \<Longrightarrow> field_name k \<Longrightarrow> assign n f a (mval k raw v # ms) =
    (if k = n then (case f a raw v of None \<Rightarrow> None | Some b \<Rightarrow> assign n f b ms) else assign n f a ms)"
  by (simp add: mval_def assign_name del: assign.simps)

lemma assign_skip:
  "field_name n \<Longrightarrow> field_name k \<Longrightarrow> k \<noteq> n \<Longrightarrow> assign n f a (mstr k s # ms) = assign n f a ms"
  "field_name n \<Longrightarrow> field_name k \<Longrightarrow> k \<noteq> n \<Longrightarrow> assign n f a (mint k i # ms) = assign n f a ms"
  by (simp_all add: mstr_def mint_def assign_name del: assign.simps)

lemmas assign_members = assign_mstr assign_mint assign_mval assign_skip

lemma fields_read_members [simp]:
  "fields_read d ((k, json_string s) # fs) (mstr k s # ms) = fields_read d fs ms"
  "fields_read d ((k, show_int i) # fs) (mint k i # ms) = fields_read d fs ms"
  "fields_read d ((k, json_int64 w) # fs) (mint k (sint w) # ms) = fields_read d fs ms"
  "fields_read d ((k, tx) # fs) (mval k raw v # ms) \<longleftrightarrow> padded raw tx \<and> reads d raw v \<and> fields_read d fs ms"
  by (simp_all add: mstr_def mint_def mval_def reads_string reads_int json_int64_def)

section \<open>Structs\<close>

definition Workspace_members :: "Workspace \<Rightarrow> members" where
  "Workspace_members w = [mstr ''root'' (ws_Root w), mstr ''git_root'' (ws_GitRoot w), mstr ''project_id'' (ws_ProjectID w)]"

definition ModelRef_members :: "ModelRef \<Rightarrow> members" where
  "ModelRef_members r = [mstr ''provider'' (mr_Provider r), mstr ''model'' (mr_Model r)]"

definition Usage_members :: "Usage \<Rightarrow> members" where
  "Usage_members u = [mint ''input'' (sint (u_Input u)), mint ''output'' (sint (u_Output u)),
     mint ''cache_read'' (sint (u_CacheRead u)), mint ''cache_write'' (sint (u_CacheWrite u))]"

definition Matcher_members :: "Matcher \<Rightarrow> members" where
  "Matcher_members m = [mstr ''tool'' (ma_Tool m), mstr ''prefix'' (ma_Prefix m)]"

definition Execution_members :: "Execution \<Rightarrow> members" where
  "Execution_members e = mstr ''kind'' (ex_Kind e) #
     (if ex_Provider e = [] then [] else [mstr ''provider'' (ex_Provider e)]) @
     (if ex_Runtime e = [] then [] else [mstr ''runtime'' (ex_Runtime e)])"

lemma reads_structs:
  assumes "d < max_nesting"
  shows "reads d (json_Workspace w) (JObj (Workspace_members w))" "reads d (json_ModelRef r) (JObj (ModelRef_members r))"
    "reads d (json_Usage u) (JObj (Usage_members u))" "reads d (json_Matcher m) (JObj (Matcher_members m))"
    "reads d (json_Execution e) (JObj (Execution_members e))"
  unfolding json_Workspace_def json_ModelRef_def json_Usage_def json_Matcher_def json_Execution_def json_object_def
    Workspace_members_def ModelRef_members_def Usage_members_def Matcher_members_def Execution_members_def
  by (rule reads_object[OF _ assms]; simp add: omitempty_def)+

lemma decode_structs:
  "list_all valid_utf8 [ws_Root w, ws_GitRoot w, ws_ProjectID w] \<Longrightarrow> decode_Workspace w0 (Workspace_members w) = Some w"
  "valid_utf8 (mr_Provider r) \<Longrightarrow> valid_utf8 (mr_Model r) \<Longrightarrow> decode_ModelRef r0 (ModelRef_members r) = Some r"
  "decode_Usage u0 (Usage_members u) = Some u"
  "valid_utf8 (ma_Tool m) \<Longrightarrow> valid_utf8 (ma_Prefix m) \<Longrightarrow> decode_Matcher m0 (Matcher_members m) = Some m"
  "list_all valid_utf8 [ex_Kind e, ex_Provider e, ex_Runtime e] \<Longrightarrow> decode_Execution zero_Execution (Execution_members e) = Some e"
  by (simp_all add: decode_Workspace_def Workspace_members_def decode_ModelRef_def ModelRef_members_def decode_Usage_def Usage_members_def
      decode_Matcher_def Matcher_members_def decode_Execution_def Execution_members_def zero_Execution_def assign_members)

section \<open>Blocks\<close>

lemma fits_mono: "fits d v \<Longrightarrow> d' \<le> d \<Longrightarrow> fits d' v"
  by (induction d v arbitrary: d' rule: fits.induct) auto

lemma raw_reads:
  assumes "raw_ok d raw" and "raw \<noteq> []" and "appendRawJSON raw = Inr t"
  shows "\<exists>v. padded (stored_input raw) t \<and> reads d (stored_input raw) v"
proof -
  obtain v where v: "json_parse raw = Some v" "fits d v" using assms(1,2) by (auto simp: raw_ok_def split: option.splits)
  show ?thesis
  proof (cases "c_nl \<notin> set raw \<and> c_cr \<notin> set raw")
    case True
    with reads_raw[OF v] assms(3) show ?thesis by (auto simp: stored_input_def appendRawJSON_def)
  next
    case False
    with reads_compacted[OF v] assms(3) show ?thesis by (auto simp: stored_input_def appendRawJSON_def split: if_splits)
  qed
qed

lemma stored_input_valid:
  assumes "raw_ok d raw" and "raw \<noteq> []"
  shows "json_valid (stored_input raw) \<and> stored_input raw \<noteq> []"
proof -
  have "raw_ok 0 raw" using assms by (auto simp: raw_ok_def split: option.splits intro: fits_mono)
  moreover obtain t where "appendRawJSON raw = Inr t"
    using assms appendRawJSON_valid[of raw] by (auto simp: raw_ok_def json_valid_def split: option.splits)
  ultimately obtain v where "reads 0 (stored_input raw) v" using raw_reads assms(2) by blast
  with json_parse_reads show ?thesis by (auto simp: json_valid_def reads_def)
qed

definition Block_members :: "Block \<Rightarrow> json \<Rightarrow> members" where
  "Block_members b v =
     mstr ''type'' (bl_Type b) #
       (if bl_Type b = BlockText then [mstr ''text'' (bl_Text b)]
        else if bl_Type b = BlockImage then [mstr ''media_type'' (bl_MediaType b), mstr ''sha256'' (bl_SHA256 b)]
        else if bl_Type b = BlockThinking then [mstr ''text'' (bl_Text b), mstr ''signature'' (bl_Signature b)]
        else [mstr ''id'' (bl_ID b), mstr ''name'' (bl_Name b), mval ''input'' (bl_Input (stored_block b)) v])"

lemma reads_empty_object: "d < max_nesting \<Longrightarrow> reads d ''{}'' (JObj [])"
  using reads_object[of d "[]" "[]"] by (simp add: json_fields_def)

lemma nesting [simp]: "n < max_nesting \<longleftrightarrow> n < 10000"
  by (simp add: max_nesting_def)

lemma block_reads:
  assumes "block_ok b" and "block_text b = Inr t"
  shows "\<exists>v. reads 2 t (JObj (Block_members b v))"
proof (cases "bl_Type b = BlockToolUse")
  case False
  have d: "(2::nat) < max_nesting" by simp
  from False assms(2) show ?thesis
    unfolding Block_members_def
    by (intro exI[of _ JNull])
      (auto simp: block_text_def enum_defs Let_def split: if_splits intro!: reads_object[unfolded append_Cons append_Nil, OF _ d])
next
  case True
  let ?pre = "[(''type'', json_string ''tool_use''), (''id'', json_string (bl_ID b)), (''name'', json_string (bl_Name b))]"
  obtain raw tx v where t: "t = ''{'' @ json_fields (?pre @ [(''input'', tx)]) @ ''}''" and raw: "bl_Input (stored_block b) = raw"
    and r: "padded raw tx" "reads 3 raw v"
  proof (cases "bl_Input b = []")
    case True
    with \<open>bl_Type b = BlockToolUse\<close> assms(2) that[of "''{}''" "''{}''" "JObj []"] reads_empty_object[of 3] show ?thesis
      by (simp add: block_text_def stored_block_def enum_defs)
  next
    case False
    with \<open>bl_Type b = BlockToolUse\<close> assms(2) obtain tx where
      tx: "appendRawJSON (bl_Input b) = Inr tx" "t = ''{'' @ json_fields (?pre @ [(''input'', tx)]) @ ''}''"
      by (auto simp: block_text_def enum_defs Let_def split: if_splits sum.splits)
    from raw_reads[OF _ False tx(1), of 3] assms(1) obtain v where "padded (stored_input (bl_Input b)) tx" "reads 3 (stored_input (bl_Input b)) v"
      by (auto simp: block_ok_def)
    with tx(2) False \<open>bl_Type b = BlockToolUse\<close> that[of tx "stored_input (bl_Input b)" v] show ?thesis
      by (simp add: stored_block_def enum_defs)
  qed
  have "reads 2 t (JObj (Block_members b v))"
    unfolding t by (rule reads_object) (use True raw r in \<open>simp_all add: Block_members_def enum_defs\<close>)
  then show ?thesis by blast
qed

lemma block_decodes:
  assumes "block_ok b" and "Block_Validate b = None"
  shows "Block_UnmarshalJSON (JObj (Block_members b v)) = Some (stored_block b)"
proof -
  have u: "valid_utf8 (bl_Text b)" "valid_utf8 (bl_MediaType b)" "valid_utf8 (bl_SHA256 b)" "valid_utf8 (bl_Signature b)"
    "valid_utf8 (bl_ID b)" "valid_utf8 (bl_Name b)" using assms(1) by (simp_all add: block_ok_def)
  have ty: "bl_Type b \<in> {BlockText, BlockImage, BlockThinking, BlockToolUse}"
    using assms(2) by (auto simp: Block_Validate_def split: if_splits)
  then have "valid_utf8 (bl_Type b)" "BlockType_Valid (bl_Type b)"
    by (auto simp: enum_defs BlockType_Valid_def intro!: ascii_utf8)
  with u ty show ?thesis
    by (auto simp: Block_UnmarshalJSON_def Block_members_def stored_block_def zero_Block_def assign_members set_raw_def enum_defs)
qed

lemma blocks_reads:
  assumes "list_all block_ok bs" and "block_texts bs = Inr ts" and "\<forall>b\<in>set bs. Block_Validate b = None"
  shows "\<exists>vs. list_all2 (reads 2) ts vs \<and> decode_all Block_UnmarshalJSON vs = Some (map stored_block bs)"
  using assms
proof (induction bs arbitrary: ts)
  case Nil
  then show ?case by simp
next
  case (Cons b bs)
  from Cons.prems(2) obtain t ts' where t: "block_text b = Inr t" "block_texts bs = Inr ts'" "ts = t # ts'"
    by (auto split: sum.splits)
  obtain v where "reads 2 t (JObj (Block_members b v))" using block_reads[OF _ t(1)] Cons.prems(1) by auto
  moreover obtain vs where "list_all2 (reads 2) ts' vs" "decode_all Block_UnmarshalJSON vs = Some (map stored_block bs)"
    using Cons.IH[OF _ t(2)] Cons.prems by auto
  ultimately show ?case
    using t(3) block_decodes[of b v] Cons.prems by (intro exI[of _ "JObj (Block_members b v) # vs"]) simp
qed

lemma content_reads:
  assumes "list_all block_ok bs" and "appendBlocks bs = Inr t" and "\<forall>b\<in>set bs. Block_Validate b = None"
  shows "\<exists>v. reads 1 t v \<and> (\<forall>acc raw. set_blocks acc raw v = Some (map stored_block bs))"
proof -
  from assms(2) obtain ts where ts: "block_texts bs = Inr ts" "t = ''['' @ join '','' ts @ '']''"
    by (auto simp: appendBlocks_def split: sum.splits)
  obtain vs where "list_all2 (reads 2) ts vs" "decode_all Block_UnmarshalJSON vs = Some (map stored_block bs)"
    using blocks_reads[OF assms(1) ts(1) assms(3)] by blast
  with reads_array[of 1 ts vs] ts(2) show ?thesis
    by (intro exI[of _ "JArr vs"]) (simp add: set_blocks_def numeral_2_eq_2)
qed

section \<open>Payloads\<close>

definition Tools_member :: "bytes list option \<Rightarrow> bytes \<times> bytes \<times> json" where
  "Tools_member ts =
     mval ''tools'' (json_strings ts) (case ts of None \<Rightarrow> JNull | Some xs \<Rightarrow> JArr (map (\<lambda>x. JStr (escape_text x)) xs))"

lemma reads_strings:
  "d < max_nesting \<Longrightarrow> reads d (json_strings ts) (case ts of None \<Rightarrow> JNull | Some xs \<Rightarrow> JArr (map (\<lambda>x. JStr (escape_text x)) xs))"
  by (auto simp: json_strings_def reads_null list_all2_map1 list_all2_map2 list_all2_same reads_string simp del: append_Cons
      intro!: reads_array split: option.split)

lemma decode_strings: "list_all valid_utf8 xs \<Longrightarrow> decode_all (set_string [] []) (map (\<lambda>x. JStr (escape_text x)) xs) = Some xs"
  by (induction xs) (simp_all add: set_string_def unquote_escape_text)

text \<open>The members of a line that the encoder writes from the scalar view of the payload.\<close>

fun scalar_members :: "ulid_lib \<Rightarrow> payload \<Rightarrow> members" where
  "scalar_members U (SessionOpened v) =
     [mint ''schema_version'' (so_SchemaVersion v), mstr ''rudy_version'' (so_RudyVersion v),
      mval ''workspace'' (json_Workspace (so_Workspace v)) (JObj (Workspace_members (so_Workspace v))),
      mval ''model'' (json_ModelRef (so_Model v)) (JObj (ModelRef_members (so_Model v))),
      mstr ''thinking'' (so_Thinking v), mstr ''mode'' (so_Mode v), mstr ''agent'' (so_Agent v),
      mstr ''parent_session_id'' (so_ParentSessionID v), mstr ''parent_tool_use_id'' (so_ParentToolUseID v),
      Tools_member (so_Tools v)] @
     (if so_SchemaVersion v \<ge> 3
      then [mval ''execution'' (json_Execution (so_Execution v)) (JObj (Execution_members (so_Execution v)))] else [])"
| "scalar_members U (ForkPoint v) =
     [mstr ''parent_session_id'' (ulid_String U (fp_ParentSessionID v)), mstr ''parent_entry_id'' (ulid_String U (fp_ParentEntryID v))]"
| "scalar_members U (UserMessage v) = [mstr ''source'' (um_Source v)]"
| "scalar_members U (AssistantMessage v) =
     [mval ''model'' (json_ModelRef (am_Model v)) (JObj (ModelRef_members (am_Model v))), mstr ''thinking'' (am_Thinking v),
      mval ''usage'' (json_Usage (am_Usage v)) (JObj (Usage_members (am_Usage v))), mstr ''stop_reason'' (am_StopReason v),
      mstr ''stop_reason_raw'' (am_StopReasonRaw v)]"
| "scalar_members U (PermissionDecision v) =
     [mstr ''tool_use_id'' (pd_ToolUseID v), mstr ''tool'' (pd_Tool v), mstr ''mode'' (pd_Mode v),
      mval ''matcher'' (json_Matcher (pd_Matcher v)) (JObj (Matcher_members (pd_Matcher v))), mstr ''decision'' (pd_Decision v),
      mstr ''decided_by'' (pd_DecidedBy v), mstr ''scope'' (pd_Scope v), mstr ''reason'' (pd_Reason v)]"
| "scalar_members U (RuntimePermissionDecision v) =
     [mstr ''runtime'' (rd_Runtime v), mstr ''thread_id'' (rd_ThreadID v), mstr ''turn_id'' (rd_TurnID v), mstr ''item_id'' (rd_ItemID v),
      mstr ''request_id'' (rd_RequestID v), mstr ''approval_kind'' (rd_ApprovalKind v), mstr ''decision'' (rd_Decision v),
      mstr ''decided_by'' (rd_DecidedBy v), mstr ''scope'' (rd_Scope v), mstr ''reason'' (rd_Reason v)]"
| "scalar_members U (ToolResult v) =
     [mstr ''tool_use_id'' (tr_ToolUseID v), mstr ''outcome'' (tr_Outcome v), mint ''duration_ms'' (tr_DurationMS v)]"
| "scalar_members U (ModelChange m) = [mval ''model'' (json_ModelRef m) (JObj (ModelRef_members m))]"
| "scalar_members U (ModeChange m) = [mstr ''mode'' m]"
| "scalar_members U (ThinkingChange l) = [mstr ''thinking'' l]"
| "scalar_members U (TitleChange t) = [mstr ''title'' t]"
| "scalar_members U (Compaction v) =
     [mstr ''summary'' (co_Summary v), mstr ''first_entry_id'' (ulid_String U (co_FirstEntryID v)),
      mstr ''last_entry_id'' (ulid_String U (co_LastEntryID v)),
      mval ''model'' (json_ModelRef (co_Model v)) (JObj (ModelRef_members (co_Model v))),
      mval ''usage'' (json_Usage (co_Usage v)) (JObj (Usage_members (co_Usage v)))]"
| "scalar_members U (TurnInterrupted v) = [mstr ''turn_id'' (ulid_String U (ti_TurnID v)), mstr ''how'' (ti_How v)]"
| "scalar_members U (TurnFailed v) =
     [mstr ''turn_id'' (ulid_String U (tf_TurnID v)), mstr ''class'' (tf_Class v), mstr ''message'' (tf_Message v),
      mint ''retries'' (tf_Retries v)]"
| "scalar_members U (Note v) = [mstr ''plugin'' (no_Plugin v), mstr ''text'' (no_Text v), mstr ''role'' (no_Role v)]"

lemma scalars_read:
  assumes "splitPayload U p = (bs, inp, rest, has)"
  shows "fields_read 1 rest (scalar_members U p)"
  using assms by (cases p) (auto simp: SessionOpened_fields_def Tools_member_def reads_structs reads_strings)

lemma assign_ulid:
  "field_name n \<Longrightarrow> field_name k \<Longrightarrow> ulid_reads U u \<Longrightarrow>
    assign n (set_ulid U) acc (mstr k (ulid_String U u) # ms) = assign n (set_ulid U) (if k = n then u else acc) ms"
proof -
  assume a: "field_name n" "field_name k" "ulid_reads U u"
  have "valid_utf8 (ulid_String U u)" using a(3) by (auto simp: ulid_reads_def list_all_iff intro!: ascii_utf8)
  with a show ?thesis by (simp add: mstr_def assign_name set_ulid_def unquote_escape_text ulid_reads_def del: assign.simps)
qed

lemma assign_tools:
  "list_all valid_utf8 (case ts of Some xs \<Rightarrow> xs | None \<Rightarrow> []) \<Longrightarrow>
    assign ''tools'' set_strings acc (Tools_member ts # ms) = assign ''tools'' set_strings ts ms"
  "field_name n \<Longrightarrow> n \<noteq> ''tools'' \<Longrightarrow> assign n f a (Tools_member ts # ms) = assign n f a ms"
  by (auto simp: Tools_member_def assign_mval set_strings_def decode_strings split: option.split)

lemma decode_payload_kind:
  "decode_payload U (kind_of p) ms = Some (case p of
      SessionOpened _ \<Rightarrow> map_option SessionOpened (decode_SessionOpened ms)
    | ForkPoint _ \<Rightarrow> map_option ForkPoint (decode_ForkPoint U ms)
    | UserMessage _ \<Rightarrow> map_option UserMessage (decode_UserMessage ms)
    | AssistantMessage _ \<Rightarrow> map_option AssistantMessage (decode_AssistantMessage ms)
    | PermissionDecision _ \<Rightarrow> map_option PermissionDecision (decode_PermissionDecision ms)
    | RuntimePermissionDecision _ \<Rightarrow> map_option RuntimePermissionDecision (decode_RuntimePermissionDecision ms)
    | ToolResult _ \<Rightarrow> map_option ToolResult (decode_ToolResult ms)
    | ModelChange _ \<Rightarrow> map_option ModelChange (assign ''model'' (set_struct decode_ModelRef) zero_ModelRef ms)
    | ModeChange _ \<Rightarrow> map_option ModeChange (assign ''mode'' set_string [] ms)
    | ThinkingChange _ \<Rightarrow> map_option ThinkingChange (assign ''thinking'' set_string [] ms)
    | TitleChange _ \<Rightarrow> map_option TitleChange (assign ''title'' set_string [] ms)
    | Compaction _ \<Rightarrow> map_option Compaction (decode_Compaction U ms)
    | TurnInterrupted _ \<Rightarrow> map_option TurnInterrupted (decode_TurnInterrupted U ms)
    | TurnFailed _ \<Rightarrow> map_option TurnFailed (decode_TurnFailed U ms)
    | Note _ \<Rightarrow> map_option Note (decode_Note ms))"
  by (cases p) (simp_all add: decode_payload_def enum_defs)

text \<open>The first three members of a line, and the ones written by hand after the scalars.\<close>

definition head_members :: "ulid_lib \<Rightarrow> Entry \<Rightarrow> members" where
  "head_members U e =
     [mval ''id'' (c_quote # ulid_String U (en_ID e) @ [c_quote]) (JStr (ulid_String U (en_ID e))),
      mval ''at'' (c_quote # format_time (en_At e) @ [c_quote]) (JStr (format_time (en_At e))),
      mval ''kind'' (c_quote # en_Kind e @ [c_quote]) (JStr (en_Kind e))]"

fun tail_members :: "payload \<Rightarrow> bytes \<Rightarrow> json \<Rightarrow> members" where
  "tail_members (UserMessage v) t x = [mval ''content'' t x]"
| "tail_members (AssistantMessage v) t x = [mval ''content'' t x]"
| "tail_members (ToolResult v) t x = [mval ''content'' t x]"
| "tail_members (PermissionDecision v) t x = (if pd_Input v = [] then [] else [mval ''input'' (stored_input (pd_Input v)) x])"
| "tail_members p t x = []"

fun content_of :: "payload \<Rightarrow> Block list" where
  "content_of (UserMessage v) = um_Content v"
| "content_of (AssistantMessage v) = am_Content v"
| "content_of (ToolResult v) = tr_Content v"
| "content_of p = []"

lemmas decode_defs = decode_SessionOpened_def decode_ForkPoint_def decode_UserMessage_def decode_AssistantMessage_def
  decode_PermissionDecision_def decode_RuntimePermissionDecision_def decode_ToolResult_def decode_Compaction_def
  decode_TurnInterrupted_def decode_TurnFailed_def decode_Note_def

lemma payload_decodes:
  assumes "payload_ok U p" and "\<And>acc raw. set_blocks acc raw x = Some (map stored_block (content_of p)) \<or>
      content_of p = [] \<and> tail_members p t x = [] \<or> (\<exists>v. p = PermissionDecision v)"
  shows "\<exists>p'. decode_payload U (kind_of p) (head_members U e @ scalar_members U p @ tail_members p t x) = Some (Some p') \<and>
    infer_execution p' = stored_payload p"
proof (cases p)
  case (SessionOpened v)
  with assms(1) show ?thesis
    unfolding decode_payload_kind by (simp add: decode_defs head_members_def assign_members assign_tools set_struct_def decode_structs(1-4)
      decode_structs(5)[unfolded zero_Execution_def] infer_execution_def zero_Execution_def)
next
  case (PermissionDecision v)
  with assms(1) show ?thesis
    unfolding decode_payload_kind by (simp add: decode_defs head_members_def assign_members set_struct_def decode_structs infer_execution_def set_raw_def)
qed (unfold decode_payload_kind, use assms in \<open>simp_all add: decode_defs head_members_def assign_members assign_ulid set_struct_def decode_structs infer_execution_def\<close>)

end
