(* ===== verification/Entry_Roundtrip.thy ===== *)
theory Entry_Roundtrip
  imports Entry_Stored Samples
begin

text \<open>
  The round trip of a log line: what \<open>Entry.MarshalJSON\<close> wrote, \<open>Entry.UnmarshalJSON\<close> reads back as
  the stored form of the entry.
\<close>

section \<open>Lines\<close>

definition simple_text :: "bytes \<Rightarrow> bool" where
  "simple_text s \<longleftrightarrow> list_all (\<lambda>c. plain c \<and> byte c < 128) s"

lemma unquote_simple: "simple_text s \<Longrightarrow> unquote s = s"
  by (induction s) (auto simp: simple_text_def plain_def)

lemma escape_field_name: "field_name k \<Longrightarrow> escape_text k = k"
  by (induction k) (auto simp: field_name_def escape_byte_def Let_def)

lemma pad_simple: "simple_text (pad w n)"
  using show_nat_digits[of n] by (auto simp: simple_text_def pad_def Let_def list_all_iff plain_def is_digit_def)

lemma format_time_simple: "simple_text (format_time t)"
proof -
  have "simple_text (trim_right c (pad w n))" for c w n
    using pad_simple[of w n] trim_right_set[of c "pad w n"] by (auto simp: simple_text_def list_all_iff)
  moreover have app: "simple_text (a @ b) \<longleftrightarrow> simple_text a \<and> simple_text b" for a b by (simp add: simple_text_def)
  moreover have "simple_text [c] \<longleftrightarrow> plain c \<and> byte c < 128" "simple_text (c # a) \<longleftrightarrow> plain c \<and> byte c < 128 \<and> simple_text a" for c a
    by (simp_all add: simple_text_def)
  moreover have "simple_text []" by (simp add: simple_text_def)
  ultimately show ?thesis
    by (simp add: format_time_def format_frac_def format_zone_def Let_def pad_simple plain_def)
qed

lemma kind_simple: "simple_text (kind_of p)"
  by (cases p) (simp_all add: enum_defs simple_text_def plain_def)

definition head_fields :: "ulid_lib \<Rightarrow> Entry \<Rightarrow> (bytes \<times> bytes) list" where
  "head_fields U e =
     [(''id'', c_quote # ulid_String U (en_ID e) @ [c_quote]), (''at'', c_quote # format_time (en_At e) @ [c_quote]),
      (''kind'', c_quote # en_Kind e @ [c_quote])]"

lemma head_reads:
  assumes "ulid_reads U (en_ID e)" and "simple_text (en_Kind e)"
  shows "fields_read d (head_fields U e) (head_members U e)"
proof -
  have "list_all plain (ulid_String U (en_ID e))" "list_all plain (format_time (en_At e))" "list_all plain (en_Kind e)"
    using assms format_time_simple[of "en_At e"] by (auto simp: ulid_reads_def simple_text_def list_all_iff)
  from this[THEN reads_quoted] show ?thesis by (simp add: head_fields_def head_members_def)
qed

lemma json_fields_append:
  "fs \<noteq> [] \<Longrightarrow> gs \<noteq> [] \<Longrightarrow> json_fields (fs @ gs) = json_fields fs @ '','' @ json_fields gs"
  by (simp add: json_fields_def join_append)

text \<open>A line is the object of its head, the scalar fields and the two fields written by hand.\<close>

lemma marshal_fields:
  assumes "Entry_MarshalJSON U e = Inr line" and "splitPayload U (en_Payload e) = (bs, inp, rest, has)"
  obtains fi fc where
    "line = ''{'' @ json_fields (head_fields U e @ rest @ fi @ fc) @ ''}''"
    "inp = [] \<and> fi = [] \<or> inp \<noteq> [] \<and> (\<exists>t. appendRawJSON inp = Inr t \<and> fi = [(''input'', t)])"
    "\<not> has \<and> fc = [] \<or> has \<and> (\<exists>t. appendBlocks bs = Inr t \<and> fc = [(''content'', t)])"
proof -
  have ne: "rest \<noteq> []" using assms(2) by (cases "en_Payload e") (auto simp: SessionOpened_fields_def)
  then have jne: "json_fields rest \<noteq> []" by (cases rest) (auto simp: json_fields_def join_Cons json_string_def)
  have q: "json_string k = c_quote # k @ [c_quote]" if "field_name k" for k using that by (simp add: json_string_def escape_field_name)
  have h: "''{'' @ (c_quote # ''id'' @ [c_quote]) @ '':'' @ (c_quote # ulid_String U (en_ID e) @ [c_quote]) @ '','' @
      (c_quote # ''at'' @ [c_quote]) @ '':'' @ (c_quote # format_time (en_At e) @ [c_quote]) @ '','' @
      (c_quote # ''kind'' @ [c_quote]) @ '':'' @ (c_quote # en_Kind e @ [c_quote]) = ''{'' @ json_fields (head_fields U e)"
    by (simp add: head_fields_def json_fields_def join_Cons q)
  have one: "json_fields [(k, t)] = c_quote # k @ c_quote # CHR '':'' # t" if "field_name k" for k t
    using that by (simp add: json_fields_def q)
  have two: "json_fields [(k, t), (k', t')] = (c_quote # k @ c_quote # CHR '':'' # t) @ '','' @ (c_quote # k' @ c_quote # CHR '':'' # t')"
    if "field_name k" "field_name k'" for k t k' t' using that by (simp add: json_fields_def q)
  have hn: "head_fields U e \<noteq> []" by (simp add: head_fields_def)
  obtain fi where fi: "inp = [] \<and> fi = [] \<or> inp \<noteq> [] \<and> (\<exists>t. appendRawJSON inp = Inr t \<and> fi = [(''input'', t)])"
    using assms by (cases "inp = []") (auto simp: Entry_MarshalJSON_def Let_def split: if_splits option.splits sum.splits)
  obtain fc where fc: "\<not> has \<and> fc = [] \<or> has \<and> (\<exists>t. appendBlocks bs = Inr t \<and> fc = [(''content'', t)])"
    using assms by (cases has) (auto simp: Entry_MarshalJSON_def Let_def split: if_splits option.splits sum.splits)
  have "line = ''{'' @ json_fields (head_fields U e @ rest @ fi @ fc) @ ''}''"
    using assms fi fc jne h[symmetric] ne hn
    by (auto simp: Entry_MarshalJSON_def Let_def json_fields_append one two split: if_splits option.splits sum.splits)
  with fi fc that show ?thesis by blast
qed

lemma validate_each: "validate_blocks k allowed bs = None \<longleftrightarrow> (\<forall>b\<in>set bs. Block_Validate b = None \<and> bl_Type b \<in> set allowed)"
  by (induction bs) (auto split: option.splits)

lemma content_valid: "Validate P p = None \<Longrightarrow> b \<in> set (content_of p) \<Longrightarrow> Block_Validate b = None"
  by (cases p) (auto simp: validate_each split: if_splits)

lemma stored_block_valid:
  assumes "block_ok b" and "Block_Validate b = None"
  shows "Block_Validate (stored_block b) = None \<and> bl_Type (stored_block b) = bl_Type b"
proof -
  have "bl_Type b \<in> {BlockText, BlockImage, BlockThinking, BlockToolUse}"
    using assms(2) by (auto simp: Block_Validate_def split: if_splits)
  moreover have "raw_ok 3 (bl_Input b)" using assms(1) by (simp add: block_ok_def)
  ultimately show ?thesis
    using assms(2) stored_input_valid[of 3 "bl_Input b"]
    by (auto simp: Block_Validate_def stored_block_def zero_Block_def enum_defs split: if_splits)
qed

lemma stored_blocks_valid:
  "list_all block_ok bs \<Longrightarrow> validate_blocks k allowed bs = None \<Longrightarrow> validate_blocks k allowed (map stored_block bs) = None"
  by (auto simp: validate_each list_all_iff stored_block_valid)

lemma stored_valid:
  assumes "payload_ok U p" and "Validate P p = None"
  shows "Validate P (stored_payload p) = None"
proof (cases p)
  case (SessionOpened v)
  show ?thesis
  proof (cases "so_SchemaVersion v < 3")
    case True
    with SessionOpened assms(1) have "Execution_Valid \<lparr>ex_Kind = ExecutionNative, ex_Provider = mr_Provider (so_Model v), ex_Runtime = []\<rparr>"
      by (simp add: Execution_Valid_def)
    with SessionOpened True assms(2) show ?thesis by (simp split: if_split_asm)
  qed (use SessionOpened assms(2) in simp)
next
  case (PermissionDecision v)
  with assms stored_input_valid[of 1 "pd_Input v"] show ?thesis by (auto split: if_splits)
qed (use assms in \<open>auto simp: stored_blocks_valid split: if_splits\<close>)

lemma marshal_reads:
  assumes "entry_storable U e" and "Entry_MarshalJSON U e = Inr line"
  shows "\<exists>t x. reads 0 line (JObj (head_members U e @ scalar_members U (en_Payload e) @ tail_members (en_Payload e) t x)) \<and>
    (set_blocks [] t x = Some (map stored_block (content_of (en_Payload e))) \<or> content_of (en_Payload e) = [] \<and> tail_members (en_Payload e) t x = [] \<or>
     (\<exists>v. en_Payload e = PermissionDecision v))"
proof -
  let ?p = "en_Payload e"
  obtain bs inp rest has where sp: "splitPayload U ?p = (bs, inp, rest, has)" by (metis prod_cases4)
  obtain fi fc where line: "line = ''{'' @ json_fields (head_fields U e @ rest @ fi @ fc) @ ''}''"
    and fi: "inp = [] \<and> fi = [] \<or> inp \<noteq> [] \<and> (\<exists>t. appendRawJSON inp = Inr t \<and> fi = [(''input'', t)])"
    and fc: "\<not> has \<and> fc = [] \<or> has \<and> (\<exists>t. appendBlocks bs = Inr t \<and> fc = [(''content'', t)])"
    by (rule marshal_fields[OF assms(2) sp])
  have ok: "payload_ok U ?p" "ulid_reads U (en_ID e)" using assms(1) by (simp_all add: entry_storable_def)
  have kv: "en_Kind e = kind_of ?p" "Validate (ulid_ParseStrict U) ?p = None"
    using assms(2) by (auto simp: Entry_MarshalJSON_def split: if_splits option.splits)
  have head: "fields_read 1 (head_fields U e) (head_members U e)" using head_reads[OF ok(2)] kv(1) kind_simple by simp
  have "\<exists>t x. fields_read 1 (fi @ fc) (tail_members ?p t x) \<and>
    (set_blocks [] t x = Some (map stored_block (content_of ?p)) \<or> content_of ?p = [] \<and> tail_members ?p t x = [] \<or> (\<exists>v. ?p = PermissionDecision v))"
  proof (cases has)
    case True
    then have c: "inp = [] \<and> bs = content_of ?p \<and> list_all block_ok bs \<and> (\<forall>t x. tail_members ?p t x = [mval ''content'' t x])"
      using sp ok(1) by (cases ?p) auto
    from True fc obtain t where t: "appendBlocks bs = Inr t" "fc = [(''content'', t)]" by blast
    have "\<forall>b\<in>set bs. Block_Validate b = None" using c content_valid[OF kv(2)] by blast
    from content_reads[OF _ t(1) this] c obtain x where "reads 1 t x" "set_blocks [] t x = Some (map stored_block bs)" by blast
    with c fi t(2) show ?thesis by (intro exI[of _ t] exI[of _ x]) simp
  next
    case False
    show ?thesis
    proof (cases "inp = []")
      case True
      with False sp have "content_of ?p = [] \<and> tail_members ?p [] JNull = []" by (cases ?p) auto
      with True False fi fc show ?thesis by (intro exI[of _ "[]"] exI[of _ JNull]) simp
    next
      case ne: False
      with sp obtain v where v: "?p = PermissionDecision v" "inp = pd_Input v" by (cases ?p) auto
      from fi ne obtain t where t: "appendRawJSON inp = Inr t" "fi = [(''input'', t)]" by blast
      from raw_reads[OF _ ne t(1), of 1] ok(1) v obtain x where "padded (stored_input inp) t" "reads 1 (stored_input inp) x" by auto
      with v ne t(2) False fc show ?thesis by (intro exI[of _ "[]"] exI[of _ x]) simp
    qed
  qed
  then obtain t x where tail: "fields_read 1 (fi @ fc) (tail_members ?p t x)"
    and c: "set_blocks [] t x = Some (map stored_block (content_of ?p)) \<or> content_of ?p = [] \<and> tail_members ?p t x = [] \<or> (\<exists>v. ?p = PermissionDecision v)"
    by blast
  have "reads 0 line (JObj (head_members U e @ scalar_members U ?p @ tail_members ?p t x))"
    unfolding line by (rule reads_object) (use fields_read_append[OF head fields_read_append[OF scalars_read[OF sp] tail]] in simp_all)
  with c show ?thesis by blast
qed

lemma set_blocks_any: "set_blocks acc raw x = set_blocks acc' raw' x"
  by (simp add: set_blocks_def split: json.split)

lemma head_values:
  assumes "ulid_reads U (en_ID e)" and "simple_text (en_Kind e)"
    and "\<forall>n\<in>{''id'', ''at'', ''kind''}. \<forall>acc. assign n set_string acc ms = Some acc"
  shows "assign ''id'' set_string [] (head_members U e @ ms) = Some (ulid_String U (en_ID e))"
    and "assign ''at'' set_string [] (head_members U e @ ms) = Some (format_time (en_At e))"
    and "assign ''kind'' set_string [] (head_members U e @ ms) = Some (en_Kind e)"
proof -
  have "simple_text (ulid_String U (en_ID e))" using assms(1) by (simp add: ulid_reads_def simple_text_def)
  note unq = unquote_simple[OF this] unquote_simple[OF format_time_simple] unquote_simple[OF assms(2)]
  show "assign ''id'' set_string [] (head_members U e @ ms) = Some (ulid_String U (en_ID e))"
    and "assign ''at'' set_string [] (head_members U e @ ms) = Some (format_time (en_At e))"
    and "assign ''kind'' set_string [] (head_members U e @ ms) = Some (en_Kind e)"
    by (simp_all add: head_members_def assign_members set_string_def unq assms(3)[rule_format] del: assign.simps)
qed

lemma tail_no_head:
  "n \<in> {''id'', ''at'', ''kind''} \<Longrightarrow> assign n set_string acc (scalar_members U p @ tail_members p t x) = Some acc"
  by (cases p) (auto simp: assign_members assign_tools)

lemma entry_reads_back:
  assumes "entry_storable U e" and "Entry_MarshalJSON U e = Inr line"
  shows "Entry_UnmarshalJSON U line = Inr (stored e)"
proof -
  let ?p = "en_Payload e"
  from marshal_reads[OF assms] obtain t x
    where r: "reads 0 line (JObj (head_members U e @ scalar_members U ?p @ tail_members ?p t x))"
      and c: "set_blocks [] t x = Some (map stored_block (content_of ?p)) \<or> content_of ?p = [] \<and> tail_members ?p t x = [] \<or>
        (\<exists>v. ?p = PermissionDecision v)" by blast
  have ok: "payload_ok U ?p" "ulid_reads U (en_ID e)" "time_ok (en_At e)" using assms(1) by (simp_all add: entry_storable_def)
  have kv: "en_Kind e = kind_of ?p" "Validate (ulid_ParseStrict U) ?p = None"
    using assms(2) by (auto simp: Entry_MarshalJSON_def split: if_splits option.splits)
  from payload_decodes[OF ok(1)] c obtain p' where p':
    "decode_payload U (kind_of ?p) (head_members U e @ scalar_members U ?p @ tail_members ?p t x) = Some (Some p')"
    "infer_execution p' = stored_payload ?p" using set_blocks_any by metis
  have kind: "simple_text (en_Kind e)" by (simp add: kv(1) kind_simple)
  have "\<forall>n\<in>{''id'', ''at'', ''kind''}. \<forall>acc. assign n set_string acc (scalar_members U ?p @ tail_members ?p t x) = Some acc"
    using tail_no_head by blast
  note head = head_values[OF ok(2) kind this]
  have "ulid_ParseStrict U (ulid_String U (en_ID e)) = Some (en_ID e)" using ok(2) by (simp add: ulid_reads_def)
  then show ?thesis
    using json_parse_reads[OF r] p' stored_valid[OF ok(1) kv(2)] parse_format_time[OF ok(3)]
    by (simp add: Entry_UnmarshalJSON_def head kv(1)[symmetric] stored_def)
qed


section \<open>The samples\<close>

lemma ulid0_reads: "n < 10 ^ 26 \<Longrightarrow> ulid_reads ulid0 n"
proof -
  assume "n < 10 ^ 26"
  note p = pad_digits[OF this zero_less_numeral] and q = pad_simple[of 26 n]
  show ?thesis unfolding ulid_reads_def ulid0_def ulid_lib.simps using p(1,3) q[unfolded simple_text_def] by (simp only: if_True simp_thms)
qed

lemma time0_ok: "time_ok time0"
  by (simp add: time_ok_def time0_def days_in_def)

lemma entry0_storable: "Suc k < 10 ^ 26 \<Longrightarrow> payload_ok ulid0 p \<Longrightarrow> entry_storable ulid0 (new_entry (env0 k) p)"
  by (simp add: entry_storable_def new_entry_def env0_def ulid0_reads time0_ok)

text \<open>
  C5: The round trip of a log line. If \<open>MarshalJSON\<close> writes a storable entry, \<open>UnmarshalJSON\<close> reads it
  back with the fields a line does not carry taken away: every one of the fifteen kinds, every block
  type, every escape, number and time. An entry is storable (\<open>entry_storable\<close>) when its strings are
  valid UTF-8, its ids parse, its numbers and its time are in range, its raw inputs are not nested too
  deep for the line they go into and, for a session opened with a schema below 3, its provider is not
  empty; some of the other entries the code writes are refused or changed by the reading.
\<close>

theorem entry_roundtrip:
  assumes "entry_storable U e" and "Entry_MarshalJSON U e = Inr line"
  shows "Entry_UnmarshalJSON U line = Inr (stored e)"
  by (rule entry_reads_back[OF assms])

theorem entry_roundtrip_witness:
  "entry_storable ulid0 (new_entry (env0 1) (allow0 ''t1'')) \<and>
   Entry_UnmarshalJSON ulid0 (projr (Entry_MarshalJSON ulid0 (new_entry (env0 1) (allow0 ''t1'')))) =
     Inr (new_entry (env0 1) (allow0 ''t1''))"
proof -
  have "payload_ok ulid0 (allow0 ''t1'')" by code_simp
  then have s: "entry_storable ulid0 (new_entry (env0 1) (allow0 ''t1''))" by (intro entry0_storable) simp_all
  have "Validate (ulid_ParseStrict ulid0) (allow0 ''t1'') = None" by code_simp
  then obtain line where l: "Entry_MarshalJSON ulid0 (new_entry (env0 1) (allow0 ''t1'')) = Inr line"
    using marshal_total[of "new_entry (env0 1) (allow0 ''t1'')" ulid0] by (auto simp: new_entry_def)
  from entry_roundtrip[OF s l] s l show ?thesis by (simp add: stored_def new_entry_def allow0_def)
qed

end
