(* ===== verification/Read_Log.thy ===== *)
theory Read_Log
  imports Entry_Roundtrip
begin

text \<open>
  \<open>ReadLog\<close> of \<open>internal/session/log.go\<close>: the entries of a file, line by line. The newline is the
  commit marker of a line. The lemmas show what it answers for a file of whole lines with a partial
  one at its end, which is what \<open>Log\<close> leaves behind at any crash.
\<close>

section \<open>Reading a file\<close>

text \<open>A file as \<open>os.Open\<close> finds it; when its flag is off, reading past the given bytes is an I/O error.\<close>

datatype file_image = FileMissing | FileRefused | FileBytes bytes bool

datatype read_error = Truncated nat | ReadIO | BadLine nat "unmarshal_error option"

datatype read_end = ReadOn | ReadEOF | ReadFails

text \<open>\<open>bufio.Reader.ReadBytes\<close> up to a newline: the line with it, or what is left and why it ended.\<close>

definition ReadBytes :: "bool \<Rightarrow> bytes \<Rightarrow> bytes \<times> bytes \<times> read_end" where
  "ReadBytes ok s =
     (if c_nl \<in> set s then (takeWhile (\<lambda>c. c \<noteq> c_nl) s @ [c_nl], tl (dropWhile (\<lambda>c. c \<noteq> c_nl) s), ReadOn)
      else (s, [], if ok then ReadEOF else ReadFails))"

lemma ReadBytes_shorter: "(raw, rest, r) = ReadBytes ok s \<Longrightarrow> r \<noteq> ReadFails \<Longrightarrow> r \<noteq> ReadEOF \<Longrightarrow> length rest < length s"
  using length_dropWhile_le[of "\<lambda>c. c \<noteq> c_nl" s]
  by (cases "dropWhile (\<lambda>c. c \<noteq> c_nl) s") (auto simp: ReadBytes_def dropWhile_eq_Nil_conv split: if_splits)

function read_loop :: "ulid_lib \<Rightarrow> bool \<Rightarrow> nat \<Rightarrow> Entry list \<Rightarrow> bytes \<Rightarrow> Entry list \<times> read_error option" where
  "read_loop U ok line entries s =
     (case ReadBytes ok s of
        (raw0, rest, rerr) \<Rightarrow>
          if rerr = ReadFails then ([], Some ReadIO)
          else
            (let complete = (raw0 \<noteq> [] \<and> last raw0 = c_nl); raw = trim_right c_nl raw0 in
             if raw = [] then (if rerr = ReadEOF then (entries, None) else read_loop U ok (Suc line) entries rest)
             else
               (case Entry_UnmarshalJSON U raw of
                  Inl uerr \<Rightarrow>
                    if rerr = ReadEOF then (entries, Some (Truncated line)) else ([], Some (BadLine line (Some uerr)))
                | Inr e \<Rightarrow>
                    if \<not> complete then
                      (if rerr = ReadEOF then (entries, Some (Truncated line)) else ([], Some (BadLine line None)))
                    else if rerr = ReadEOF then (entries @ [e], None)
                    else read_loop U ok (Suc line) (entries @ [e]) rest)))"
  by pat_completeness auto

termination
proof (relation "measure (\<lambda>(U, ok, line, entries, s). length s)")
qed (auto dest: ReadBytes_shorter)

declare read_loop.simps [simp del]

definition ReadLog :: "ulid_lib \<Rightarrow> file_image \<Rightarrow> Entry list \<times> read_error option" where
  "ReadLog U f =
     (case f of
        FileMissing \<Rightarrow> ([], None)
      | FileRefused \<Rightarrow> ([], Some ReadIO)
      | FileBytes s ok \<Rightarrow> read_loop U ok 1 [] s)"

section \<open>Lines\<close>

lemma ReadBytes_line: "one_line l \<Longrightarrow> ReadBytes ok (l @ c_nl # rest) = (l @ [c_nl], rest, ReadOn)"
  by (auto simp: ReadBytes_def one_line_def takeWhile_append dropWhile_append)

lemma ReadBytes_last: "one_line l \<Longrightarrow> ReadBytes ok l = (l, [], if ok then ReadEOF else ReadFails)"
  by (simp add: ReadBytes_def one_line_def)

lemma trim_line: "one_line l \<Longrightarrow> trim_right c_nl (l @ [c_nl]) = l" "one_line l \<Longrightarrow> trim_right c_nl l = l"
  by (cases l rule: rev_cases; simp add: trim_right_def)+

lemma read_loop_line:
  assumes "one_line l" and "l \<noteq> []"
  shows "read_loop U ok n es (l @ c_nl # rest) =
    (case Entry_UnmarshalJSON U l of Inl err \<Rightarrow> ([], Some (BadLine n (Some err))) | Inr e \<Rightarrow> read_loop U ok (Suc n) (es @ [e]) rest)"
  using assms by (subst read_loop.simps) (simp add: ReadBytes_line trim_line split: sum.split)

lemma one_line_last: "one_line l \<Longrightarrow> l \<noteq> [] \<Longrightarrow> last l \<noteq> c_nl"
  by (metis last_in_set one_line_def)

lemma read_loop_last:
  assumes "one_line part"
  shows "read_loop U True n es part = (es, if part = [] then None else Some (Truncated n))"
  using assms by (subst read_loop.simps) (auto simp: ReadBytes_last trim_line one_line_last split: sum.split)

text \<open>
  What the reader relies on: an encoding of entries as lines and its decoding, up to a normal form.
\<close>

locale line_codec =
  fixes ok :: "'e \<Rightarrow> bool"
    and enc :: "'e \<Rightarrow> bytes"
    and dec :: "bytes \<Rightarrow> 'x + 'd"
    and norm :: "'e \<Rightarrow> 'd"
  assumes enc_line: "ok e \<Longrightarrow> one_line (enc e) \<and> enc e \<noteq> []"
    and dec_enc: "ok e \<Longrightarrow> dec (enc e) = Inr (norm e)"
begin

lemma lines_read:
  "\<forall>e\<in>set es. ok e \<Longrightarrow> list_all2 (\<lambda>l d. one_line l \<and> l \<noteq> [] \<and> dec l = Inr d) (map enc es) (map norm es)"
  by (simp add: list_all2_map1 list_all2_map2 list_all2_same enc_line dec_enc)

lemma enc_inj: "ok e \<Longrightarrow> ok e' \<Longrightarrow> enc e = enc e' \<Longrightarrow> norm e = norm e'"
  using dec_enc[of e] dec_enc[of e'] by simp

end

lemma read_loop_lines:
  assumes "list_all2 (\<lambda>l e. one_line l \<and> l \<noteq> [] \<and> Entry_UnmarshalJSON U l = Inr e) ls es"
  shows "read_loop U ok n acc (file_of ls @ rest) = read_loop U ok (n + length ls) (acc @ es) rest"
  using assms by (induction ls es arbitrary: n acc rule: list_all2_induct) (simp_all add: read_loop_line)

section \<open>What the log wrote\<close>

definition line_of :: "ulid_lib \<Rightarrow> Entry \<Rightarrow> bytes" where
  "line_of U e = projr (Entry_MarshalJSON U e)"

definition writable :: "ulid_lib \<Rightarrow> Entry \<Rightarrow> bool" where
  "writable U e \<longleftrightarrow> entry_storable U e \<and> en_Kind e = kind_of (en_Payload e) \<and> Validate (ulid_ParseStrict U) (en_Payload e) = None"

lemma writable_line: "writable U e \<Longrightarrow> Entry_MarshalJSON U e = Inr (line_of U e)"
  using marshal_total[of e U] by (auto simp: writable_def line_of_def)

lemma marshal_brace: "Entry_MarshalJSON U e = Inr line \<Longrightarrow> \<exists>t. line = CHR ''{'' # t"
  by (auto simp: Entry_MarshalJSON_def Let_def split: if_splits option.splits sum.splits prod.splits)

interpretation entry_lines: line_codec "\<lambda>e. ulid_text_ok U \<and> writable U e" "line_of U" "Entry_UnmarshalJSON U" stored for U
proof unfold_locales
  fix e
  assume e: "ulid_text_ok U \<and> writable U e"
  then have l: "Entry_MarshalJSON U e = Inr (line_of U e)" by (simp add: writable_line)
  show "one_line (line_of U e) \<and> line_of U e \<noteq> []" using marshal_one_line[OF conjunct1[OF e] l] marshal_brace[OF l] by auto
  show "Entry_UnmarshalJSON U (line_of U e) = Inr (stored e)" using entry_reads_back[OF _ l] e by (simp add: writable_def)
qed

lemma writable_reads:
  assumes "ulid_text_ok U" and "\<forall>e\<in>set es. writable U e"
  shows "list_all2 (\<lambda>l e. one_line l \<and> l \<noteq> [] \<and> Entry_UnmarshalJSON U l = Inr e) (map (line_of U) es) (map stored es)"
  using assms by (intro entry_lines.lines_read) simp

lemma ReadLog_file:
  assumes "ulid_text_ok U" and "\<forall>e\<in>set es. writable U e" and "one_line part"
  shows "ReadLog U (FileBytes (file_of (map (line_of U) es) @ part) True) =
    (map stored es, if part = [] then None else Some (Truncated (Suc (length es))))"
  using read_loop_lines[OF writable_reads[OF assms(1,2)], of True 1 "[]" part] assms(3)
  by (simp add: ReadLog_def read_loop_last)

text \<open>Cutting a file of lines leaves the first lines and the start of the next.\<close>

lemma take_file_of:
  assumes "\<forall>l\<in>set ls. one_line l"
  obtains k part where "k \<le> length ls" "take n (file_of ls) = file_of (take k ls) @ part" "one_line part"
    "\<And>j. j \<le> length ls \<Longrightarrow> length (file_of (take j ls)) \<le> n \<Longrightarrow> j \<le> k"
    "k < length ls \<Longrightarrow> part = take (n - length (file_of (take k ls))) (ls ! k)" "k = length ls \<Longrightarrow> part = []"
proof -
  have "\<exists>k part. k \<le> length ls \<and> take n (file_of ls) = file_of (take k ls) @ part \<and> one_line part \<and>
    (\<forall>j \<le> length ls. length (file_of (take j ls)) \<le> n \<longrightarrow> j \<le> k) \<and>
    (k < length ls \<longrightarrow> part = take (n - length (file_of (take k ls))) (ls ! k)) \<and> (k = length ls \<longrightarrow> part = [])"
    using assms
  proof (induction ls arbitrary: n)
    case Nil
    then show ?case by simp
  next
    case (Cons l ls)
    show ?case
    proof (cases "length l < n")
      case True
      with Cons.IH[of "n - Suc (length l)"] Cons.prems obtain k part where
        k: "k \<le> length ls" "take (n - Suc (length l)) (file_of ls) = file_of (take k ls) @ part" "one_line part"
        "\<forall>j \<le> length ls. length (file_of (take j ls)) \<le> n - Suc (length l) \<longrightarrow> j \<le> k"
        "k < length ls \<longrightarrow> part = take (n - Suc (length l) - length (file_of (take k ls))) (ls ! k)" "k = length ls \<longrightarrow> part = []" by auto
      have "j \<le> Suc k" if "j \<le> Suc (length ls)" "length (file_of (take j (l # ls))) \<le> n" for j
        using that k(4) by (cases j) auto
      with k True show ?thesis
        by (intro exI[of _ "Suc k"] exI[of _ part]) (auto simp: take_Cons' Suc_diff_Suc)
    next
      case False
      have "j = 0" if "length (file_of (take j (l # ls))) \<le> n" for j using that False by (cases j) auto
      with False Cons.prems show ?thesis by (intro exI[of _ 0] exI[of _ "take n l"]) (auto simp: one_line_take)
    qed
  qed
  with that show ?thesis by blast
qed

end
