(* ===== verification/Session_Load.thy ===== *)
theory Session_Load
  imports Read_Log Session_Theorems
begin

text \<open>
  \<open>Load\<close> and \<open>inheritedEntries\<close> of \<open>internal/session/session.go\<close>: how a session comes back from its
  file. The store is a function from session ids to files. A session whose appends all went through
  comes back from any crash with the stored form of a prefix of its entries, at least the synced ones,
  and with nothing pending; a line the crash cut short stays in the file, and the next append after it
  makes the file unreadable.
\<close>

section \<open>Loading\<close>

datatype load_invariant =
    IdsNotIncreasing nat
  | FirstEntryIs Kind
  | ForkChainTooDeep
  | ForkParentEmpty ulid
  | ForkEntryMissing ulid ulid

datatype load_error = LoadRead read_error | EmptyLog ulid | LoadInvariant load_invariant | LoadSession session_error

type_synonym store = "ulid \<Rightarrow> file_image"

text \<open>The errors \<open>errors.As(err, &tr)\<close> does not accept.\<close>

definition hard_error :: "read_error option \<Rightarrow> read_error option" where
  "hard_error err = (case err of Some (Truncated _) \<Rightarrow> None | _ \<Rightarrow> err)"

fun ids_break :: "nat \<Rightarrow> Entry list \<Rightarrow> nat option" where
  "ids_break i (a # b # es) = (if en_ID b \<le> en_ID a then Some (i + 2) else ids_break (Suc i) (b # es))"
| "ids_break i es = None"

fun upto_id :: "ulid \<Rightarrow> Entry list \<Rightarrow> Entry list option" where
  "upto_id i [] = None"
| "upto_id i (e # es) = (if en_ID e = i then Some [e] else map_option (Cons e) (upto_id i es))"

function inheritedEntries :: "ulid_lib \<Rightarrow> store \<Rightarrow> ForkPoint \<Rightarrow> nat \<Rightarrow> (load_error, Entry list) result" where
  "inheritedEntries U files fp depth =
     (if depth > 64 then Inl (LoadInvariant ForkChainTooDeep)
      else
        (case ReadLog U (files (fp_ParentSessionID fp)) of
           (parent, err) \<Rightarrow>
             (case hard_error err of
                Some x \<Rightarrow> Inl (LoadRead x)
              | None \<Rightarrow>
                  if parent = [] then Inl (LoadInvariant (ForkParentEmpty (fp_ParentSessionID fp)))
                  else
                    (case (case en_Payload (hd parent) of ForkPoint gp \<Rightarrow> inheritedEntries U files gp (Suc depth) | _ \<Rightarrow> Inr []) of
                       Inl x \<Rightarrow> Inl x
                     | Inr chain \<Rightarrow>
                         (case upto_id (fp_ParentEntryID fp) (chain @ parent) of
                            Some es \<Rightarrow> Inr es
                          | None \<Rightarrow> Inl (LoadInvariant (ForkEntryMissing (fp_ParentEntryID fp) (fp_ParentSessionID fp))))))))"
  by pat_completeness auto

termination
  by (relation "measure (\<lambda>(U, files, fp, depth). 65 - depth)") auto

declare inheritedEntries.simps [simp del]

definition file_content :: "file_image \<Rightarrow> bytes" where
  "file_content f = (case f of FileBytes s _ \<Rightarrow> s | _ \<Rightarrow> [])"

definition Load ::
  "ulid_lib \<Rightarrow> bool \<Rightarrow> (nat \<Rightarrow> call_env) \<Rightarrow> sync_io \<Rightarrow> store \<Rightarrow> ulid \<Rightarrow> (load_error, Session) result" where
  "Load U created envs io files i =
     (case ReadLog U (files i) of
        (own, err) \<Rightarrow>
          (case hard_error err of
             Some x \<Rightarrow> Inl (LoadRead x)
           | None \<Rightarrow>
               if own = [] then Inl (EmptyLog i)
               else
                 (case ids_break 0 own of
                    Some n \<Rightarrow> Inl (LoadInvariant (IdsNotIncreasing n))
                  | None \<Rightarrow>
                      (case (case en_Payload (hd own) of
                               SessionOpened _ \<Rightarrow> Inr []
                             | ForkPoint fp \<Rightarrow> inheritedEntries U files fp 0
                             | _ \<Rightarrow> Inl (LoadInvariant (FirstEntryIs (en_Kind (hd own))))) of
                         Inl x \<Rightarrow> Inl x
                       | Inr inherited \<Rightarrow>
                           (case create created i (file_content (files i)) of
                              Inl x \<Rightarrow> Inl (LoadSession x)
                            | Inr s \<Rightarrow>
                                (case Recover U envs io (s\<lparr>s_inherited := inherited, s_own := own\<rparr>) of
                                   (_, _, Some x) \<Rightarrow> Inl (LoadSession x)
                                 | (s', _, None) \<Rightarrow> Inr s'))))))"

section \<open>Crash images\<close>

text \<open>The entries whose append went through, in the order of the operations.\<close>

fun accepted :: "ulid_lib \<Rightarrow> Log \<Rightarrow> log_op list \<Rightarrow> Entry list" where
  "accepted U l [] = []"
| "accepted U l (x # xs) =
     (case x of LAppend io e \<Rightarrow> if snd (Log_Append U io l e) = None then [e] else [] | _ \<Rightarrow> []) @
     accepted U (log_step U l x) xs"

lemma accepted_append: "accepted U l (xs @ ys) = accepted U l xs @ accepted U (run_ops (log_step U) l xs) ys"
  by (induction xs arbitrary: l) auto

lemma log_step_inv:
  assumes "ulid_text_ok U" and "log_inv (map (line_of U) es) l"
  shows "log_inv (map (line_of U) (es @ accepted U l [x])) (log_step U l x)"
proof (cases x)
  case (LAppend io e)
  with Log_Append_inv[OF assms, of io e "fst (Log_Append U io l e)" "snd (Log_Append U io l e)"] show ?thesis
    by (auto simp: log_step_def line_of_def)
next
  case (LSync io)
  with Log_Sync_inv[OF assms(2), of io "fst (Log_Sync io l)"] show ?thesis by (simp add: log_step_def) (metis prod.collapse)
next
  case (LClose io c)
  with Log_Close_inv[OF assms(2), of io c "fst (Log_Close io c l)"] show ?thesis by (simp add: log_step_def) (metis prod.collapse)
qed

lemma run_log_inv:
  "ulid_text_ok U \<Longrightarrow> log_inv (map (line_of U) es) l \<Longrightarrow>
    log_inv (map (line_of U) (es @ accepted U l xs)) (run_ops (log_step U) l xs)"
proof (induction xs arbitrary: l es)
  case (Cons x xs)
  from Cons.IH[OF Cons.prems(1) log_step_inv[OF Cons.prems, of x]] show ?case by (simp add: append_assoc)
qed simp

lemma accepted_marshals: "e \<in> set (accepted U l xs) \<Longrightarrow> \<exists>line. Entry_MarshalJSON U e = Inr line"
proof (induction xs arbitrary: l)
  case (Cons x xs)
  have "\<exists>line. Entry_MarshalJSON U e = Inr line" if "snd (Log_Append U io l e) = None" for io
    using that Log_Append_ok[of U io l e] by (metis prod.collapse)
  with Cons show ?case by (auto split: log_op.splits if_splits)
qed simp

lemma marshals_writable: "entry_storable U e \<Longrightarrow> Entry_MarshalJSON U e = Inr line \<Longrightarrow> writable U e"
  by (auto simp: writable_def Entry_MarshalJSON_def split: if_splits option.splits)

lemma crash_lines:
  assumes "log_inv ls l"
  obtains k part where "k \<le> length ls" "crash_image l n = file_of (take k ls) @ part" "one_line part"
    "\<And>j. j \<le> length ls \<Longrightarrow> length (file_of (take j ls)) \<le> lg_synced l \<Longrightarrow> j \<le> k"
proof -
  from assms obtain part where l: "lg_written l = file_of ls @ part" "one_line part" "\<forall>x\<in>set ls. one_line x"
    by (auto simp: log_inv_def)
  let ?m = "max n (lg_synced l)"
  show ?thesis
  proof (cases "length (file_of ls) \<le> ?m")
    case True
    with l that[of "length ls" "take (?m - length (file_of ls)) part"] show ?thesis by (simp add: crash_image_def one_line_take)
  next
    case False
    then have c: "crash_image l n = take ?m (file_of ls)" by (auto simp: crash_image_def l(1) not_le)
    show ?thesis
    proof (rule take_file_of[OF l(3), of ?m])
      fix k part
      assume "k \<le> length ls" "take ?m (file_of ls) = file_of (take k ls) @ part" "one_line part"
        "\<And>j. j \<le> length ls \<Longrightarrow> length (file_of (take j ls)) \<le> ?m \<Longrightarrow> j \<le> k"
      with c that show ?thesis by (metis max.coboundedI2)
    qed
  qed
qed

lemma ReadLog_crash:
  assumes "ulid_text_ok U" and "log_inv (map (line_of U) es) l" and "\<forall>e\<in>set es. writable U e"
  obtains k part where "k \<le> length es" "one_line part" "crash_image l n = file_of (map (line_of U) (take k es)) @ part"
    "ReadLog U (FileBytes (crash_image l n) True) = (map stored (take k es), if part = [] then None else Some (Truncated (Suc k)))"
    "\<And>j. j \<le> length es \<Longrightarrow> length (file_of (map (line_of U) (take j es))) \<le> lg_synced l \<Longrightarrow> j \<le> k"
proof (rule crash_lines[OF assms(2), of n])
  fix k part
  assume k: "k \<le> length (map (line_of U) es)" "crash_image l n = file_of (take k (map (line_of U) es)) @ part" "one_line part"
    "\<And>j. j \<le> length (map (line_of U) es) \<Longrightarrow> length (file_of (take j (map (line_of U) es))) \<le> lg_synced l \<Longrightarrow> j \<le> k"
  moreover have "\<forall>e\<in>set (take k es). writable U e" using assms(3) by (meson in_set_takeD)
  note ReadLog_file[OF assms(1) this k(3)]
  ultimately show ?thesis using that[of k part] by (simp add: take_map min_absorb2)
qed


section \<open>The stored form of a log\<close>

lemma stored_simps [simp]: "en_ID (stored e) = en_ID e" "en_Kind (stored e) = en_Kind e" "en_Payload (stored e) = stored_payload (en_Payload e)"
  by (simp_all add: stored_def)

lemma stored_kind [simp]: "kind_of (stored_payload p) = kind_of p"
  by (cases p) simp_all

lemma stored_block_use:
  assumes "block_ok b" and "Block_Validate b = None"
  shows "bl_Type (stored_block b) = bl_Type b" "bl_Type b = BlockToolUse \<Longrightarrow> bl_ID (stored_block b) = bl_ID b"
  using stored_block_valid[OF assms] by (auto simp: stored_block_def zero_Block_def enum_defs)

lemma stored_uses:
  "\<forall>b\<in>set bs. block_ok b \<and> Block_Validate b = None \<Longrightarrow>
    map bl_ID (filter (\<lambda>b. bl_Type b = BlockToolUse) (map stored_block bs)) = map bl_ID (filter (\<lambda>b. bl_Type b = BlockToolUse) bs)"
  by (induction bs) (auto simp: stored_block_use)

lemma stored_tool_uses_of:
  assumes "payload_ok U p" and "Validate P p = None"
  shows "map bl_ID (tool_uses_of (stored_payload p)) = map bl_ID (tool_uses_of p)"
proof (cases p)
  case (AssistantMessage v)
  with assms content_valid[OF assms(2)] have "\<forall>b\<in>set (am_Content v). block_ok b \<and> Block_Validate b = None" by (auto simp: list_all_iff)
  with AssistantMessage show ?thesis by (simp add: tool_uses_of_def stored_uses)
qed (simp_all add: tool_uses_of_def)

lemma stored_tool_uses: "\<forall>e\<in>set es. writable U e \<Longrightarrow> map bl_ID (tool_uses (map stored es)) = map bl_ID (tool_uses es)"
  by (induction es) (auto simp: writable_def entry_storable_def stored_tool_uses_of)

lemma stored_ids:
  "result_ids (map stored es) = result_ids es" "decided_ids (map stored es) = decided_ids es"
  "has_id (map stored es) i = has_id es i" "prior_runtime_decision (map stored es) v = prior_runtime_decision es v"
proof -
  show "result_ids (map stored es) = result_ids es"
    by (induction es) (auto split: payload.split elim!: stored_payload.elims)
  show "decided_ids (map stored es) = decided_ids es"
    by (induction es) (auto split: payload.split elim!: stored_payload.elims)
  show "has_id (map stored es) i = has_id es i" by (auto simp: has_id_def)
  have "(case stored_payload p of RuntimePermissionDecision w \<Rightarrow> same_runtime_request w v | _ \<Rightarrow> False) =
    (case p of RuntimePermissionDecision w \<Rightarrow> same_runtime_request w v | _ \<Rightarrow> False)" for p by (cases p) simp_all
  then show "prior_runtime_decision (map stored es) v = prior_runtime_decision es v" by (simp add: prior_runtime_decision_def)
qed

lemma stored_follows:
  assumes "\<forall>e\<in>set pre. writable U e"
  shows "follows (map stored pre) (stored_payload p) = follows pre p"
proof -
  have "bl_ID ` set (tool_uses (map stored pre)) = bl_ID ` set (tool_uses pre)"
    using arg_cong[OF stored_tool_uses[OF assms], of set] by simp
  then show ?thesis by (cases p) (simp_all add: follows_def stored_ids)
qed

lemma stored_wf:
  assumes "\<forall>e\<in>set es. writable U e" and "wf_entries P es"
  shows "wf_entries P (map stored es)"
  unfolding wf_entries_def
proof (intro conjI allI impI ballI)
  show "strict_sorted (map en_ID (map stored es))" using assms(2) by (simp add: wf_entries_def comp_def)
  show "entry_ok P e'" if "e' \<in> set (map stored es)" for e'
  proof -
    from that obtain e where e: "e \<in> set es" "e' = stored e" by auto
    with assms(1,2) have "payload_ok U (en_Payload e)" "entry_ok P e" by (auto simp: wf_entries_def writable_def entry_storable_def)
    with e(2) stored_valid[of U "en_Payload e" P] show ?thesis by (simp add: entry_ok_def)
  qed
  show "follows pre' (en_Payload e')" if "map stored es = pre' @ e' # post'" for pre' e' post'
  proof -
    from that obtain pre e post where "es = pre @ e # post" "pre' = map stored pre" "e' = stored e"
      by (auto simp: map_eq_append_conv)
    with assms(1,2) stored_follows[of pre U "en_Payload e"] show ?thesis by (auto simp: wf_entries_def)
  qed
qed

end
