(* ===== verification/Load_Crash.thy ===== *)
theory Load_Crash
  imports Session_Load
begin

text \<open>
  What a crash leaves and what \<open>Load\<close> makes of it. \<open>healthy\<close> sessions are those opened and extended
  with no failed append; their file is exactly the lines of their entries.
\<close>

section \<open>Healthy sessions\<close>

inductive healthy :: "ulid_lib \<Rightarrow> Session \<Rightarrow> bool" for U where
  opened: "Session_Open U created i env io o' = Inr s \<Longrightarrow> ce_id env \<noteq> 0 \<Longrightarrow> healthy U s"
| append: "healthy U s \<Longrightarrow> fresh env s \<Longrightarrow> Session_Append U env s p = (s', Inr e) \<Longrightarrow> healthy U s'"
| sync: "healthy U s \<Longrightarrow> Session_Sync io s = (s', r) \<Longrightarrow> healthy U s'"
| close: "healthy U s \<Longrightarrow> Session_Close io c s = (s', r) \<Longrightarrow> healthy U s'"

lemma healthy_reachable: "healthy U s \<Longrightarrow> reachable U s"
  by (induction rule: healthy.induct) (auto intro: reachable.intros)

definition on_file :: "ulid_lib \<Rightarrow> Session \<Rightarrow> bool" where
  "on_file U s \<longleftrightarrow>
     s_inherited s = [] \<and> lg_written (s_log s) = file_of (map (line_of U) (s_own s)) \<and>
     (\<forall>e\<in>set (s_own s). \<exists>line. Entry_MarshalJSON U e = Inr line) \<and>
     s_own s \<noteq> [] \<and> length (line_of U (hd (s_own s))) < lg_synced (s_log s) \<and>
     lg_synced (s_log s) \<le> length (lg_written (s_log s)) \<and>
     (\<exists>v. en_Payload (hd (s_own s)) = SessionOpened v)"

lemma Session_Append_line:
  assumes "Session_Append U env s p = (s', Inr e)"
  shows "\<exists>line. Entry_MarshalJSON U e = Inr line \<and> lg_written (s_log s') = lg_written (s_log s) @ line @ [c_nl] \<and>
    s_own s' = s_own s @ [e] \<and> s_inherited s' = s_inherited s \<and> e = new_entry env p \<and>
    (lg_synced (s_log s') = lg_synced (s_log s) \<or> lg_synced (s_log s') = length (lg_written (s_log s')))"
proof -
  obtain l x where lx: "Log_Append U (ce_write env) (s_log s) (new_entry env p) = (l, x)" by (metis prod.exhaust)
  from assms lx have l: "Log_Append U (ce_write env) (s_log s) (new_entry env p) = (l, None)"
    by (auto simp: Session_Append_def Let_def split: option.splits)
  obtain l' y where ly: "Log_Sync (ce_sync env) l = (l', y)" by (metis prod.exhaust)
  define l1 where "l1 = (if durableAllow p then l' else l)"
  from assms l ly have s': "s' = s\<lparr>s_log := l1, s_own := s_own s @ [new_entry env p]\<rparr>" "e = new_entry env p"
    and sy: "l1 = l \<or> Log_Sync (ce_sync env) l = (l1, None)"
    by (auto simp: Session_Append_def Let_def l1_def split: option.splits if_splits)
  from Log_Append_ok[OF l] obtain line where line: "Entry_MarshalJSON U (new_entry env p) = Inr line"
    "l = s_log s\<lparr>lg_written := lg_written (s_log s) @ line @ [c_nl]\<rparr>" by blast
  have "lg_written l1 = lg_written l \<and> (lg_synced l1 = lg_synced l \<or> lg_synced l1 = length (lg_written l1))"
    using sy Log_Sync_ok by blast
  with line s' show ?thesis by auto
qed

lemma on_file_append:
  assumes "on_file U s" and "Session_Append U env s p = (s', Inr e)"
  shows "on_file U s'"
proof -
  from assms(1) obtain e0 es where own: "s_own s = e0 # es" by (cases "s_own s") (auto simp: on_file_def)
  with assms(1) Session_Append_line[OF assms(2)] show ?thesis by (auto simp: on_file_def line_of_def)
qed

lemma on_file_log:
  assumes "on_file U s" and "lg_written l = lg_written (s_log s)" and "lg_synced (s_log s) \<le> lg_synced l" and "lg_synced l \<le> length (lg_written l)"
    and "s_log s' = l" and "s_own s' = s_own s" and "s_inherited s' = s_inherited s"
  shows "on_file U s'"
  using assms by (auto simp: on_file_def)

lemma Session_Open_on_file:
  assumes "Session_Open U created i env io o' = Inr s"
  shows "on_file U s"
proof -
  from assms obtain s0 s1 e where s: "create created i [] = Inr s0" "Session_Append U env s0 (SessionOpened o') = (s1, Inr e)" "Session_Sync io s1 = (s, None)"
    by (auto simp: Session_Open_def split: sum.splits prod.splits option.splits)
  then have s0: "s_own s0 = []" "s_inherited s0 = []" "lg_written (s_log s0) = []" by (auto simp: create_def OpenLog_def split: if_splits)
  from s(3) have sy: "lg_written (s_log s) = lg_written (s_log s1)" "lg_synced (s_log s) = length (lg_written (s_log s))"
    "s_own s = s_own s1" "s_inherited s = s_inherited s1"
    by (auto simp: Session_Sync_def split: prod.splits dest!: Log_Sync_ok)
  with s0 Session_Append_line[OF s(2)] show ?thesis by (auto simp: on_file_def line_of_def new_entry_def)
qed

lemma healthy_on_file: "healthy U s \<Longrightarrow> on_file U s"
proof (induction rule: healthy.induct)
  case (sync s io s' r)
  from sync(2) have "lg_written (s_log s') = lg_written (s_log s)" "s_own s' = s_own s" "s_inherited s' = s_inherited s"
    "lg_synced (s_log s') = lg_synced (s_log s) \<or> lg_synced (s_log s') = length (lg_written (s_log s'))"
    by (auto simp: Session_Sync_def Log_Sync_def Log_syncLocked_def split: prod.splits if_splits sync_io.splits)
  with sync(3) show ?case by (intro on_file_log[OF sync(3), of "s_log s'"]) (auto simp: on_file_def)
next
  case (close s io c s' r)
  from close(2) have "lg_written (s_log s') = lg_written (s_log s)" "s_own s' = s_own s" "s_inherited s' = s_inherited s"
    "lg_synced (s_log s') = lg_synced (s_log s) \<or> lg_synced (s_log s') = length (lg_written (s_log s'))"
    by (auto simp: Session_Close_def Log_Close_def Log_syncLocked_def split: prod.splits if_splits sync_io.splits)
  with close(3) show ?case by (intro on_file_log[OF close(3), of "s_log s'"]) (auto simp: on_file_def)
qed (auto intro: Session_Open_on_file on_file_append)


section \<open>Loading what a crash left\<close>

lemma ids_break_sorted: "strict_sorted (map en_ID es) \<Longrightarrow> ids_break i es = None"
  by (induction i es rule: ids_break.induct) auto

lemma on_file_inv:
  assumes "ulid_text_ok U" and "on_file U s"
  shows "log_inv (map (line_of U) (s_own s)) (s_log s)"
  using assms marshal_one_line[OF assms(1)] by (fastforce simp: log_inv_def on_file_def line_of_def)

text \<open>The session \<open>Load\<close> builds before recovery, from the file a crash left.\<close>

definition reopened :: "ulid \<Rightarrow> bytes \<Rightarrow> Entry list \<Rightarrow> Session" where
  "reopened i file own = \<lparr>s_id = i, s_log = OpenLog file, s_inherited = [], s_own = own, s_locked = True\<rparr>"

lemma reopened_simps [simp]:
  "Entries (reopened i file own) = own" "s_own (reopened i file own) = own" "log_ready (reopened i file own)"
  "s_log (reopened i file own) = OpenLog file" "s_id (reopened i file own) = i"
  "s_inherited (reopened i file own) = []"
  by (simp_all add: reopened_def Entries_def log_ready_def OpenLog_def)

lemma Load_root:
  assumes "ReadLog U (FileBytes file True) = (own, if part = [] then None else Some (Truncated n))" and "own \<noteq> []"
    and "strict_sorted (map en_ID own)" and "en_Payload (hd own) = SessionOpened v" and "files i = FileBytes file True"
  shows "Load U True envs io files i =
    (case Recover U envs io (reopened i file own) of (_, _, Some x) \<Rightarrow> Inl (LoadSession x) | (s', _, None) \<Rightarrow> Inr s')"
  using assms by (simp add: Load_def hard_error_def ids_break_sorted create_def file_content_def reopened_def)

lemma pending_distinct:
  assumes "\<forall>e\<in>set es. writable U e" and "distinct (map bl_ID (tool_uses es))"
  shows "distinct (map bl_ID (PendingToolUsesIn (map stored (take k es))))"
proof -
  have "distinct (map bl_ID (tool_uses (take k es)))"
    using assms(2) append_take_drop_id[of k es] tool_uses_simps(3)[of "take k es" "drop k es"] by (metis distinct_append map_append)
  with stored_tool_uses[of "take k es" U] assms(1) have "distinct (map bl_ID (tool_uses (map stored (take k es))))"
    by (metis in_set_takeD)
  then show ?thesis by (simp add: PendingToolUsesIn_eq distinct_map_filter)
qed

lemma healthy_reopened:
  assumes "healthy U s" and "ulid_text_ok U" and "\<forall>e\<in>set (s_own s). entry_storable U e" and "files (s_id s) = FileBytes (crash_image (s_log s) n) True"
  obtains k part where "0 < k" "k \<le> length (s_own s)" "one_line part"
    "crash_image (s_log s) n = file_of (map (line_of U) (take k (s_own s))) @ part"
    "\<And>j. j \<le> length (s_own s) \<Longrightarrow> length (file_of (map (line_of U) (take j (s_own s)))) \<le> lg_synced (s_log s) \<Longrightarrow> j \<le> k"
    "\<And>envs io. Load U True envs io files (s_id s) =
       (case Recover U envs io (reopened (s_id s) (crash_image (s_log s) n) (map stored (take k (s_own s)))) of
          (_, _, Some x) \<Rightarrow> Inl (LoadSession x) | (s', _, None) \<Rightarrow> Inr s')"
    "wf_session U (reopened (s_id s) (crash_image (s_log s) n) (map stored (take k (s_own s))))"
    "\<forall>e\<in>set (s_own s). writable U e"
proof -
  let ?es = "s_own s"
  have of: "on_file U s" by (rule healthy_on_file[OF assms(1)])
  have wr: "\<forall>e\<in>set ?es. writable U e" using of assms(3) marshals_writable by (fastforce simp: on_file_def)
  have wf: "wf_entries (ulid_ParseStrict U) ?es"
    using reachable_wf[OF healthy_reachable[OF assms(1)]] of by (simp add: wf_session_def Entries_def on_file_def)
  show ?thesis
  proof (rule ReadLog_crash[OF assms(2) on_file_inv[OF assms(2) of] wr, of n])
    fix k part
    assume k: "k \<le> length ?es" "one_line part" "crash_image (s_log s) n = file_of (map (line_of U) (take k ?es)) @ part"
      "ReadLog U (FileBytes (crash_image (s_log s) n) True) = (map stored (take k ?es), if part = [] then None else Some (Truncated (Suc k)))"
      "\<And>j. j \<le> length ?es \<Longrightarrow> length (file_of (map (line_of U) (take j ?es))) \<le> lg_synced (s_log s) \<Longrightarrow> j \<le> k"
    from of obtain e es v where es: "?es = e # es" "en_Payload e = SessionOpened v" by (cases ?es) (auto simp: on_file_def)
    have "0 < k" using k(5)[of 1] of es by (auto simp: on_file_def)
    have "wf_entries (ulid_ParseStrict U) (take k ?es)" using wf by (metis append_take_drop_id wf_entries_prefix)
    then have w: "wf_entries (ulid_ParseStrict U) (map stored (take k ?es))"
      by (intro stored_wf[of _ U]) (use wr in \<open>auto dest: in_set_takeD\<close>)
    have ne: "map stored (take k ?es) \<noteq> []" using \<open>0 < k\<close> es by simp
    moreover have "en_Payload (hd (map stored (take k ?es))) = stored_payload (SessionOpened v)" using \<open>0 < k\<close> es by (simp add: take_Cons')
    moreover have "strict_sorted (map en_ID (map stored (take k ?es)))" using w unfolding wf_entries_def by blast
    ultimately have "Load U True envs io files (s_id s) =
       (case Recover U envs io (reopened (s_id s) (crash_image (s_log s) n) (map stored (take k ?es))) of
          (_, _, Some x) \<Rightarrow> Inl (LoadSession x) | (s', _, None) \<Rightarrow> Inr s')" for envs io
      by (intro Load_root[where files = files and i = "s_id s", OF k(4) _ _ _ assms(4)]) simp_all
    with k \<open>0 < k\<close> w ne wr that show ?thesis by (simp add: wf_session_def)
  qed
qed


section \<open>Theorems\<close>

text \<open>
  C7: Whatever a log was asked to do, as long as the entries it accepted are storable
  (\<open>entry_storable\<close>), whatever failed and wherever a crash cuts the file, reading it back returns the stored form of the first entries the log accepted, in order and without error or
  with the mark of one incomplete last line. Every entry accepted before a sync that went through is
  among them.
\<close>

theorem readlog_crash_prefix:
  assumes "ulid_text_ok U" and "\<forall>e\<in>set (accepted U (OpenLog []) (ys @ LSync io # zs)). entry_storable U e"
    and "snd (Log_Sync io (run_ops (log_step U) (OpenLog []) ys)) = None"
  shows "\<exists>k. length (accepted U (OpenLog []) ys) \<le> k \<and>
    fst (ReadLog U (FileBytes (crash_image (run_ops (log_step U) (OpenLog []) (ys @ LSync io # zs)) n) True)) =
      map stored (take k (accepted U (OpenLog []) (ys @ LSync io # zs))) \<and>
    snd (ReadLog U (FileBytes (crash_image (run_ops (log_step U) (OpenLog []) (ys @ LSync io # zs)) n) True)) \<in> {None, Some (Truncated (Suc k))}"
proof -
  let ?xs = "ys @ LSync io # zs" and ?init = "OpenLog []"
  let ?before = "run_ops (log_step U) ?init ys" and ?es = "accepted U (OpenLog []) (ys @ LSync io # zs)"
  let ?mid = "log_step U ?before (LSync io)" and ?l = "run_ops (log_step U) ?init ?xs"
  have inv: "log_inv (map (line_of U) (accepted U ?init us)) (run_ops (log_step U) ?init us)" for us
    using run_log_inv[OF assms(1), of "[]" ?init us] OpenLog_inv[of "[]"] by simp
  have wr: "\<forall>e\<in>set ?es. writable U e" using assms(2) accepted_marshals marshals_writable by blast
  have es: "?es = accepted U ?init ys @ accepted U ?mid zs" by (simp add: accepted_append)
  have l1: "lg_synced ?mid = length (lg_written ?mid)" "lg_written ?mid = lg_written ?before"
    using Log_Sync_ok[of io ?before ?mid] assms(3) by (simp_all add: log_step_def prod_eq_iff)
  have "length (file_of (map (line_of U) (accepted U ?init ys))) \<le> lg_synced ?mid"
    using inv[of ys] l1 by (auto simp: log_inv_def)
  also have "lg_synced ?mid \<le> lg_synced ?l" using durable.run_grows[of ?mid U zs] l1 by simp
  finally have sy: "length (file_of (map (line_of U) (accepted U ?init ys))) \<le> lg_synced ?l" .
  show ?thesis
  proof (rule ReadLog_crash[OF assms(1) inv[of ?xs] wr, of n])
    fix k part
    assume k: "k \<le> length ?es" "ReadLog U (FileBytes (crash_image ?l n) True) = (map stored (take k ?es), if part = [] then None else Some (Truncated (Suc k)))"
      "\<And>j. j \<le> length ?es \<Longrightarrow> length (file_of (map (line_of U) (take j ?es))) \<le> lg_synced ?l \<Longrightarrow> j \<le> k"
    have "length (accepted U ?init ys) \<le> k" using k(3)[of "length (accepted U ?init ys)"] sy unfolding es by simp
    with k(2) show ?thesis by (intro exI[of _ k]) simp
  qed
qed

lemma healthy_loads:
  assumes "healthy U s" and "ulid_text_ok U" and "\<forall>e\<in>set (s_own s). entry_storable U e" and "distinct (map bl_ID (tool_uses (s_own s)))"
    and "increasing_envs envs" and "fresh (envs 0) s" and "files (s_id s) = FileBytes (crash_image (s_log s) n) True"
  shows "\<exists>k s' added. Load U True envs SyncOK files (s_id s) = Inr s' \<and> Entries s' = map stored (take k (s_own s)) @ added \<and>
    (\<forall>j \<le> length (s_own s). length (file_of (map (line_of U) (take j (s_own s)))) \<le> lg_synced (s_log s) \<longrightarrow> j \<le> k) \<and>
    (\<forall>e\<in>set added. recovery_entry e) \<and> wf_entries (ulid_ParseStrict U) (Entries s') \<and> PendingToolUses s' = []"
proof (rule healthy_reopened[where files = files, OF assms(1-3,7)])
  fix k part
  let ?r = "reopened (s_id s) (crash_image (s_log s) n) (map stored (take k (s_own s)))"
  assume k: "\<And>j. j \<le> length (s_own s) \<Longrightarrow> length (file_of (map (line_of U) (take j (s_own s)))) \<le> lg_synced (s_log s) \<Longrightarrow> j \<le> k"
    and load: "\<And>envs io. Load U True envs io files (s_id s) =
       (case Recover U envs io ?r of (_, _, Some x) \<Rightarrow> Inl (LoadSession x) | (s', _, None) \<Rightarrow> Inr s')"
    and wf: "wf_session U ?r" and wr: "\<forall>e\<in>set (s_own s). writable U e"
  have fr: "fresh (envs 0) ?r" using assms(6) by (auto simp: fresh_def Entries_def dest!: in_set_takeD)
  have di: "distinct (map bl_ID (PendingToolUses ?r))" using pending_distinct[OF wr assms(4)] by (simp add: PendingToolUses_def)
  from recover_wf[OF wf reopened_simps(3) assms(5) fr di, of envs SyncOK] obtain s' added where
    "Recover U envs SyncOK ?r = (s', length added, None)" "Entries s' = Entries ?r @ added" "\<forall>e\<in>set added. recovery_entry e"
    "wf_entries (ulid_ParseStrict U) (Entries s')" "PendingToolUses s' = []" by blast
  with load[of envs SyncOK] k show ?thesis by (intro exI[of _ k] exI[of _ s'] exI[of _ added]) auto
qed

text \<open>
  C6: A root session whose appends all went through (\<open>healthy\<close>), whose entries are storable and whose
  tool-use ids are distinct comes back from any crash, provided the writes of the recovery succeed:
  \<open>Load\<close> succeeds, the session it returns has the stored form of a prefix of the entries, every synced
  one among them, followed by what recovery adds; the log is well formed and no tool use is left
  pending. Forked sessions are not covered.
\<close>

theorem load_after_crash:
  assumes "healthy U s" and "ulid_text_ok U" and "\<forall>e\<in>set (s_own s). entry_storable U e" and "distinct (map bl_ID (tool_uses (s_own s)))"
    and "increasing_envs envs" and "fresh (envs 0) s" and "files (s_id s) = FileBytes (crash_image (s_log s) n) True"
  shows "\<exists>k s' added. Load U True envs SyncOK files (s_id s) = Inr s' \<and> Entries s' = map stored (take k (s_own s)) @ added \<and>
    (\<forall>j \<le> length (s_own s). length (file_of (map (line_of U) (take j (s_own s)))) \<le> lg_synced (s_log s) \<longrightarrow> j \<le> k) \<and>
    (\<forall>e\<in>set added. recovery_entry e) \<and> wf_entries (ulid_ParseStrict U) (Entries s') \<and> PendingToolUses s' = []"
  using assms by (rule healthy_loads)

section \<open>A line cut short\<close>

definition lines_added :: "ulid_lib \<Rightarrow> Session \<Rightarrow> Session \<Rightarrow> bool" where
  "lines_added U s s' \<longleftrightarrow>
     (\<exists>es. lg_written (s_log s') = lg_written (s_log s) @ file_of (map (line_of U) es) \<and>
       (\<forall>e\<in>set es. \<exists>line. Entry_MarshalJSON U e = Inr line))"

lemma lines_added_refl: "lines_added U s s"
  unfolding lines_added_def by (rule exI[of _ "[]"]) simp

lemma lines_added_append: "lines_added U s s' \<Longrightarrow> Session_Append U env s' p = (s2, Inr e) \<Longrightarrow> lines_added U s s2"
  unfolding lines_added_def by (elim exE, rule_tac x = "es @ [e]" in exI) (auto dest!: Session_Append_line simp: line_of_def)

lemma recover_loop_lines:
  "recover_loop U envs t bs n = (s', m, None) \<Longrightarrow> lines_added U s t \<Longrightarrow> lines_added U s s'"
proof (induction bs arbitrary: t n)
  case (Cons b bs)
  then show ?case
    by (auto split: if_splits prod.splits sum.splits option.splits) (blast intro: lines_added_append)+
qed simp

lemma Recover_lines:
  assumes "Recover U envs io s = (s', n, None)"
  shows "lines_added U s s'"
proof -
  from assms obtain t m where t: "recover_loop U envs s (PendingToolUses s) 0 = (t, m, None)"
    "s' = t \<or> Session_Sync io t = (s', None)"
    by (auto simp: Recover_def split: prod.splits option.splits if_splits)
  from t(2) have "lg_written (s_log s') = lg_written (s_log t)"
    by (auto simp: Session_Sync_def split: prod.splits dest!: Log_Sync_ok)
  with recover_loop_lines[OF t(1) lines_added_refl] show ?thesis by (simp add: lines_added_def)
qed

lemma brace_twice: "json_parse (CHR ''{'' # CHR ''{'' # t) = None"
  by (simp add: json_parse_def skip_ws_def eval_nat_numeral)

lemma glued_line:
  assumes "Entry_MarshalJSON U e = Inr line"
  shows "Entry_UnmarshalJSON U (CHR ''{'' # line) = Inl BadJSON"
  using marshal_brace[OF assms] by (auto simp: Entry_UnmarshalJSON_def brace_twice)

lemma ReadLog_glued:
  assumes "ulid_text_ok U" and "\<forall>e\<in>set es. writable U e" and "Entry_MarshalJSON U e = Inr line"
  shows "ReadLog U (FileBytes (file_of (map (line_of U) es) @ CHR ''{'' # line @ c_nl # rest) True) =
    ([], Some (BadLine (Suc (length es)) (Some BadJSON)))"
  using read_loop_lines[OF writable_reads[OF assms(1,2)], of True 1 "[]" "CHR ''{'' # line @ c_nl # rest"]
    read_loop_line[of "CHR ''{'' # line" U True "Suc (length es)" "map stored es" rest]
    marshal_one_line[OF assms(1,3)] glued_line[OF assms(3)]
  by (simp add: ReadLog_def)

lemma torn_image:
  assumes "on_file U s" and "k < length (s_own s)" and "lg_synced (s_log s) \<le> length (file_of (map (line_of U) (take k (s_own s))))"
  shows "crash_image (s_log s) (Suc (length (file_of (map (line_of U) (take k (s_own s)))))) =
    file_of (map (line_of U) (take k (s_own s))) @ ''{''"
proof -
  have own: "s_own s = take k (s_own s) @ s_own s ! k # drop (Suc k) (s_own s)" by (rule id_take_nth_drop[OF assms(2)])
  have "\<exists>line. Entry_MarshalJSON U (s_own s ! k) = Inr line" using assms(1,2) by (simp add: on_file_def)
  then obtain t where t: "line_of U (s_own s ! k) = CHR ''{'' # t" using marshal_brace unfolding line_of_def by (metis sum.sel(2))
  have "lg_written (s_log s) = file_of (map (line_of U) (take k (s_own s) @ s_own s ! k # drop (Suc k) (s_own s)))"
    using assms(1) own by (simp add: on_file_def)
  then have w: "lg_written (s_log s) = file_of (map (line_of U) (take k (s_own s))) @ CHR ''{'' # t @ c_nl # file_of (map (line_of U) (drop (Suc k) (s_own s)))"
    by (simp add: t)
  then show ?thesis unfolding crash_image_def w using assms(3) by (simp add: max_def)
qed

text \<open>
  C40: The cut line is not removed. A crash that leaves the first byte of a line behind is accepted by
  \<open>Load\<close>, but the file is opened for appending as it is: after the next append that goes through, the
  two lines are one, and the session can never be loaded again, although every entry in it but that
  one is whole.
\<close>

theorem torn_line_unloadable:
  assumes "healthy U s" and "ulid_text_ok U" and "\<forall>e\<in>set (s_own s). entry_storable U e"
    and "k < length (s_own s)" and "lg_synced (s_log s) \<le> length (file_of (map (line_of U) (take k (s_own s))))"
    and "files (s_id s) = FileBytes (crash_image (s_log s) (Suc (length (file_of (map (line_of U) (take k (s_own s))))))) True"
    and "Load U True envs io files (s_id s) = Inr s'" and "Session_Append U env s' p = (s2, Inr e)"
  shows "Load U created envs' io' (files(s_id s := FileBytes (lg_written (s_log s2)) True)) (s_id s) =
    Inl (LoadRead (BadLine (Suc k) (Some BadJSON)))"
proof (rule healthy_reopened[where files = files, OF assms(1-3,6)])
  fix j part
  let ?es = "take k (s_own s)"
  let ?r = "reopened (s_id s) (crash_image (s_log s) (Suc (length (file_of (map (line_of U) ?es))))) (map stored (take j (s_own s)))"
  assume load: "\<And>envs io. Load U True envs io files (s_id s) =
       (case Recover U envs io ?r of (_, _, Some x) \<Rightarrow> Inl (LoadSession x) | (s', _, None) \<Rightarrow> Inr s')"
    and wr: "\<forall>e\<in>set (s_own s). writable U e"
  from load[of envs io] assms(7) obtain m where "Recover U envs io ?r = (s', m, None)" by (auto split: prod.splits option.splits)
  from Recover_lines[OF this] obtain es1 where es1: "lg_written (s_log s') = lg_written (s_log ?r) @ file_of (map (line_of U) es1)"
    "\<forall>e\<in>set es1. \<exists>line. Entry_MarshalJSON U e = Inr line" by (auto simp: lines_added_def)
  from Session_Append_line[OF assms(8)] obtain l where l: "Entry_MarshalJSON U e = Inr l"
    "lg_written (s_log s2) = lg_written (s_log s') @ l @ [c_nl]" by blast
  have "lg_written (s_log s2) = file_of (map (line_of U) ?es) @ ''{'' @ file_of (map (line_of U) (es1 @ [e]))"
    using es1(1) l torn_image[OF healthy_on_file[OF assms(1)] assms(4,5)] by (simp add: OpenLog_def line_of_def)
  moreover have "\<forall>x\<in>set (es1 @ [e]). \<exists>line. Entry_MarshalJSON U x = Inr line" using es1(2) l(1) by auto
  ultimately obtain es where es: "lg_written (s_log s2) = file_of (map (line_of U) ?es) @ ''{'' @ file_of (map (line_of U) es)"
    "es \<noteq> []" "\<forall>x\<in>set es. \<exists>line. Entry_MarshalJSON U x = Inr line" by blast
  then obtain e1 rest line where "es = e1 # rest" "Entry_MarshalJSON U e1 = Inr line" by (cases es) auto
  with es(1) have "lg_written (s_log s2) = file_of (map (line_of U) ?es) @ CHR ''{'' # line @ c_nl # file_of (map (line_of U) rest)"
    by (simp add: line_of_def)
  moreover have "\<forall>e\<in>set ?es. writable U e" using wr by (meson in_set_takeD)
  ultimately have "ReadLog U (FileBytes (lg_written (s_log s2)) True) = ([], Some (BadLine (Suc k) (Some BadJSON)))"
    using ReadLog_glued[OF assms(2) _ \<open>Entry_MarshalJSON U e1 = Inr line\<close>] assms(4) by simp
  then show ?thesis by (simp add: Load_def hard_error_def)
qed


section \<open>Witnesses\<close>

lemma healthy_append_all:
  assumes "healthy ulid0 s" and "log_ready s" and "s_inherited s = []" and "admitted0 k ps (Entries s)"
    and "\<forall>e\<in>set (Entries s). en_ID e \<le> k"
  shows "healthy ulid0 (append_all k ps s)"
  using assms
proof (induction ps arbitrary: s k)
  case Nil
  then show ?case by (simp add: append_all_def)
next
  case (Cons p ps)
  have g: "append_guard (ulid_ParseStrict ulid0) [] (Entries s) p = None" using Cons.prems(4) by simp
  obtain s' where s': "Session_Append ulid0 (env0 k) s p = (s', Inr (new_entry (env0 k) p))"
    "Entries s' = Entries s @ [new_entry (env0 k) p]" "log_ready s'" "s_inherited s' = []"
    by (rule sample_append[OF Cons.prems(2,3) g])
  have "fresh (env0 k) s" using Cons.prems(5) by (auto simp: fresh_def env0_def)
  from healthy.append[OF Cons.prems(1) this s'(1)] Cons.IH[of s' "Suc k"] Cons.prems(4,5) s' show ?case
    by (auto simp: append_all_def new_entry_def env0_def le_Suc_eq)
qed

lemma root0_healthy: "healthy ulid0 root0"
  by (rule healthy.opened[OF root0_open]) (simp add: env0_def)

lemma healthy_samples:
  assumes "admitted0 1 ps (entries0 0 [SessionOpened opened0])"
  shows "healthy ulid0 (append_all 1 ps root0)"
  by (rule healthy_append_all[OF root0_healthy]) (use root0_shape assms in \<open>simp_all add: new_entry_def env0_def\<close>)

lemma payload0_ok:
  "payload_ok ulid0 (SessionOpened opened0)" "payload_ok ulid0 prompt0" "payload_ok ulid0 (answer0 [use0 ''t1''])"
  by code_simp+

lemma entries0_storable: "\<forall>p\<in>set ps. payload_ok ulid0 p \<Longrightarrow> k + length ps < 10 ^ 26 \<Longrightarrow> \<forall>e\<in>set (entries0 k ps). entry_storable ulid0 e"
proof (induction ps arbitrary: k)
  case (Cons p ps)
  then show ?case using Cons.IH[of "Suc k"] entry0_storable[of k p] by simp
qed simp

theorem load_after_crash_witness:
  "\<exists>s' k added. Load ulid0 True (\<lambda>k. env0 (3 + k)) SyncOK (\<lambda>_. FileBytes (crash_image (s_log (pending0 [''t1''])) 9) True) (s_id (pending0 [''t1''])) = Inr s' \<and>
    Entries s' = map stored (take k (s_own (pending0 [''t1'']))) @ added \<and> PendingToolUses s' = []"
proof -
  let ?s = "pending0 [''t1'']"
  have own: "s_own ?s = entries0 0 [SessionOpened opened0, prompt0, answer0 [use0 ''t1'']]"
    using pending0_entries by (auto simp: Entries_def)
  have h: "healthy ulid0 ?s" unfolding pending0_def list.map by (rule healthy_samples) code_simp
  have st: "\<forall>e\<in>set (s_own ?s). entry_storable ulid0 e"
    unfolding own by (rule entries0_storable) (use payload0_ok in simp_all)
  have d: "distinct (map bl_ID (tool_uses (s_own ?s)))" unfolding own by code_simp
  have inc: "increasing_envs (\<lambda>k. env0 (3 + k))" by (simp add: increasing_envs_def) (simp add: env0_def)
  have fr: "fresh (env0 (3 + 0)) ?s" by (simp add: pending0_entries fresh_def new_entry_def env0_def)
  from load_after_crash[OF h ulid0_ok st d inc fr, of "\<lambda>_. FileBytes (crash_image (s_log ?s) 9) True" 9] show ?thesis by blast
qed


theorem readlog_crash_prefix_witness:
  "fst (ReadLog ulid0 (FileBytes (crash_image (run_ops (log_step ulid0) (OpenLog [])
     ([LAppend WriteOK (new_entry (env0 2) prompt0)] @ LSync SyncOK # [LAppend (WriteFails 5) (new_entry (env0 3) prompt0)])) 0) True)) =
   [stored (new_entry (env0 2) prompt0)]"
proof -
  let ?e = "new_entry (env0 2) prompt0" and ?f = "new_entry (env0 3) prompt0"
  let ?ys = "[LAppend WriteOK ?e]" and ?zs = "[LAppend (WriteFails 5) ?f]"
  have v: "Validate (ulid_ParseStrict ulid0) prompt0 = None" by code_simp
  obtain a where a: "Log_Append ulid0 WriteOK (OpenLog []) ?e = ((OpenLog [])\<lparr>lg_written := a\<rparr>, None)"
    using Log_Append_WriteOK[of ?e ulid0 "OpenLog []"] v by (auto simp: new_entry_def OpenLog_def)
  have f: "snd (Log_Append ulid0 (WriteFails 5) l ?f) \<noteq> None" for l
    by (simp add: Log_Append_def split: sum.split)
  have acc: "accepted ulid0 (OpenLog []) (?ys @ LSync SyncOK # ?zs) = [?e]" "accepted ulid0 (OpenLog []) ?ys = [?e]"
    using f by (simp_all add: a)
  have st: "\<forall>e\<in>set (accepted ulid0 (OpenLog []) (?ys @ LSync SyncOK # ?zs)). entry_storable ulid0 e"
    unfolding acc using entry0_storable[of 2 prompt0] payload0_ok(2) by simp
  have sy: "snd (Log_Sync SyncOK (run_ops (log_step ulid0) (OpenLog []) ?ys)) = None"
    by (simp add: log_step_def a) (simp add: Log_Sync_def Log_syncLocked_def OpenLog_def)
  from readlog_crash_prefix[OF ulid0_ok st sy, of 0] show ?thesis unfolding acc by auto
qed


definition torn0 :: Session where
  "torn0 = append_all 1 [prompt0] root0"

definition torn_files :: store where
  "torn_files = (\<lambda>_. FileBytes (crash_image (s_log torn0) (Suc (length (file_of (map (line_of ulid0) (take 1 (s_own torn0))))))) True)"

lemma torn0_facts:
  "healthy ulid0 torn0" "s_own torn0 = entries0 0 [SessionOpened opened0, prompt0]"
  "lg_synced (s_log torn0) \<le> length (file_of (map (line_of ulid0) (take 1 (s_own torn0))))"
proof -
  have ad: "admitted0 1 [prompt0] (entries0 0 [SessionOpened opened0])" by code_simp
  show "healthy ulid0 torn0" unfolding torn0_def by (rule healthy_samples[OF ad])
  show own: "s_own torn0 = entries0 0 [SessionOpened opened0, prompt0]"
    using append_root0[OF ad] by (auto simp: torn0_def Entries_def)
  obtain s' where s': "Session_Append ulid0 (env0 1) root0 prompt0 = (s', Inr (new_entry (env0 1) prompt0))"
    using sample_append[of root0 prompt0 1] root0_shape ad by auto
  then have t: "torn0 = s'" by (simp add: torn0_def append_all_def)
  have "\<not> durableAllow prompt0" by code_simp
  with s' have "lg_synced (s_log s') = lg_synced (s_log root0)"
    by (auto simp: Session_Append_def Let_def split: option.splits prod.splits if_splits dest!: Log_Append_synced)
  moreover have "on_file ulid0 root0" by (rule Session_Open_on_file[OF root0_open])
  ultimately show "lg_synced (s_log torn0) \<le> length (file_of (map (line_of ulid0) (take 1 (s_own torn0))))"
    using root0_shape own by (auto simp: t on_file_def Entries_def)
qed

theorem torn_line_unloadable_witness:
  "\<exists>s' s2 e. Load ulid0 True env0 SyncOK torn_files (s_id torn0) = Inr s' \<and> Session_Append ulid0 (env0 5) s' prompt0 = (s2, Inr e) \<and>
    Load ulid0 True env0 SyncOK (torn_files(s_id torn0 := FileBytes (lg_written (s_log s2)) True)) (s_id torn0) =
      Inl (LoadRead (BadLine 2 (Some BadJSON)))"
proof -
  let ?e = "new_entry (env0 0) (SessionOpened opened0)"
  have f: "torn_files (s_id torn0) = FileBytes (crash_image (s_log torn0) (Suc (length (file_of (map (line_of ulid0) (take 1 (s_own torn0))))))) True"
    by (simp add: torn_files_def)
  have st: "\<forall>e\<in>set (s_own torn0). entry_storable ulid0 e"
    unfolding torn0_facts(2) by (rule entries0_storable) (use payload0_ok in simp_all)
  let ?file = "file_of (map (line_of ulid0) [?e]) @ ''{''"
  have img: "torn_files (s_id torn0) = FileBytes ?file True"
    unfolding f using torn_image[OF healthy_on_file[OF torn0_facts(1)] _ torn0_facts(3)] torn0_facts(2) by simp
  have "Validate (ulid_ParseStrict ulid0) (SessionOpened opened0) = None" by code_simp
  then have wr: "\<forall>e\<in>set [?e]. writable ulid0 e" using st torn0_facts(2) by (simp add: writable_def) (simp add: new_entry_def)
  let ?r = "reopened (s_id torn0) ?file (map stored [?e])"
  have "PendingToolUses ?r = []" by (simp add: PendingToolUses_def) code_simp
  moreover obtain v where "en_Payload (hd (map stored [?e])) = SessionOpened v" by (simp add: new_entry_def)
  ultimately have ld: "Load ulid0 True env0 SyncOK torn_files (s_id torn0) = Inr ?r"
    using Load_root[where files = torn_files and i = "s_id torn0" and envs = env0 and io = SyncOK, OF ReadLog_file[OF ulid0_ok wr, of "''{''"] _ _ _ img]
    by (simp add: Recover_nothing_pending)
  have "append_guard (ulid_ParseStrict ulid0) [] (Entries ?r) prompt0 = None" unfolding reopened_simps by code_simp
  then obtain s2 where s2: "Session_Append ulid0 (env0 5) ?r prompt0 = (s2, Inr (new_entry (env0 5) prompt0))"
    using sample_append[of ?r prompt0 5] by auto
  from torn_line_unloadable[OF torn0_facts(1) ulid0_ok st _ torn0_facts(3) f ld s2, of True env0 SyncOK] torn0_facts(2) ld s2
  show ?thesis by (intro exI conjI) (simp_all add: numeral_2_eq_2)
qed

end
