(* ===== verification/Session_Store.thy ===== *)
theory Session_Store
  imports Load_Crash
begin

text \<open>
  The directory of sessions, \<open>internal/session/store.go\<close>: what \<open>List\<close> reports of a session from the
  first line of its log and of its fork parents' logs, and \<open>RollbackFork\<close>. The lemmas show that \<open>List\<close>
  and \<open>Load\<close> agree.
\<close>

section \<open>The first line\<close>

definition firstEntry :: "ulid_lib \<Rightarrow> file_image \<Rightarrow> Entry option" where
  "firstEntry U f =
     (case f of
        FileBytes s ok \<Rightarrow>
          (case ReadBytes ok s of
             (line, _, r) \<Rightarrow>
               if r \<noteq> ReadOn then None
               else (case Entry_UnmarshalJSON U (butlast line) of Inl _ \<Rightarrow> None | Inr e \<Rightarrow> Some e))
      | _ \<Rightarrow> None)"

function rootOpened :: "ulid_lib \<Rightarrow> store \<Rightarrow> ForkPoint \<Rightarrow> nat \<Rightarrow> SessionOpened option" where
  "rootOpened U files fp depth =
     (if depth > 64 then None
      else
        (case firstEntry U (files (fp_ParentSessionID fp)) of
           None \<Rightarrow> None
         | Some first \<Rightarrow>
             (case en_Payload first of
                SessionOpened p \<Rightarrow> Some p
              | ForkPoint p \<Rightarrow> rootOpened U files p (Suc depth)
              | _ \<Rightarrow> None)))"
  by pat_completeness auto

termination
  by (relation "measure (\<lambda>(U, files, fp, depth). 65 - depth)") auto

declare rootOpened.simps [simp del]

section \<open>List\<close>

record Summary =
  sm_ID :: ulid
  sm_OpenedAt :: Time
  sm_Workspace :: Workspace
  sm_Model :: ModelRef
  sm_Forked :: bool
  sm_ParentSessionID :: bytes

definition summary_of :: "ulid_lib \<Rightarrow> store \<Rightarrow> ulid \<Rightarrow> Summary option" where
  "summary_of U files i =
     (case firstEntry U (files i) of
        None \<Rightarrow> None
      | Some first \<Rightarrow>
          (case en_Payload first of
             SessionOpened p \<Rightarrow>
               Some \<lparr>sm_ID = i, sm_OpenedAt = en_At first, sm_Workspace = so_Workspace p, sm_Model = so_Model p,
                 sm_Forked = False, sm_ParentSessionID = so_ParentSessionID p\<rparr>
           | ForkPoint p \<Rightarrow>
               map_option (\<lambda>root. \<lparr>sm_ID = i, sm_OpenedAt = en_At first, sm_Workspace = so_Workspace root, sm_Model = so_Model root,
                 sm_Forked = True, sm_ParentSessionID = so_ParentSessionID root\<rparr>) (rootOpened U files p 0)
           | _ \<Rightarrow> None))"

text \<open>
  Newest first. Entries of the listing that are not directories or whose name is not an id are
  skipped; summaries with the same id are of the same session, so the order among them does not show.
\<close>

definition Store_List :: "ulid_lib \<Rightarrow> (bytes \<times> bool) list \<Rightarrow> store \<Rightarrow> Summary list" where
  "Store_List U names files =
     rev (sort_key sm_ID (List.map_filter
       (\<lambda>(name, isdir). if isdir then Option.bind (ulid_ParseStrict U name) (summary_of U files) else None) names))"

section \<open>RollbackFork\<close>

datatype rollback_error = RollbackForeign | RollbackChanged | RollbackRoot | RollbackFailed

text \<open>The session after it, whether its directory was removed, and the error.\<close>

definition RollbackFork :: "bool \<Rightarrow> sync_io \<Rightarrow> bool \<Rightarrow> bool \<Rightarrow> Session \<Rightarrow> Session \<times> bool \<times> rollback_error option" where
  "RollbackFork same_dir io close_ok remove_ok s =
     (if \<not> same_dir then (s, False, Some RollbackForeign)
      else if length (s_own s) \<noteq> 1 then (s, False, Some RollbackChanged)
      else
        (case en_Payload (hd (s_own s)) of
           ForkPoint _ \<Rightarrow>
             (case Session_Close io close_ok s of
                (s', r) \<Rightarrow> (s', remove_ok, if r \<noteq> None \<or> \<not> remove_ok then Some RollbackFailed else None))
         | _ \<Rightarrow> (s, False, Some RollbackRoot)))"

section \<open>List and Load\<close>

text \<open>A file as the log writes it: it does not start with an empty line, and its first entry opens or forks.\<close>

definition well_started :: "ulid_lib \<Rightarrow> file_image \<Rightarrow> bool" where
  "well_started U f \<longleftrightarrow>
     (case f of FileBytes s ok \<Rightarrow> s = [] \<or> hd s \<noteq> c_nl | _ \<Rightarrow> True) \<and>
     (\<forall>e es err. ReadLog U f = (e # es, err) \<longrightarrow> (\<exists>v. en_Payload e = SessionOpened v) \<or> (\<exists>p. en_Payload e = ForkPoint p))"

lemma read_loop_prefix:
  "fst (read_loop U ok n acc s) = [] \<or> prefix acc (fst (read_loop U ok n acc s))"
proof (induction U ok n acc s rule: read_loop.induct)
  case (1 U ok line entries s)
  obtain raw rest r where rb: "ReadBytes ok s = (raw, rest, r)" by (metis prod_cases3)
  show ?case
    using 1[OF rb[symmetric] refl] unfolding read_loop.simps[of U ok line entries s] rb
    by (auto simp: Let_def split: sum.splits) (meson append_prefixD)+
qed

lemma firstEntry_ReadLog:
  assumes "ReadLog U f = (e # es, err)" and "well_started U f"
  shows "firstEntry U f = Some e"
proof -
  from assms(1) obtain s ok where f: "f = FileBytes s ok" and rl: "read_loop U ok 1 [] s = (e # es, err)"
    by (auto simp: ReadLog_def split: file_image.splits)
  have hd: "s = [] \<or> hd s \<noteq> c_nl" using assms(2) f by (simp add: well_started_def)
  show ?thesis
  proof (cases "c_nl \<in> set s")
    case True
    then obtain l rest where s: "s = l @ c_nl # rest" "one_line l" by (metis split_list_first one_line_def)
    with hd have "l \<noteq> []" by auto
    from read_loop_line[OF s(2) this, of U ok 1 "[]" rest] rl s obtain e' where
      u: "Entry_UnmarshalJSON U l = Inr e'" and rest: "read_loop U ok 2 [e'] rest = (e # es, err)"
      by (auto simp: numeral_2_eq_2 split: sum.splits)
    from read_loop_prefix[of U ok 2 "[e']" rest] rest have "e' = e" by simp
    with u s f show ?thesis by (simp add: firstEntry_def ReadBytes_line)
  next
    case False
    then have "one_line s" by (simp add: one_line_def)
    with rl show ?thesis by (subst (asm) read_loop.simps) (auto simp: ReadBytes_last trim_line one_line_last split: if_splits sum.splits)
  qed
qed

lemma upto_id_hd: "upto_id i (x # xs) = Some es \<Longrightarrow> \<exists>rest. es = x # rest"
  by (auto split: if_splits)

lemma inherited_root:
  "inheritedEntries U files fp d = Inr es \<Longrightarrow> \<forall>j. well_started U (files j) \<Longrightarrow>
    \<exists>v x rest. rootOpened U files fp d = Some v \<and> es = x # rest \<and> en_Payload x = SessionOpened v"
proof (induction U files fp d arbitrary: es rule: inheritedEntries.induct)
  case (1 U files fp d)
  obtain parent err where rl: "ReadLog U (files (fp_ParentSessionID fp)) = (parent, err)" by (metis prod.exhaust)
  from 1(2) rl have d: "\<not> d > 64" and he: "hard_error err = None" and ne: "parent \<noteq> []"
    by (auto simp: inheritedEntries.simps[of U files fp d] split: if_splits option.splits)
  from ne obtain x xs where p: "parent = x # xs" by (cases parent) auto
  have fe: "firstEntry U (files (fp_ParentSessionID fp)) = Some x" by (rule firstEntry_ReadLog) (use rl p 1(3) in simp_all)
  from 1(3) rl p consider v where "en_Payload x = SessionOpened v" | gp where "en_Payload x = ForkPoint gp"
    unfolding well_started_def by metis
  then show ?case
  proof cases
    case (1 v)
    with \<open>inheritedEntries U files fp d = Inr es\<close> rl p d he have "upto_id (fp_ParentEntryID fp) (x # xs) = Some es"
      by (auto simp: inheritedEntries.simps[of U files fp d] split: option.splits)
    with 1 d fe upto_id_hd show ?thesis by (fastforce simp: rootOpened.simps[of U files fp d])
  next
    case (2 gp)
    with \<open>inheritedEntries U files fp d = Inr es\<close> rl p d he obtain chain where
      c: "inheritedEntries U files gp (Suc d) = Inr chain" "upto_id (fp_ParentEntryID fp) (chain @ x # xs) = Some es"
      by (auto simp: inheritedEntries.simps[of U files fp d] split: option.splits sum.splits)
    from 1(1)[OF d rl[symmetric] he ne, of gp] 2 c(1) 1(3) p obtain v y rest where
      "rootOpened U files gp (Suc d) = Some v" "chain = y # rest" "en_Payload y = SessionOpened v" by auto
    with c(2) upto_id_hd[of _ y] d fe 2 show ?thesis by (fastforce simp: rootOpened.simps[of U files fp d])
  qed
qed

text \<open>Recovery only adds to the entries.\<close>

lemma recover_loop_grows:
  "recover_loop U envs s bs n = (s', m, r) \<Longrightarrow> s_inherited s' = s_inherited s \<and> prefix (s_own s) (s_own s')"
proof (induction bs arbitrary: s n)
  case (Cons b bs)
  have grow: "s_inherited s2 = s_inherited s1 \<and> prefix (s_own s1) (s_own s2)" if "Session_Append U env s1 p = (s2, x)" for env s1 p s2 x
    using that by (auto elim!: Session_Append_cases)
  from Cons show ?case
    by (auto split: if_splits prod.splits sum.splits option.splits dest!: grow) (blast dest: grow intro: prefix_order.trans)+
qed simp

lemma Recover_grows: "Recover U envs io s = (s', n, r) \<Longrightarrow> s_inherited s' = s_inherited s \<and> prefix (s_own s) (s_own s')"
  by (auto simp: Recover_def Session_Sync_def split: prod.splits option.splits if_splits dest!: recover_loop_grows)

lemma Load_shape:
  assumes "Load U created envs io files i = Inr s"
  obtains own err inherited where "ReadLog U (files i) = (own, err)" "own \<noteq> []" "s_inherited s = inherited" "prefix own (s_own s)"
    "(\<exists>v. en_Payload (hd own) = SessionOpened v) \<and> inherited = [] \<or>
     (\<exists>fp. en_Payload (hd own) = ForkPoint fp \<and> inheritedEntries U files fp 0 = Inr inherited)"
proof -
  obtain own err where rl: "ReadLog U (files i) = (own, err)" by (metis prod.exhaust)
  from assms rl obtain inherited s0 n where "own \<noteq> []"
    "(case en_Payload (hd own) of SessionOpened _ \<Rightarrow> Inr [] | ForkPoint fp \<Rightarrow> inheritedEntries U files fp 0
      | _ \<Rightarrow> Inl (LoadInvariant (FirstEntryIs (en_Kind (hd own))))) = Inr inherited"
    "Recover U envs io (s0\<lparr>s_inherited := inherited, s_own := own\<rparr>) = (s, n, None)"
    by (auto simp: Load_def split: option.splits if_splits sum.splits prod.splits)
  with rl Recover_grows[of U envs io "s0\<lparr>s_inherited := inherited, s_own := own\<rparr>" s n None] that[of own err inherited] show ?thesis
    by (cases "en_Payload (hd own)") auto
qed

text \<open>
  C37: \<open>List\<close> and \<open>Load\<close> agree: for a session that loads from logs that start as the program writes them,
  the summary exists, says whether it is a fork, and names the workspace, the model and the parent
  session the loaded session was opened with, however long its chain of forks is.
\<close>

theorem list_agrees_with_load:
  assumes "Load U created envs io files i = Inr s" and "\<forall>j. well_started U (files j)"
  shows "\<exists>sum. summary_of U files i = Some sum \<and> sm_ID sum = i \<and> sm_Workspace sum = Session_Workspace s \<and>
    sm_Model sum = so_Model (opened_in (Entries s)) \<and> sm_ParentSessionID sum = so_ParentSessionID (opened_in (Entries s)) \<and>
    (sm_Forked sum \<longleftrightarrow> s_inherited s \<noteq> [])"
proof (rule Load_shape[OF assms(1)])
  fix own err inherited
  assume rl: "ReadLog U (files i) = (own, err)" "own \<noteq> []" and s: "s_inherited s = inherited" "prefix own (s_own s)"
    and first: "(\<exists>v. en_Payload (hd own) = SessionOpened v) \<and> inherited = [] \<or>
     (\<exists>fp. en_Payload (hd own) = ForkPoint fp \<and> inheritedEntries U files fp 0 = Inr inherited)"
  from rl(2) obtain e es where own: "own = e # es" by (cases own) auto
  have fe: "firstEntry U (files i) = Some e" by (rule firstEntry_ReadLog) (use rl own assms(2) in simp_all)
  from s(2) own obtain more where so: "s_own s = e # more" by (auto simp: prefix_def)
  show ?thesis
  proof (cases "inherited = [] \<and> (\<exists>v. en_Payload e = SessionOpened v)")
    case True
    with s(1) so fe show ?thesis by (auto simp: summary_of_def Session_Workspace_def Entries_def opened_in_def opened_payload_def)
  next
    case False
    with first own obtain fp where fp: "en_Payload e = ForkPoint fp" "inheritedEntries U files fp 0 = Inr inherited" by auto
    from inherited_root[OF fp(2) assms(2)] obtain v x rest where
      "rootOpened U files fp 0 = Some v" "inherited = x # rest" "en_Payload x = SessionOpened v" by blast
    with s(1) so fe fp(1) show ?thesis by (auto simp: summary_of_def Session_Workspace_def Entries_def opened_in_def opened_payload_def)
  qed
qed


definition first0 :: Entry where
  "first0 = new_entry (env0 0) (SessionOpened opened0)"

definition files0 :: store where
  "files0 = (\<lambda>_. FileBytes (file_of (map (line_of ulid0) [first0])) True)"

lemma first0_writable: "writable ulid0 first0"
proof -
  have "Validate (ulid_ParseStrict ulid0) (SessionOpened opened0) = None" by code_simp
  moreover have "entry_storable ulid0 first0"
    unfolding first0_def by (rule entry0_storable) (use payload0_ok in simp_all)
  ultimately show ?thesis by (simp add: writable_def) (simp add: first0_def new_entry_def)
qed

lemma files0_read: "ReadLog ulid0 (files0 j) = ([stored first0], None)"
  using ReadLog_file[OF ulid0_ok, of "[first0]" "[]"] first0_writable by (simp add: files0_def)

lemma files0_started: "well_started ulid0 (files0 j)"
proof -
  have "\<exists>v. en_Payload (stored first0) = SessionOpened v" by (simp add: first0_def new_entry_def)
  moreover obtain t where "line_of ulid0 first0 = CHR ''{'' # t" using marshal_brace writable_line[OF first0_writable] by blast
  ultimately show ?thesis using files0_read[of j] by (simp add: well_started_def files0_def)
qed

theorem list_agrees_with_load_witness:
  "\<exists>s sum. Load ulid0 True env0 SyncOK files0 7 = Inr s \<and> summary_of ulid0 files0 7 = Some sum \<and>
    sm_Workspace sum = Session_Workspace s \<and> \<not> sm_Forked sum"
proof -
  obtain v where v: "en_Payload (hd [stored first0]) = SessionOpened v" by (simp add: first0_def new_entry_def)
  have p: "PendingToolUses (reopened 7 (file_of (map (line_of ulid0) [first0])) [stored first0]) = []"
    by (simp add: PendingToolUses_def) code_simp
  have "ReadLog ulid0 (FileBytes (file_of (map (line_of ulid0) [first0])) True) = ([stored first0], if [] = [] then None else Some (Truncated 0))"
    using files0_read[of 7] by (simp add: files0_def)
  from Load_root[where files = files0 and i = 7 and envs = env0 and io = SyncOK, OF this _ _ v] p
  have "Load ulid0 True env0 SyncOK files0 7 = Inr (reopened 7 (file_of (map (line_of ulid0) [first0])) [stored first0])"
    by (simp add: files0_def Recover_nothing_pending)
  from list_agrees_with_load[OF this] files0_started this show ?thesis by auto
qed

end
