(* ===== verification/Peer.thy ===== *)
theory Peer
  imports Entry_Decode
begin

text \<open>
  One connection used in both directions, \<open>internal/protocol/peer.go\<close> and the calls of
  \<open>internal/protocol/client.go\<close>: a reader goroutine routes every message by its shape, responses to the
  pending \<open>Call\<close>, requests and notifications to a bounded queue that \<open>Recv\<close> pops and \<open>Sync\<close> puts
  barriers into. The goroutines - the reader, the consumer of the queue, the callers of \<open>Sync\<close> and
  \<open>Call\<close> - are programs whose points lie between their critical sections and channel operations; an
  event runs one action of one of them. A \<open>select\<close> is an event that names the case it takes; a case
  that is not ready changes nothing. What the transport answers is given with the event.
\<close>

section \<open>Messages\<close>

record RPCError =
  re_Code :: int
  re_Message :: bytes
  re_Data :: bytes

record Response =
  rs_ID :: bytes
  rs_Result :: bytes
  rs_Error :: "RPCError option"

record incoming =
  in_ID :: bytes
  in_Method :: bytes
  in_Params :: bytes
  in_Result :: bytes
  in_Error :: "RPCError option"

text \<open>
  A number decodes into \<open>any\<close> as a \<open>float64\<close>: it must not round beyond the largest one, which is the
  case from the middle between it and \<open>2^1024\<close> on.
\<close>

definition float_limit :: nat where
  "float_limit = 2 ^ 1024 - 2 ^ 970"

definition number_fits :: "bytes \<Rightarrow> bool" where
  "number_fits n =
     (let s = (case n of x # t \<Rightarrow> if x = CHR ''-'' then t else n | [] \<Rightarrow> []);
          r = dropWhile is_digit s;
          point = (r \<noteq> [] \<and> hd r = CHR ''.'');
          frac = (if point then takeWhile is_digit (tl r) else []);
          r' = (if point then dropWhile is_digit (tl r) else r);
          ex = (case r' of
                  [] \<Rightarrow> 0
                | _ # t \<Rightarrow>
                    if t \<noteq> [] \<and> hd t = CHR ''-'' then - int (nat_of_digits 0 (tl t))
                    else if t \<noteq> [] \<and> hd t = CHR ''+'' then int (nat_of_digits 0 (tl t))
                    else int (nat_of_digits 0 t));
          d = nat_of_digits 0 (takeWhile is_digit s @ frac);
          x = ex - int (length frac)
      in d = 0 \<or> (if 0 \<le> x then x \<le> 308 \<and> d * 10 ^ nat x < float_limit else d < float_limit * 10 ^ nat (- x)))"

fun any_ok :: "json \<Rightarrow> bool" where
  "any_ok (JNum n) = number_fits n"
| "any_ok (JArr vs) = (\<forall>v\<in>set vs. any_ok v)"
| "any_ok (JObj ms) = (\<forall>(k, raw, v)\<in>set ms. any_ok v)"
| "any_ok v = True"

definition set_any :: "bytes setter" where
  "set_any acc raw v = (if any_ok v then Some raw else None)"

definition decode_Error :: "RPCError \<Rightarrow> members \<Rightarrow> RPCError option" where
  "decode_Error e ms =
     do { a \<leftarrow> assign ''code'' set_int (re_Code e) ms; b \<leftarrow> assign ''message'' set_string (re_Message e) ms;
          c \<leftarrow> assign ''data'' set_any (re_Data e) ms;
          Some \<lparr>re_Code = a, re_Message = b, re_Data = c\<rparr> }"

text \<open>A pointer to a struct: \<open>null\<close> makes it nil, an object is decoded into what it points to.\<close>

definition set_error :: "RPCError option setter" where
  "set_error acc raw v =
     (case v of
        JObj ms \<Rightarrow> map_option Some (decode_Error (case acc of Some e \<Rightarrow> e | None \<Rightarrow> \<lparr>re_Code = 0, re_Message = [], re_Data = []\<rparr>) ms)
      | JNull \<Rightarrow> Some None
      | _ \<Rightarrow> None)"

definition decode_incoming :: "json \<Rightarrow> incoming option" where
  "decode_incoming v =
     do { ms \<leftarrow> (case v of JObj ms \<Rightarrow> Some ms | JNull \<Rightarrow> Some [] | _ \<Rightarrow> None);
          a \<leftarrow> assign ''id'' set_raw [] ms; b \<leftarrow> assign ''method'' set_string [] ms; c \<leftarrow> assign ''params'' set_raw [] ms;
          d \<leftarrow> assign ''result'' set_raw [] ms; e \<leftarrow> assign ''error'' set_error None ms;
          Some \<lparr>in_ID = a, in_Method = b, in_Params = c, in_Result = d, in_Error = e\<rparr> }"

text \<open>What the reader does with one message.\<close>

datatype routed = Skip | ToQueue bytes | ToClient Response

definition route :: "bytes \<Rightarrow> routed" where
  "route raw =
     (case Option.bind (json_parse raw) decode_incoming of
        None \<Rightarrow> Skip
      | Some m \<Rightarrow>
          if in_Method m \<noteq> [] then ToQueue raw
          else ToClient \<lparr>rs_ID = in_ID m, rs_Result = in_Result m, rs_Error = in_Error m\<rparr>)"

section \<open>The shared state\<close>

datatype conn_err = ErrConnClosed | EOF | ErrIncomingOverflow | OtherConn bytes

definition maxIncoming :: nat where
  "maxIncoming = 4096"

text \<open>A queued message, or a barrier of the \<open>Sync\<close> with the given number.\<close>

datatype queued = QMsg bytes | QBarrier nat

text \<open>
  The fields of \<open>queueConn\<close>, of \<open>Client\<close> and the transport's state. \<open>pe_passed\<close> are the barriers whose
  channel is closed; \<open>cl_chans\<close> are the one-place channels of the calls.
\<close>

record Peer =
  pe_q :: "queued list"
  pe_err :: "conn_err option"
  pe_done :: bool
  pe_wake :: bool
  pe_finished :: bool
  pe_closed :: bool
  pe_passed :: "nat set"
  pe_connClosed :: bool
  cl_nextID :: int64
  cl_pending :: "int \<rightharpoonup> nat"
  cl_chans :: "nat \<rightharpoonup> Response"
  cl_err :: "conn_err option"
  cl_done :: bool

definition NewPeer :: Peer where
  "NewPeer = \<lparr>pe_q = [], pe_err = None, pe_done = False, pe_wake = False, pe_finished = False, pe_closed = False,
     pe_passed = {}, pe_connClosed = False, cl_nextID = 0, cl_pending = Map.empty, cl_chans = Map.empty, cl_err = None, cl_done = False\<rparr>"

definition Peer_Close :: "Peer \<Rightarrow> Peer" where
  "Peer_Close p = p\<lparr>pe_connClosed := True, pe_closed := True\<rparr>"

definition signal :: "Peer \<Rightarrow> Peer" where
  "signal p = p\<lparr>pe_wake := True\<rparr>"

section \<open>The reader\<close>

datatype recv_result = Received bytes | RecvErr conn_err

datatype reader_pc =
    RdRecv
  | RdPush bytes
  | RdSignal
  | RdLookup Response
  | RdDeliver nat Response
  | RdFail conn_err
  | RdStop conn_err
  | RdFinished
  | RdClose
  | RdFinish
  | RdEnded

definition push :: "Peer \<Rightarrow> bytes \<Rightarrow> Peer \<times> reader_pc" where
  "push p m =
     (if maxIncoming \<le> length (pe_q p) then (p, RdFail ErrIncomingOverflow)
      else (p\<lparr>pe_q := pe_q p @ [QMsg m]\<rparr>, RdSignal))"

definition deliver_lookup :: "Peer \<Rightarrow> Response \<Rightarrow> reader_pc" where
  "deliver_lookup p resp =
     (case parse_int64 (rs_ID resp) of
        None \<Rightarrow> RdRecv
      | Some i \<Rightarrow> (case cl_pending p i of None \<Rightarrow> RdRecv | Some k \<Rightarrow> RdDeliver k resp))"

definition Client_fail :: "Peer \<Rightarrow> conn_err \<Rightarrow> Peer" where
  "Client_fail p e = p\<lparr>cl_err := Some (if e = ErrConnClosed then EOF else e)\<rparr>"

fun reader_step :: "recv_result \<Rightarrow> Peer \<Rightarrow> reader_pc \<Rightarrow> Peer \<times> reader_pc" where
  "reader_step rr p RdRecv =
     (case rr of
        RecvErr e \<Rightarrow> (p, RdFail e)
      | Received raw \<Rightarrow> (p, case route raw of Skip \<Rightarrow> RdRecv | ToQueue m \<Rightarrow> RdPush m | ToClient r \<Rightarrow> RdLookup r))"
| "reader_step rr p (RdPush m) = push p m"
| "reader_step rr p RdSignal = (signal p, RdRecv)"
| "reader_step rr p (RdLookup resp) = (p, deliver_lookup p resp)"
| "reader_step rr p (RdDeliver k resp) =
     (if cl_chans p k = None then (p\<lparr>cl_chans := (cl_chans p)(k \<mapsto> resp)\<rparr>, RdRecv) else (p, RdRecv))"
| "reader_step rr p (RdFail e) = (Client_fail p e, RdStop e)"
| "reader_step rr p (RdStop e) = (p\<lparr>pe_err := Some e, pe_done := True\<rparr>, RdFinished)"
| "reader_step rr p RdFinished = (p\<lparr>pe_finished := True\<rparr>, RdClose)"
| "reader_step rr p RdClose = (p\<lparr>pe_connClosed := True\<rparr>, RdFinish)"
| "reader_step rr p RdFinish = (p\<lparr>cl_done := True\<rparr>, RdEnded)"
| "reader_step rr p RdEnded = (p, RdEnded)"

section \<open>The consumer\<close>

datatype pick = PickWake | PickFinished | PickClosed | PickCtx | PickBarrier | PickResponse | PickDone

datatype recv_return = RecvMsg bytes | RecvEnd conn_err | RecvCtx

datatype consumer_pc = RcLook | RcWait | RcReturned recv_return

fun is_barrier :: "queued \<Rightarrow> bool" where
  "is_barrier (QBarrier _) = True"
| "is_barrier (QMsg _) = False"

fun barriers :: "queued list \<Rightarrow> nat set" where
  "barriers [] = {}"
| "barriers (QBarrier k # q) = insert k (barriers q)"
| "barriers (QMsg _ # q) = barriers q"

text \<open>The critical section of \<open>Recv\<close>: barriers up to the first message are passed.\<close>

definition recv_look :: "Peer \<Rightarrow> Peer \<times> consumer_pc" where
  "recv_look p =
     (let p1 = p\<lparr>pe_passed := pe_passed p \<union> barriers (takeWhile is_barrier (pe_q p)), pe_q := dropWhile is_barrier (pe_q p)\<rparr> in
      case pe_q p1 of
        QMsg m # q \<Rightarrow> (p1\<lparr>pe_q := q\<rparr>, RcReturned (RecvMsg m))
      | _ \<Rightarrow>
          if pe_done p1
          then (p1, RcReturned (RecvEnd (case pe_err p1 of None \<Rightarrow> EOF | Some e \<Rightarrow> if e = ErrConnClosed then EOF else e)))
          else (p1, RcWait))"

fun consumer_step :: "pick \<Rightarrow> Peer \<Rightarrow> consumer_pc \<Rightarrow> Peer \<times> consumer_pc" where
  "consumer_step pk p RcLook = recv_look p"
| "consumer_step pk p RcWait =
     (case pk of
        PickWake \<Rightarrow> if pe_wake p then (p\<lparr>pe_wake := False\<rparr>, RcLook) else (p, RcWait)
      | PickFinished \<Rightarrow> if pe_finished p then (p, RcLook) else (p, RcWait)
      | PickClosed \<Rightarrow> if pe_closed p then (p, RcReturned (RecvEnd ErrConnClosed)) else (p, RcWait)
      | PickCtx \<Rightarrow> (p, RcReturned RecvCtx)
      | _ \<Rightarrow> (p, RcWait))"
| "consumer_step pk p (RcReturned r) = (p, RcReturned r)"

text \<open>\<open>Send\<close> of the incoming half: what the transport answers, unless the peer is closed.\<close>

definition queueConn_Send :: "Peer \<Rightarrow> conn_err option \<Rightarrow> conn_err option" where
  "queueConn_Send p out = (if pe_closed p then Some ErrConnClosed else out)"

section \<open>Barriers\<close>

datatype sync_pc = SyStart | SySignal | SyWait | SyReturned bool

text \<open>\<open>SyReturned True\<close> is a nil error, \<open>SyReturned False\<close> the context's.\<close>

fun sync_step :: "pick \<Rightarrow> nat \<Rightarrow> Peer \<Rightarrow> sync_pc \<Rightarrow> Peer \<times> sync_pc" where
  "sync_step pk k p SyStart =
     (if pe_done p then (p, SyReturned True) else (p\<lparr>pe_q := pe_q p @ [QBarrier k]\<rparr>, SySignal))"
| "sync_step pk k p SySignal = (signal p, SyWait)"
| "sync_step pk k p SyWait =
     (p, case pk of
           PickBarrier \<Rightarrow> if k \<in> pe_passed p then SyReturned True else SyWait
         | PickFinished \<Rightarrow> if pe_finished p then SyReturned True else SyWait
         | PickClosed \<Rightarrow> if pe_closed p then SyReturned True else SyWait
         | PickCtx \<Rightarrow> SyReturned False
         | _ \<Rightarrow> SyWait)"
| "sync_step pk k p (SyReturned ok) = (p, SyReturned ok)"

section \<open>Calls\<close>

datatype call_return = CallMarshal | CallConn conn_err | CallResp Response | CallCtx

datatype call_pc =
    CStart
  | CRegister int
  | CSend int
  | CWait int
  | CClean int call_return
  | CReturned int call_return

record rpc_env =
  ve_marshal :: bool
  ve_send :: "conn_err option"
  ve_pick :: pick

text \<open>\<open>delivered\<close>, then what the branch returns when nothing was.\<close>

definition or_delivered :: "Peer \<Rightarrow> nat \<Rightarrow> call_return \<Rightarrow> Peer \<times> call_return" where
  "or_delivered p k otherwise =
     (case cl_chans p k of Some r \<Rightarrow> (p\<lparr>cl_chans := (cl_chans p)(k := None)\<rparr>, CallResp r) | None \<Rightarrow> (p, otherwise))"

fun call_step :: "rpc_env \<Rightarrow> nat \<Rightarrow> Peer \<Rightarrow> call_pc \<Rightarrow> Peer \<times> call_pc" where
  "call_step ve k p CStart =
     (let i = cl_nextID p + 1; p1 = p\<lparr>cl_nextID := i\<rparr> in
      if ve_marshal ve then (p1, CRegister (sint i)) else (p1, CReturned (sint i) CallMarshal))"
| "call_step ve k p (CRegister i) =
     (case cl_err p of
        Some e \<Rightarrow> (p, CReturned i (CallConn e))
      | None \<Rightarrow> (p\<lparr>cl_pending := (cl_pending p)(i \<mapsto> k)\<rparr>, CSend i))"
| "call_step ve k p (CSend i) =
     (p, case ve_send ve of Some e \<Rightarrow> CClean i (CallConn e) | None \<Rightarrow> CWait i)"
| "call_step ve k p (CWait i) =
     (case ve_pick ve of
        PickResponse \<Rightarrow>
          (case cl_chans p k of
             Some r \<Rightarrow> (p\<lparr>cl_chans := (cl_chans p)(k := None)\<rparr>, CClean i (CallResp r))
           | None \<Rightarrow> (p, CWait i))
      | PickCtx \<Rightarrow> (case or_delivered p k CallCtx of (p1, r) \<Rightarrow> (p1, CClean i r))
      | PickDone \<Rightarrow>
          if cl_done p
          then (case or_delivered p k (CallConn (case cl_err p of Some e \<Rightarrow> e | None \<Rightarrow> EOF)) of (p1, r) \<Rightarrow> (p1, CClean i r))
          else (p, CWait i)
      | _ \<Rightarrow> (p, CWait i))"
| "call_step ve k p (CClean i r) = (p\<lparr>cl_pending := (cl_pending p)(i := None)\<rparr>, CReturned i r)"
| "call_step ve k p (CReturned i r) = (p, CReturned i r)"

text \<open>\<open>unpack\<close>: the error of the response, or whether its result decodes into what the caller wants.\<close>

datatype unpacked = UnpackNil | UnpackRPC RPCError | UnpackBad

definition unpack :: "(bytes \<Rightarrow> bool) option \<Rightarrow> Response \<Rightarrow> unpacked" where
  "unpack out resp =
     (case rs_Error resp of
        Some e \<Rightarrow> UnpackRPC e
      | None \<Rightarrow>
          (case out of
             Some decodes \<Rightarrow> if rs_Result resp \<noteq> [] \<and> \<not> decodes (rs_Result resp) then UnpackBad else UnpackNil
           | None \<Rightarrow> UnpackNil))"

section \<open>The machine\<close>

text \<open>
  The goroutines and, as history, the messages the reader queued, those \<open>Recv\<close> returned, and how many
  had been queued when each \<open>Sync\<close> was called.
\<close>

record peer_world =
  pw_peer :: Peer
  pw_reader :: reader_pc
  pw_consumer :: consumer_pc
  pw_syncs :: "sync_pc list"
  pw_calls :: "call_pc list"
  pw_arrived :: "bytes list"
  pw_taken :: "bytes list"
  pw_marks :: "nat list"

datatype peer_event =
    ReaderStep recv_result
  | RecvCalled
  | ConsumerStep pick
  | SyncCalled
  | SyncStep nat pick
  | CallCalled
  | CallStep nat rpc_env
  | PeerClosed

definition queued_by :: "Peer \<Rightarrow> reader_pc \<Rightarrow> bytes list" where
  "queued_by p pc = (case pc of RdPush m \<Rightarrow> if length (pe_q p) < maxIncoming then [m] else [] | _ \<Rightarrow> [])"

definition taken_by :: "consumer_pc \<Rightarrow> consumer_pc \<Rightarrow> bytes list" where
  "taken_by pc pc' = (case (pc, pc') of (RcLook, RcReturned (RecvMsg m)) \<Rightarrow> [m] | _ \<Rightarrow> [])"

definition peer_step :: "peer_world \<Rightarrow> peer_event \<Rightarrow> peer_world" where
  "peer_step w ev =
     (case ev of
        ReaderStep rr \<Rightarrow>
          (case reader_step rr (pw_peer w) (pw_reader w) of
             (p, pc) \<Rightarrow> w\<lparr>pw_peer := p, pw_reader := pc, pw_arrived := pw_arrived w @ queued_by (pw_peer w) (pw_reader w)\<rparr>)
      | RecvCalled \<Rightarrow> (case pw_consumer w of RcReturned _ \<Rightarrow> w\<lparr>pw_consumer := RcLook\<rparr> | _ \<Rightarrow> w)
      | ConsumerStep pk \<Rightarrow>
          (case consumer_step pk (pw_peer w) (pw_consumer w) of
             (p, pc) \<Rightarrow> w\<lparr>pw_peer := p, pw_consumer := pc, pw_taken := pw_taken w @ taken_by (pw_consumer w) pc\<rparr>)
      | SyncCalled \<Rightarrow> w\<lparr>pw_syncs := pw_syncs w @ [SyStart], pw_marks := pw_marks w @ [length (pw_arrived w)]\<rparr>
      | SyncStep k pk \<Rightarrow>
          if k < length (pw_syncs w)
          then (case sync_step pk k (pw_peer w) (pw_syncs w ! k) of (p, pc) \<Rightarrow> w\<lparr>pw_peer := p, pw_syncs := (pw_syncs w)[k := pc]\<rparr>)
          else w
      | CallCalled \<Rightarrow> w\<lparr>pw_calls := pw_calls w @ [CStart]\<rparr>
      | CallStep k ve \<Rightarrow>
          if k < length (pw_calls w)
          then (case call_step ve k (pw_peer w) (pw_calls w ! k) of (p, pc) \<Rightarrow> w\<lparr>pw_peer := p, pw_calls := (pw_calls w)[k := pc]\<rparr>)
          else w
      | PeerClosed \<Rightarrow> w\<lparr>pw_peer := Peer_Close (pw_peer w)\<rparr>)"

definition new_world :: peer_world where
  "new_world = \<lparr>pw_peer = NewPeer, pw_reader = RdRecv, pw_consumer = RcReturned RecvCtx, pw_syncs = [], pw_calls = [],
     pw_arrived = [], pw_taken = [], pw_marks = []\<rparr>"

definition run_peer :: "peer_event list \<Rightarrow> peer_world" where
  "run_peer evs = run_ops peer_step new_world evs"

end
