(* ===== verification/Peer_Theorems.thy ===== *)
theory Peer_Theorems
  imports Peer_Inv
begin

text \<open>
  The promises of a peer, for every schedule of its goroutines and every behaviour of the transport.
\<close>

section \<open>The incoming side\<close>

text \<open>
  C29: The consumer receives the queued messages once each and in the order they arrived, whatever the
  interleaving: what it took followed by what is queued is what arrived. The queue never holds more
  than 4096 messages.
\<close>

theorem incoming_in_order:
  "pw_taken (run_peer evs) @ msgs (pe_q (pw_peer (run_peer evs))) = pw_arrived (run_peer evs) \<and>
   length (msgs (pe_q (pw_peer (run_peer evs)))) \<le> maxIncoming"
  using run_sync_inv[of evs] by (simp add: sync_inv_def order_inv_def)

text \<open>
  C30: \<open>Sync\<close> is a barrier while the connection lives: when it returns nil, the consumer has taken every
  message that arrived before the call, or the reader has stopped or the peer was closed.
\<close>

theorem sync_is_barrier:
  assumes "k < length (pw_syncs (run_peer evs))" and "pw_syncs (run_peer evs) ! k = SyReturned True"
    and "\<not> pe_done (pw_peer (run_peer evs))" and "\<not> pe_closed (pw_peer (run_peer evs))"
  shows "take (pw_marks (run_peer evs) ! k) (pw_taken (run_peer evs)) = take (pw_marks (run_peer evs) ! k) (pw_arrived (run_peer evs)) \<and>
    pw_marks (run_peer evs) ! k \<le> length (pw_taken (run_peer evs))"
proof -
  let ?w = "run_peer evs"
  have "k \<in> pe_passed (pw_peer ?w)" using run_sync_inv[of evs] assms by (auto simp: sync_inv_def)
  then have le: "pw_marks ?w ! k \<le> length (pw_taken ?w)" using run_sync_inv[of evs] by (auto simp: sync_inv_def)
  have "pw_taken ?w @ msgs (pe_q (pw_peer ?w)) = pw_arrived ?w" using run_sync_inv[of evs] by (simp add: sync_inv_def order_inv_def)
  with le show ?thesis by (metis append_Nil2 diff_is_0_eq take_0 take_append)
qed

definition note0 :: bytes where
  "note0 = ''{'' @ json_string ''method'' @ '':'' @ json_string ''n'' @ ''}''"

definition arrive0 :: "peer_event list" where
  "arrive0 = [ReaderStep (Received note0), ReaderStep (Received []), ReaderStep (Received [])]"

lemma route_note0: "route note0 = ToQueue note0"
  by code_simp

theorem sync_is_barrier_witness:
  "pw_taken (run_peer (arrive0 @ [SyncCalled, SyncStep 0 PickBarrier, SyncStep 0 PickBarrier, RecvCalled, ConsumerStep PickWake,
     RecvCalled, ConsumerStep PickWake, SyncStep 0 PickBarrier])) = [note0]"
proof -
  let ?evs = "arrive0 @ [SyncCalled, SyncStep 0 PickBarrier, SyncStep 0 PickBarrier, RecvCalled, ConsumerStep PickWake,
     RecvCalled, ConsumerStep PickWake, SyncStep 0 PickBarrier]"
  note ev = run_peer_def arrive0_def new_world_def NewPeer_def peer_step_def route_note0 push_def maxIncoming_def signal_def
    recv_look_def Let_def queued_by_def taken_by_def
  have f: "0 < length (pw_syncs (run_peer ?evs))" "pw_syncs (run_peer ?evs) ! 0 = SyReturned True"
    "\<not> pe_done (pw_peer (run_peer ?evs))" "\<not> pe_closed (pw_peer (run_peer ?evs))"
    and m: "pw_marks (run_peer ?evs) ! 0 = 1" "pw_arrived (run_peer ?evs) = [note0]" "length (pw_taken (run_peer ?evs)) = 1"
    by (simp_all add: ev)
  from sync_is_barrier[OF f] m show ?thesis by simp
qed

text \<open>
  \<open>Sync\<close> gives up silently when the connection ends: a message that arrived before the call is
  still queued, the reader stops, and \<open>Sync\<close> returns nil although the consumer has taken nothing.
\<close>

theorem sync_gives_up_at_end:
  assumes "route raw = ToQueue m"
  shows "\<exists>evs. pw_syncs (run_peer evs) = [SyReturned True] \<and> pw_marks (run_peer evs) = [1] \<and>
    pw_arrived (run_peer evs) = [m] \<and> pw_taken (run_peer evs) = [] \<and> \<not> pe_closed (pw_peer (run_peer evs))"
proof -
  let ?evs = "[ReaderStep (Received raw), ReaderStep (Received []), ReaderStep (Received []), SyncCalled, SyncStep 0 PickBarrier,
    SyncStep 0 PickBarrier, ReaderStep (RecvErr EOF), ReaderStep (Received []), ReaderStep (Received []), ReaderStep (Received []),
    SyncStep 0 PickFinished]"
  show ?thesis
    by (rule exI[of _ ?evs]) (simp add: assms run_peer_def new_world_def NewPeer_def peer_step_def push_def maxIncoming_def signal_def
        queued_by_def Client_fail_def)
qed

theorem sync_gives_up_at_end_witness:
  "\<exists>evs. pw_syncs (run_peer evs) = [SyReturned True] \<and> pw_marks (run_peer evs) = [1] \<and>
    pw_arrived (run_peer evs) = [note0] \<and> pw_taken (run_peer evs) = []"
  using sync_gives_up_at_end[OF route_note0] by blast

section \<open>Wake-ups\<close>

text \<open>
  The events of the other goroutines, and those among them that fill the wake channel: the reader's or a
  \<open>Sync\<close>'s action after it has put something into the queue.
\<close>

definition beside_consumer :: "peer_event \<Rightarrow> bool" where
  "beside_consumer ev \<longleftrightarrow> (case ev of ConsumerStep _ \<Rightarrow> False | _ \<Rightarrow> True)"

definition gives_wake :: "peer_world \<Rightarrow> peer_event \<Rightarrow> bool" where
  "gives_wake w ev \<longleftrightarrow>
     (case ev of
        ReaderStep _ \<Rightarrow> pw_reader w = RdSignal
      | SyncStep k _ \<Rightarrow> k < length (pw_syncs w) \<and> pw_syncs w ! k = SySignal
      | _ \<Rightarrow> False)"

lemma beside_queue:
  assumes "beside_consumer ev"
  shows "\<exists>more. msgs (pe_q (pw_peer (peer_step w ev))) = msgs (pe_q (pw_peer w)) @ more"
proof (cases ev)
  case (ReaderStep rr)
  obtain p pc where st: "reader_step rr (pw_peer w) (pw_reader w) = (p, pc)" by (metis prod.exhaust)
  from reader_queue[OF st] ReaderStep st show ?thesis by (simp add: peer_step_def)
next
  case (SyncStep k pk)
  obtain p pc where st: "sync_step pk k (pw_peer w) (pw_syncs w ! k) = (p, pc)" by (metis prod.exhaust)
  from sync_queue[OF st] SyncStep st show ?thesis by (simp add: peer_step_def)
next
  case (CallStep k ve)
  obtain p pc where st: "call_step ve k (pw_peer w) (pw_calls w ! k) = (p, pc)" by (metis prod.exhaust)
  from call_queue(1)[OF st] CallStep st show ?thesis by (simp add: peer_step_def)
qed (use assms in \<open>auto simp: beside_consumer_def peer_step_def Peer_Close_def split: consumer_pc.split\<close>)

lemma beside_wake:
  assumes "beside_consumer ev"
  shows "pe_wake (pw_peer w) \<or> gives_wake w ev \<longrightarrow> pe_wake (pw_peer (peer_step w ev))"
proof (cases ev)
  case (ReaderStep rr)
  then show ?thesis
    by (cases "pw_reader w")
      (auto simp: gives_wake_def peer_step_def push_def signal_def Client_fail_def split: recv_result.splits)
next
  case (SyncStep k pk)
  then show ?thesis
    by (cases "pw_syncs w ! k") (auto simp: gives_wake_def peer_step_def signal_def split: pick.splits)
next
  case (CallStep k ve)
  obtain p pc where st: "call_step ve k (pw_peer w) (pw_calls w ! k) = (p, pc)" by (metis prod.exhaust)
  from call_queue(6)[OF st] CallStep st show ?thesis by (simp add: peer_step_def gives_wake_def)
qed (use assms in \<open>auto simp: gives_wake_def beside_consumer_def peer_step_def Peer_Close_def split: consumer_pc.split\<close>)

lemma gives_wake_stays:
  assumes "beside_consumer ev" and "\<not> gives_wake w ev" and "gives_wake w x"
  shows "gives_wake (peer_step w ev) x"
proof (cases ev)
  case (ReaderStep rr)
  with assms(2,3) show ?thesis by (cases x) (auto simp: gives_wake_def peer_step_def split: prod.split)
next
  case (SyncStep k pk)
  with assms(2,3) show ?thesis by (cases x) (auto simp: gives_wake_def peer_step_def nth_list_update split: prod.split)
qed (use assms in \<open>cases x; auto simp: beside_consumer_def gives_wake_def peer_step_def nth_append split: prod.split consumer_pc.split\<close>)+

lemma beside_consumer_stays:
  assumes "beside_consumer ev" and "\<forall>r. pw_consumer w \<noteq> RcReturned r"
  shows "pw_consumer (peer_step w ev) = pw_consumer w"
  using assms by (cases ev) (auto simp: beside_consumer_def peer_step_def split: prod.split consumer_pc.split)

lemma run_beside:
  assumes "list_all beside_consumer xs" and "\<forall>r. pw_consumer w \<noteq> RcReturned r"
  shows "pw_consumer (run_ops peer_step w xs) = pw_consumer w \<and>
    (\<exists>more. msgs (pe_q (pw_peer (run_ops peer_step w xs))) = msgs (pe_q (pw_peer w)) @ more) \<and>
    (pe_wake (pw_peer w) \<or> list_ex (gives_wake w) xs \<longrightarrow> pe_wake (pw_peer (run_ops peer_step w xs)))"
  using assms
proof (induction xs arbitrary: w)
  case (Cons x xs)
  let ?w = "peer_step w x"
  have x: "beside_consumer x" using Cons.prems(1) by simp
  have c: "pw_consumer ?w = pw_consumer w" by (rule beside_consumer_stays[OF x Cons.prems(2)])
  obtain more where more: "msgs (pe_q (pw_peer ?w)) = msgs (pe_q (pw_peer w)) @ more" using beside_queue[OF x] by blast
  have "pe_wake (pw_peer ?w) \<or> list_ex (gives_wake ?w) xs" if "pe_wake (pw_peer w) \<or> list_ex (gives_wake w) (x # xs)"
    using that beside_wake[OF x, of w] gives_wake_stays[OF x] by (auto simp: list_ex_iff)
  with Cons.IH[of ?w] Cons.prems c more show ?case by auto
qed simp

lemma look_takes:
  assumes "pw_consumer w = RcLook" and "msgs (pe_q (pw_peer w)) = m # ms"
  shows "pw_consumer (peer_step w (ConsumerStep pk)) = RcReturned (RecvMsg m)"
proof (cases rule: recv_look_cases[of "pw_peer w"])
  case (message m' q)
  from message(1) have "msgs (pe_q (pw_peer w)) = m' # msgs q" by (metis msgs.simps(2) msgs_barriers)
  with message assms show ?thesis by (simp add: peer_step_def)
next
  case (empty pc)
  from empty(1) have "msgs (pe_q (pw_peer w)) = []" by (metis msgs.simps(1) msgs_barriers)
  with assms(2) show ?thesis by simp
qed

text \<open>
  C32: No wake-up is lost. Whenever the consumer waits while a message is queued, the wake channel is full
  or some goroutine that has put something into the queue is about to fill it; and in every continuation
  in which that action has come, the consumer's next step, if its \<open>select\<close> takes the wake case, succeeds
  and the step after it returns the oldest message, whatever the other goroutines do before and between
  the two.
\<close>

theorem consumer_woken:
  assumes "pw_consumer (run_peer evs) = RcWait" and "msgs (pe_q (pw_peer (run_peer evs))) = m # ms"
  shows "(pe_wake (pw_peer (run_peer evs)) \<or> pw_reader (run_peer evs) = RdSignal \<or> SySignal \<in> set (pw_syncs (run_peer evs))) \<and>
    (\<forall>xs ys pk. list_all beside_consumer xs \<and> list_all beside_consumer ys \<and>
        (pe_wake (pw_peer (run_peer evs)) \<or> list_ex (gives_wake (run_peer evs)) xs) \<longrightarrow>
      pw_consumer (run_peer (evs @ xs @ ConsumerStep PickWake # ys @ [ConsumerStep pk])) = RcReturned (RecvMsg m))"
proof (intro conjI allI impI)
  let ?w = "run_peer evs"
  have "wake_inv new_world" by (simp add: wake_inv_def new_world_def NewPeer_def)
  then have "wake_inv ?w" unfolding run_peer_def by (rule wakes.run_inv) (simp add: wakes.admitted_all)
  moreover have "pe_q (pw_peer ?w) \<noteq> []" using assms(2) by auto
  ultimately show "pe_wake (pw_peer ?w) \<or> pw_reader ?w = RdSignal \<or> SySignal \<in> set (pw_syncs ?w)"
    using assms(1) by (simp add: wake_inv_def)
  fix xs ys pk
  assume h: "list_all beside_consumer xs \<and> list_all beside_consumer ys \<and> (pe_wake (pw_peer ?w) \<or> list_ex (gives_wake ?w) xs)"
  define w1 where "w1 = run_ops peer_step ?w xs"
  define w2 where "w2 = peer_step w1 (ConsumerStep PickWake)"
  define w3 where "w3 = run_ops peer_step w2 ys"
  have w1: "pw_consumer w1 = RcWait" "pe_wake (pw_peer w1)" "\<exists>more. msgs (pe_q (pw_peer w1)) = m # more"
    using run_beside[of xs ?w] h assms by (auto simp: w1_def)
  then have w2: "pw_consumer w2 = RcLook" "msgs (pe_q (pw_peer w2)) = msgs (pe_q (pw_peer w1))"
    by (simp_all add: w2_def peer_step_def)
  have "pw_consumer w3 = RcLook" "\<exists>more. msgs (pe_q (pw_peer w3)) = m # more"
    using run_beside[of ys w2] h w1(3) w2 by (auto simp: w3_def)
  with look_takes[of w3 m _ pk] have "pw_consumer (peer_step w3 (ConsumerStep pk)) = RcReturned (RecvMsg m)" by blast
  then show "pw_consumer (run_peer (evs @ xs @ ConsumerStep PickWake # ys @ [ConsumerStep pk])) = RcReturned (RecvMsg m)"
    by (simp add: run_peer_def w1_def w2_def w3_def)
qed

text \<open>A message that comes while the consumer waits, and another one while it looks.\<close>

theorem consumer_woken_witness:
  "pw_consumer (run_peer (([RecvCalled, ConsumerStep PickWake] @ arrive0) @ [SyncCalled] @ ConsumerStep PickWake # arrive0 @ [ConsumerStep PickCtx])) =
     RcReturned (RecvMsg note0)"
proof -
  let ?evs = "[RecvCalled, ConsumerStep PickWake] @ arrive0"
  have w: "pw_consumer (run_peer ?evs) = RcWait" "msgs (pe_q (pw_peer (run_peer ?evs))) = note0 # []" "pe_wake (pw_peer (run_peer ?evs))"
    by (simp_all add: run_peer_def arrive0_def new_world_def NewPeer_def peer_step_def route_note0 push_def maxIncoming_def signal_def
      recv_look_def Let_def)
  have "list_all beside_consumer [SyncCalled]" "list_all beside_consumer arrive0"
    by (simp_all add: beside_consumer_def arrive0_def)
  with consumer_woken[OF w(1,2)] w(3) show ?thesis by blast
qed

section \<open>Calls\<close>

text \<open>A call only ever returns a response that carries its own request id.\<close>

theorem call_gets_own_answer:
  assumes "k < length (pw_calls (run_peer evs))" and "pw_calls (run_peer evs) ! k = CReturned i (CallResp r)"
  shows "parse_int64 (rs_ID r) = Some i"
proof -
  have "rpc_inv new_world" by (simp add: rpc_inv_def new_world_def NewPeer_def)
  then have "rpc_inv (run_peer evs)" unfolding run_peer_def by (rule rpcs.run_inv) (simp add: rpcs.admitted_all)
  with assms show ?thesis by (fastforce simp: rpc_inv_def answers_def)
qed

definition answer_one :: bytes where
  "answer_one = ''{'' @ json_string ''id'' @ '':1}''"

lemma route_answer_one: "route answer_one = ToClient \<lparr>rs_ID = ''1'', rs_Result = [], rs_Error = None\<rparr>"
  by code_simp

definition rpc0 :: "pick \<Rightarrow> rpc_env" where
  "rpc0 pk = \<lparr>ve_marshal = True, ve_send = None, ve_pick = pk\<rparr>"

definition rpc_asked0 :: "peer_event list" where
  "rpc_asked0 = CallCalled # replicate 3 (CallStep 0 (rpc0 PickCtx))"

definition rpc_answered0 :: "peer_event list" where
  "rpc_answered0 = rpc_asked0 @ [ReaderStep (Received answer_one), ReaderStep (Received []), ReaderStep (Received []),
     CallStep 0 (rpc0 PickCtx), CallStep 0 (rpc0 PickCtx)]"

lemma parse_one: "parse_int64 ''1'' = Some 1"
  by code_simp

theorem call_gets_own_answer_witness:
  "\<exists>r. pw_calls (run_peer rpc_answered0) = [CReturned 1 (CallResp r)] \<and> parse_int64 (rs_ID r) = Some 1"
proof -
  have c: "pw_calls (run_peer rpc_answered0) = [CReturned 1 (CallResp \<lparr>rs_ID = ''1'', rs_Result = [], rs_Error = None\<rparr>)]"
    by (simp add: run_peer_def rpc_answered0_def rpc_asked0_def new_world_def NewPeer_def peer_step_def route_answer_one deliver_lookup_def
        or_delivered_def rpc0_def parse_one Let_def numeral_3_eq_3)
  with call_gets_own_answer[of 0 rpc_answered0 1] show ?thesis by simp
qed

fun call_rank :: "call_pc \<Rightarrow> nat" where
  "call_rank CStart = 5"
| "call_rank (CRegister i) = 4"
| "call_rank (CSend i) = 3"
| "call_rank (CWait i) = 2"
| "call_rank (CClean i r) = 1"
| "call_rank (CReturned i r) = 0"

definition done_steps :: "nat \<Rightarrow> peer_event list \<Rightarrow> nat" where
  "done_steps k evs = length (filter (\<lambda>ev. case ev of CallStep j ve \<Rightarrow> j = k \<and> ve_pick ve = PickDone | _ \<Rightarrow> False) evs)"

lemma call_rank_step:
  assumes "call_step ve k p pc = (p', pc')"
  shows "call_rank pc' \<le> call_rank pc" "cl_done p \<Longrightarrow> ve_pick ve = PickDone \<Longrightarrow> call_rank pc' \<le> call_rank pc - 1"
  using assms by (cases pc; auto simp: Let_def or_delivered_def split: if_splits option.splits pick.splits)+

lemma done_stays:
  assumes "cl_done (pw_peer w)"
  shows "cl_done (pw_peer (peer_step w ev))"
proof (cases ev)
  case (ReaderStep rr)
  with assms show ?thesis
    by (cases "pw_reader w")
      (auto simp: peer_step_def push_def signal_def Client_fail_def split: recv_result.splits prod.splits)
next
  case (ConsumerStep pk)
  with assms consumer_calls[of pk "pw_peer w" "pw_consumer w"] show ?thesis
    by (auto simp: peer_step_def split: prod.split)
next
  case (SyncStep k pk)
  with assms sync_calls[of pk k "pw_peer w" "pw_syncs w ! k"] show ?thesis by (auto simp: peer_step_def split: prod.split)
next
  case (CallStep k ve)
  with assms call_queue(7)[of ve k "pw_peer w" "pw_calls w ! k"] show ?thesis by (auto simp: peer_step_def split: prod.split)
qed (use assms in \<open>auto simp: peer_step_def Peer_Close_def split: consumer_pc.split\<close>)

lemma rank_event:
  assumes "k < length (pw_calls w)" and "cl_done (pw_peer w)"
  shows "k < length (pw_calls (peer_step w ev)) \<and>
    call_rank (pw_calls (peer_step w ev) ! k) \<le> call_rank (pw_calls w ! k) - done_steps k [ev]"
proof (cases ev)
  case (CallStep j ve)
  obtain p pc where st: "call_step ve j (pw_peer w) (pw_calls w ! j) = (p, pc)" by (metis prod.exhaust)
  from call_rank_step[OF st] assms CallStep st show ?thesis
    by (cases "j = k") (auto simp: peer_step_def done_steps_def)
qed (use assms in \<open>auto simp: peer_step_def done_steps_def nth_append split: prod.split consumer_pc.split\<close>)

lemma rank_run:
  "k < length (pw_calls w) \<Longrightarrow> cl_done (pw_peer w) \<Longrightarrow>
    call_rank (pw_calls (run_ops peer_step w evs) ! k) \<le> call_rank (pw_calls w ! k) - done_steps k evs"
proof (induction evs arbitrary: w)
  case Nil
  then show ?case by (simp add: done_steps_def)
next
  case (Cons ev evs)
  from rank_event[OF Cons.prems, of ev] Cons.IH[of "peer_step w ev"] done_stays[OF Cons.prems(2)]
  have "call_rank (pw_calls (run_ops peer_step w (ev # evs)) ! k) \<le> call_rank (pw_calls w ! k) - done_steps k [ev] - done_steps k evs"
    by fastforce
  moreover have "done_steps k (ev # evs) = done_steps k [ev] + done_steps k evs" by (simp add: done_steps_def)
  ultimately show ?case by simp
qed

definition ended_inv :: "peer_world \<Rightarrow> bool" where
  "ended_inv w \<longleftrightarrow> (pw_reader w = RdEnded \<longrightarrow> cl_done (pw_peer w))"

lemma ended_step: "ended_inv w \<Longrightarrow> ended_inv (peer_step w ev)"
proof (cases ev)
  case (ReaderStep rr)
  assume "ended_inv w"
  with ReaderStep show ?thesis
    by (cases "pw_reader w")
      (auto simp: ended_inv_def peer_step_def push_def deliver_lookup_def split: recv_result.splits routed.splits if_splits option.splits prod.splits)
qed (auto simp: ended_inv_def dest: done_stays, auto simp: peer_step_def split: prod.splits consumer_pc.splits if_splits)

interpretation endings: guarded_machine peer_step "\<lambda>_ _. True" ended_inv
  by unfold_locales (rule ended_step)

text \<open>
  C31: Once the reader has ended no call hangs: five steps of a call in which its \<open>select\<close> may take the
  done case make it return, whatever else happens in between.
\<close>

theorem calls_return_after_end:
  assumes "pw_reader (run_peer evs) = RdEnded" and "k < length (pw_calls (run_peer evs))" and "5 \<le> done_steps k evs'"
  shows "\<exists>i r. pw_calls (run_peer (evs @ evs')) ! k = CReturned i r"
proof -
  have "ended_inv new_world" by (simp add: ended_inv_def new_world_def)
  then have "ended_inv (run_peer evs)" unfolding run_peer_def by (rule endings.run_inv) (simp add: endings.admitted_all)
  with assms(1) have "cl_done (pw_peer (run_peer evs))" by (simp add: ended_inv_def)
  from rank_run[OF assms(2) this, of evs'] assms(3) have "call_rank (pw_calls (run_peer (evs @ evs')) ! k) = 0"
    by (cases "pw_calls (run_peer evs) ! k") (simp_all add: run_peer_def)
  then show ?thesis by (cases "pw_calls (run_peer (evs @ evs')) ! k") auto
qed


theorem calls_return_after_end_witness:
  "\<exists>i r. pw_calls (run_peer ((rpc_asked0 @ replicate 6 (ReaderStep (RecvErr EOF))) @ replicate 5 (CallStep 0 (rpc0 PickDone)))) ! 0 = CReturned i r"
proof (rule calls_return_after_end)
  let ?w = "run_peer (rpc_asked0 @ replicate 6 (ReaderStep (RecvErr EOF)))"
  show "pw_reader ?w = RdEnded" "0 < length (pw_calls ?w)"
    by (simp_all add: run_peer_def rpc_asked0_def new_world_def NewPeer_def peer_step_def Client_fail_def rpc0_def Let_def eval_nat_numeral)
  show "5 \<le> done_steps 0 (replicate 5 (CallStep 0 (rpc0 PickDone)))" by (simp add: done_steps_def rpc0_def)
qed

end
