(* ===== verification/Client_Notes.thy ===== *)
theory Client_Notes
  imports Peer_Inv
begin

text \<open>
  The notifications of a client that reads its own connection, the rest of
  \<open>internal/protocol/client.go\<close>: the reader appends them to an unbounded queue, the drain goroutine moves
  them into the buffered channel of \<open>Notifications\<close>, and \<open>Close\<close> makes it give up. Nothing is lost or
  reordered as long as the client is not closed.
\<close>

section \<open>Routing\<close>

datatype client_routed = ClientSkip | ClientNote bytes bytes | ClientRefuse bytes | ClientResponse Response

text \<open>What \<open>read\<close> does with a message: queue a notification, refuse a request, deliver a response.\<close>

definition client_route :: "bytes \<Rightarrow> client_routed" where
  "client_route raw =
     (case Option.bind (json_parse raw) decode_incoming of
        None \<Rightarrow> ClientSkip
      | Some m \<Rightarrow>
          if in_Method m \<noteq> [] \<and> in_ID m = [] then ClientNote (in_Method m) (in_Params m)
          else if in_Method m \<noteq> [] then ClientRefuse (in_ID m)
          else ClientResponse \<lparr>rs_ID = in_ID m, rs_Result = in_Result m, rs_Error = in_Error m\<rparr>)"

section \<open>The goroutines\<close>

type_synonym Notification = "bytes \<times> bytes"

definition notes_cap :: nat where
  "notes_cap = 256"

datatype drain_pc = DrLook | DrSend Notification | DrEnded

text \<open>
  The queue, whether the reader has finished, whether \<open>Close\<close> ran, the channel's buffer and whether it is
  closed; the history has the notifications that arrived and those the consumer received.
\<close>

record note_queue =
  nt_queue :: "Notification list"
  nt_readDone :: bool
  nt_closed :: bool
  nt_buffer :: "Notification list"
  nt_pc :: drain_pc
  nt_arrived :: "Notification list"
  nt_received :: "Notification list"

definition new_notes :: note_queue where
  "new_notes = \<lparr>nt_queue = [], nt_readDone = False, nt_closed = False, nt_buffer = [], nt_pc = DrLook, nt_arrived = [], nt_received = []\<rparr>"

text \<open>
  \<open>drain\<close>: the critical section (waiting while there is nothing to do), then the \<open>select\<close> between the
  channel, when it has room, and \<open>closed\<close>; \<open>give_up\<close> is the case it takes when both are ready.
\<close>

definition drain_step :: "bool \<Rightarrow> note_queue \<Rightarrow> note_queue" where
  "drain_step give_up n =
     (case nt_pc n of
        DrLook \<Rightarrow>
          (case nt_queue n of
             x # q \<Rightarrow> n\<lparr>nt_queue := q, nt_pc := DrSend x\<rparr>
           | [] \<Rightarrow> if nt_readDone n then n\<lparr>nt_pc := DrEnded\<rparr> else n)
      | DrSend x \<Rightarrow>
          if nt_closed n \<and> give_up then n\<lparr>nt_pc := DrEnded\<rparr>
          else if length (nt_buffer n) < notes_cap then n\<lparr>nt_buffer := nt_buffer n @ [x], nt_pc := DrLook\<rparr>
          else n
      | DrEnded \<Rightarrow> n)"

datatype notes_event = NoteArrives Notification | ReadFinished | DrainStep bool | NoteReceived | ClientClosed

definition notes_step :: "note_queue \<Rightarrow> notes_event \<Rightarrow> note_queue" where
  "notes_step n ev =
     (case ev of
        NoteArrives x \<Rightarrow> if nt_readDone n then n else n\<lparr>nt_queue := nt_queue n @ [x], nt_arrived := nt_arrived n @ [x]\<rparr>
      | ReadFinished \<Rightarrow> n\<lparr>nt_readDone := True\<rparr>
      | DrainStep b \<Rightarrow> drain_step b n
      | NoteReceived \<Rightarrow>
          (case nt_buffer n of [] \<Rightarrow> n | x # b \<Rightarrow> n\<lparr>nt_buffer := b, nt_received := nt_received n @ [x]\<rparr>)
      | ClientClosed \<Rightarrow> n\<lparr>nt_closed := True\<rparr>)"

section \<open>Order\<close>

definition in_hand :: "drain_pc \<Rightarrow> Notification list" where
  "in_hand pc = (case pc of DrSend x \<Rightarrow> [x] | _ \<Rightarrow> [])"

text \<open>
  What was received, buffered, in the drain's hand and queued is what arrived; once the drain has ended
  it is a prefix of it, and all of it when the client was not closed.
\<close>

definition notes_inv :: "note_queue \<Rightarrow> bool" where
  "notes_inv n \<longleftrightarrow>
     (nt_pc n \<noteq> DrEnded \<longrightarrow> nt_received n @ nt_buffer n @ in_hand (nt_pc n) @ nt_queue n = nt_arrived n) \<and>
     prefix (nt_received n @ nt_buffer n) (nt_arrived n) \<and>
     (nt_pc n = DrEnded \<longrightarrow> nt_closed n \<or> nt_readDone n \<and> nt_received n @ nt_buffer n = nt_arrived n) \<and>
     length (nt_buffer n) \<le> notes_cap"

lemma notes_inv_step: "notes_inv n \<Longrightarrow> notes_inv (notes_step n ev)"
proof (cases ev)
  case (NoteArrives x)
  assume "notes_inv n"
  with NoteArrives show ?thesis by (auto simp: notes_inv_def notes_step_def intro: prefix_order.trans)
next
  case (DrainStep b)
  assume inv: "notes_inv n"
  show ?thesis
  proof (cases "nt_pc n")
    case DrLook
    with inv DrainStep show ?thesis
      by (cases "nt_queue n") (auto simp: notes_inv_def notes_step_def drain_step_def in_hand_def)
  next
    case (DrSend x)
    then have arr: "nt_received n @ nt_buffer n @ x # nt_queue n = nt_arrived n" using inv by (simp add: notes_inv_def in_hand_def)
    have "prefix (nt_received n @ nt_buffer n @ [x]) (nt_arrived n)" unfolding arr[symmetric] by simp
    with inv DrSend DrainStep arr show ?thesis
      by (auto simp: notes_inv_def notes_step_def drain_step_def in_hand_def)
  qed (use inv DrainStep in \<open>simp add: notes_step_def drain_step_def\<close>)
next
  case NoteReceived
  assume "notes_inv n"
  with NoteReceived show ?thesis by (auto simp: notes_inv_def notes_step_def split: list.splits)
qed (auto simp: notes_inv_def notes_step_def)

interpretation notifications: guarded_machine notes_step "\<lambda>_ _. True" notes_inv
  by unfold_locales (rule notes_inv_step)

lemma run_notes_inv: "notes_inv (run_ops notes_step new_notes evs)"
  by (rule notifications.run_inv) (simp_all add: notes_inv_def new_notes_def in_hand_def notifications.admitted_all)

text \<open>
  In every schedule the consumer of a client's notifications sees a prefix of those that arrived, in
  order; when the drain has ended, all of them are received or in the channel's buffer unless the client
  was closed; and the buffer never exceeds its 256 places.
\<close>

theorem notifications_in_order:
  "prefix (nt_received (run_ops notes_step new_notes evs)) (nt_arrived (run_ops notes_step new_notes evs)) \<and>
   (nt_pc (run_ops notes_step new_notes evs) \<noteq> DrEnded \<or> nt_closed (run_ops notes_step new_notes evs) \<or>
    nt_received (run_ops notes_step new_notes evs) @ nt_buffer (run_ops notes_step new_notes evs) = nt_arrived (run_ops notes_step new_notes evs)) \<and>
   length (nt_buffer (run_ops notes_step new_notes evs)) \<le> notes_cap"
  using run_notes_inv[of evs] append_prefixD unfolding notes_inv_def by blast

end
