(* ===== verification/Blobs.thy ===== *)
theory Blobs
  imports Go_Text
begin

text \<open>
  The content-addressed files of a session, \<open>internal/session/blobs.go\<close>. The directory is a map from
  names to contents; what the system calls of a \<open>Put\<close> answer is its \<open>put_env\<close>, and \<open>Put\<close> yields the
  directories it leaves after each of them, in order, so that a crash or another reader at any point is
  a case of the model. \<open>sha\<close> is \<open>sha256.Sum256\<close>: nothing below depends on which function it is, only
  on its 32 bytes.
\<close>

type_synonym dir = "bytes \<rightharpoonup> bytes"

datatype blob_error = InvalidSHA | PutFailed | GetFailed

section \<open>Names\<close>

definition hex_digit :: "nat \<Rightarrow> char" where
  "hex_digit n = (if n < 10 then char_of (48 + n) else char_of (87 + n))"

text \<open>\<open>hex.EncodeToString\<close>.\<close>

definition hex_encode :: "bytes \<Rightarrow> bytes" where
  "hex_encode s = concat (map (\<lambda>c. [hex_digit (byte c div 16), hex_digit (byte c mod 16)]) s)"

definition isSHA256Hex :: "bytes \<Rightarrow> bool" where
  "isSHA256Hex s \<longleftrightarrow> length s = 64 \<and> list_all (\<lambda>c. 48 \<le> byte c \<and> byte c \<le> 57 \<or> 97 \<le> byte c \<and> byte c \<le> 102) s"

definition blob_name :: "(bytes \<Rightarrow> bytes) \<Rightarrow> bytes \<Rightarrow> bytes" where
  "blob_name sha data = hex_encode (sha data)"

section \<open>Put and Get\<close>

text \<open>
  The outcomes of the system calls: the random part of the temporary name (\<open>None\<close> when \<open>CreateTemp\<close>
  fails), how many bytes a failed write wrote, whether sync, close, rename and the removal of the
  temporary file succeed, and whether \<open>Stat\<close> answers at all.
\<close>

record put_env =
  be_stat :: bool
  be_temp :: "bytes option"
  be_write :: "nat option"
  be_sync :: bool
  be_close :: bool
  be_rename :: bool
  be_remove :: bool

definition temp_name :: "bytes \<Rightarrow> bytes" where
  "temp_name r = ''put-'' @ r"

text \<open>The directory after a failure: the temporary file is removed if that works.\<close>

definition drop_temp :: "put_env \<Rightarrow> bytes \<Rightarrow> dir \<Rightarrow> dir" where
  "drop_temp ev t d = (if be_remove ev then d(t := None) else d)"

definition Put :: "(bytes \<Rightarrow> bytes) \<Rightarrow> put_env \<Rightarrow> dir \<Rightarrow> bytes \<Rightarrow> dir list \<times> (blob_error, bytes) result" where
  "Put sha ev d data =
     (let name = blob_name sha data in
      if be_stat ev \<and> d name \<noteq> None then ([d], Inr name)
      else
        (case be_temp ev of
           None \<Rightarrow> ([d], Inl PutFailed)
         | Some r \<Rightarrow>
             (let t = temp_name r; d1 = d(t \<mapsto> []) in
              case be_write ev of
                Some n \<Rightarrow> (let d2 = d1(t \<mapsto> take n data) in ([d, d1, d2, drop_temp ev t d2], Inl PutFailed))
              | None \<Rightarrow>
                  (let d2 = d1(t \<mapsto> data) in
                   if \<not> be_sync ev \<or> \<not> be_close ev \<or> \<not> be_rename ev then ([d, d1, d2, drop_temp ev t d2], Inl PutFailed)
                   else ([d, d1, d2, (d2(t := None))(name \<mapsto> data)], Inr name)))))"

definition Get :: "dir \<Rightarrow> bytes \<Rightarrow> (blob_error, bytes) result" where
  "Get d name =
     (if \<not> isSHA256Hex name then Inl InvalidSHA
      else case d name of None \<Rightarrow> Inl GetFailed | Some data \<Rightarrow> Inr data)"

section \<open>What the directory holds\<close>

text \<open>Every blob hashes to its name.\<close>

definition blobs_ok :: "(bytes \<Rightarrow> bytes) \<Rightarrow> dir \<Rightarrow> bool" where
  "blobs_ok sha d \<longleftrightarrow> (\<forall>n c. d n = Some c \<longrightarrow> isSHA256Hex n \<longrightarrow> n = blob_name sha c)"

lemma hex_digit_byte: "n < 16 \<Longrightarrow> 48 \<le> byte (hex_digit n) \<and> byte (hex_digit n) \<le> 57 \<or> 97 \<le> byte (hex_digit n) \<and> byte (hex_digit n) \<le> 102"
  by (auto simp: hex_digit_def)

lemma hex_encode_hex: "length s = 32 \<Longrightarrow> isSHA256Hex (hex_encode s)"
proof -
  assume l: "length s = 32"
  have "length (hex_encode s) = 2 * length s" by (induction s) (simp_all add: hex_encode_def)
  moreover have "list_all (\<lambda>c. 48 \<le> byte c \<and> byte c \<le> 57 \<or> 97 \<le> byte c \<and> byte c \<le> 102) (hex_encode s)"
  proof (induction s)
    case (Cons c s)
    have "byte c < 16 * 16" by simp
    then have "byte c div 16 < 16" "byte c mod 16 < 16" by (simp_all add: less_mult_imp_div_less)
    from this[THEN hex_digit_byte] Cons show ?case by (simp add: hex_encode_def)
  qed (simp add: hex_encode_def)
  ultimately show ?thesis using l by (simp add: isSHA256Hex_def)
qed

lemma temp_not_hex: "\<not> isSHA256Hex (temp_name r)"
  by (simp add: temp_name_def isSHA256Hex_def)

lemma hex_ne_temp: "isSHA256Hex n \<Longrightarrow> n \<noteq> temp_name r"
  using temp_not_hex by blast


lemma blobs_ok_temp: "blobs_ok sha d \<Longrightarrow> blobs_ok sha (d(temp_name r := x))"
  using temp_not_hex by (auto simp: blobs_ok_def)

lemma blobs_ok_drop: "blobs_ok sha d \<Longrightarrow> blobs_ok sha (drop_temp ev (temp_name r) d)"
  by (simp add: drop_temp_def blobs_ok_temp)

lemma blobs_ok_put: "blobs_ok sha d \<Longrightarrow> blobs_ok sha (d(blob_name sha c \<mapsto> c))"
  by (auto simp: blobs_ok_def)

text \<open>What every directory a \<open>Put\<close> passes through keeps of the one before it.\<close>

definition kept :: "(bytes \<Rightarrow> bytes) \<Rightarrow> dir \<Rightarrow> dir \<Rightarrow> bool" where
  "kept sha d d' \<longleftrightarrow> (\<forall>n. isSHA256Hex n \<longrightarrow> d n \<noteq> None \<longrightarrow> d' n = d n \<or> d' n \<noteq> None \<and> blob_name sha (the (d' n)) = n)"

lemma kept_temp: "kept sha d d' \<Longrightarrow> kept sha d (d'(temp_name r := x))"
  using hex_ne_temp by (auto simp: kept_def)

lemma kept_refl: "kept sha d d"
  by (simp add: kept_def)

lemma kept_put: "kept sha d d' \<Longrightarrow> kept sha d (d'(blob_name sha c \<mapsto> c))"
  by (auto simp: kept_def)

lemmas put_states = blobs_ok_temp blobs_ok_drop blobs_ok_put kept_temp kept_refl kept_put

text \<open>
  C38: Blobs are written atomically: whatever system call of a \<open>Put\<close> fails and wherever a crash stops it
  between them (what was written is taken to stay written), every blob a reader can name is whole and hashes to its name, and none is lost. When \<open>Put\<close> returns a
  name, \<open>Get\<close> of that name answers content with the hash of the data, the data itself when the
  blob was new.
\<close>

theorem blob_put_atomic:
  assumes "\<forall>x. length (sha x) = 32" and "blobs_ok sha d" and "Put sha ev d data = (ds, r)"
  shows "(\<forall>d'\<in>set ds. blobs_ok sha d' \<and> kept sha d d') \<and>
    (r = Inl PutFailed \<or>
     r = Inr (blob_name sha data) \<and>
     (\<exists>c. Get (last ds) (blob_name sha data) = Inr c \<and> blob_name sha c = blob_name sha data \<and>
       (d (blob_name sha data) = None \<longrightarrow> c = data)))"
proof -
  have hex: "isSHA256Hex (blob_name sha data)" using assms(1) by (simp add: blob_name_def hex_encode_hex)
  show ?thesis
  proof (cases "be_stat ev \<and> d (blob_name sha data) \<noteq> None")
    case True
    then obtain c where "d (blob_name sha data) = Some c" by blast
    with True hex assms(2,3) show ?thesis by (auto simp: Put_def Let_def Get_def put_states blobs_ok_def)
  next
    case False
    with hex assms(2,3) show ?thesis
      by (auto simp: Put_def Let_def Get_def put_states drop_temp_def split: option.splits if_splits)
  qed
qed

definition sha_toy :: "bytes \<Rightarrow> bytes" where
  "sha_toy s = take 32 (s @ replicate 32 (CHR ''x''))"

definition put0 :: put_env where
  "put0 = \<lparr>be_stat = True, be_temp = Some ''7'', be_write = None, be_sync = True, be_close = True, be_rename = True, be_remove = True\<rparr>"

theorem blob_put_atomic_witness:
  "\<exists>c. Get (last (fst (Put sha_toy put0 Map.empty ''png''))) (blob_name sha_toy ''png'') = Inr c \<and> c = ''png''"
proof -
  have "\<forall>x. length (sha_toy x) = 32" "blobs_ok sha_toy Map.empty" by (auto simp: sha_toy_def blobs_ok_def min_def)
  from blob_put_atomic[OF this prod.collapse[symmetric], of put0 "''png''"] show ?thesis
    by (simp add: Put_def put0_def Let_def)
qed

end
