(* ===== verification/Runtime_Links.thy ===== *)
theory Runtime_Links
  imports Samples
begin

text \<open>
  The file that binds a session to a runtime's thread, \<open>internal/session/runtime_link.go\<close>. The TOML
  package is a parameter; the files are a map from session ids to their bytes. What the file system
  answers is the environment of a call. \<open>Write\<close> is its check and its store in one, as the mutex makes
  them for the callers of one \<open>RuntimeLinkStore\<close>; two stores over the same directory interleave them.
\<close>

record RuntimeLink =
  rl_Runtime :: bytes
  rl_ThreadID :: bytes

record toml_lib =
  tm_Marshal :: "RuntimeLink \<Rightarrow> bytes option"
  tm_Decode :: "bytes \<Rightarrow> RuntimeLink option"

text \<open>The TOML package reads back what it wrote.\<close>

definition toml_ok :: "toml_lib \<Rightarrow> bool" where
  "toml_ok T \<longleftrightarrow> (\<forall>l b. tm_Marshal T l = Some b \<longrightarrow> tm_Decode T b = Some l)"

type_synonym link_files = "ulid \<rightharpoonup> bytes"

datatype link_error = LinkNotFound | LinkRead | LinkDecode | LinkInvalid | LinkConflict | LinkNoID | LinkIO

datatype dir_listing = NoRoot | ListFails | Names "(bytes \<times> bool) list"

record link_env =
  le_unreadable :: "ulid \<Rightarrow> bool"
  le_list :: dir_listing
  le_mkdir :: bool
  le_temp :: bool
  le_chmod :: bool
  le_write :: bool
  le_sync :: bool
  le_close :: bool
  le_rename :: bool
  le_dirsync :: bool

definition RuntimeLink_validate :: "RuntimeLink \<Rightarrow> bool" where
  "RuntimeLink_validate l \<longleftrightarrow> rl_Runtime l \<noteq> [] \<and> rl_ThreadID l \<noteq> []"

definition Link_Read :: "toml_lib \<Rightarrow> link_env \<Rightarrow> link_files \<Rightarrow> ulid \<Rightarrow> (link_error, RuntimeLink) result" where
  "Link_Read T ev fs i =
     (if le_unreadable ev i then Inl LinkRead
      else case fs i of
        None \<Rightarrow> Inl LinkNotFound
      | Some body \<Rightarrow>
          (case tm_Decode T body of
             None \<Rightarrow> Inl LinkDecode
           | Some l \<Rightarrow> if RuntimeLink_validate l then Inr l else Inl LinkInvalid))"

fun reject_loop :: "ulid_lib \<Rightarrow> toml_lib \<Rightarrow> link_env \<Rightarrow> link_files \<Rightarrow> ulid \<Rightarrow> RuntimeLink \<Rightarrow> (bytes \<times> bool) list \<Rightarrow> link_error option" where
  "reject_loop U T ev fs i l [] = None"
| "reject_loop U T ev fs i l ((name, isdir) # ns) =
     (if \<not> isdir \<or> name = ulid_String U i then reject_loop U T ev fs i l ns
      else
        (case ulid_ParseStrict U name of
           None \<Rightarrow> reject_loop U T ev fs i l ns
         | Some other \<Rightarrow>
             (case Link_Read T ev fs other of
                Inl LinkNotFound \<Rightarrow> reject_loop U T ev fs i l ns
              | Inl e \<Rightarrow> Some e
              | Inr l' \<Rightarrow> if l' = l then Some LinkConflict else reject_loop U T ev fs i l ns)))"

definition rejectDuplicate :: "ulid_lib \<Rightarrow> toml_lib \<Rightarrow> link_env \<Rightarrow> link_files \<Rightarrow> ulid \<Rightarrow> RuntimeLink \<Rightarrow> link_error option" where
  "rejectDuplicate U T ev fs i l =
     (case le_list ev of
        NoRoot \<Rightarrow> None
      | ListFails \<Rightarrow> Some LinkIO
      | Names ns \<Rightarrow> reject_loop U T ev fs i l ns)"

text \<open>The first half of \<open>Write\<close>: \<open>Inr True\<close> when the link is to be stored, \<open>Inr False\<close> when it is there already.\<close>

definition write_check :: "ulid_lib \<Rightarrow> toml_lib \<Rightarrow> link_env \<Rightarrow> link_files \<Rightarrow> ulid \<Rightarrow> RuntimeLink \<Rightarrow> (link_error, bool) result" where
  "write_check U T ev fs i l =
     (if i = 0 then Inl LinkNoID
      else if \<not> RuntimeLink_validate l then Inl LinkInvalid
      else
        (case Link_Read T ev fs i of
           Inr existing \<Rightarrow> if existing = l then Inr False else Inl LinkConflict
         | Inl LinkNotFound \<Rightarrow> (case rejectDuplicate U T ev fs i l of Some e \<Rightarrow> Inl e | None \<Rightarrow> Inr True)
         | Inl e \<Rightarrow> Inl e))"

text \<open>
  The second half: the file appears with the rename; a failure to sync the directory after it is
  reported although the link is in place.
\<close>

definition write_store :: "toml_lib \<Rightarrow> link_env \<Rightarrow> link_files \<Rightarrow> ulid \<Rightarrow> RuntimeLink \<Rightarrow> link_files \<times> link_error option" where
  "write_store T ev fs i l =
     (if \<not> le_mkdir ev then (fs, Some LinkIO)
      else
        (case tm_Marshal T l of
           None \<Rightarrow> (fs, Some LinkIO)
         | Some body \<Rightarrow>
             if \<not> (le_temp ev \<and> le_chmod ev \<and> le_write ev \<and> le_sync ev \<and> le_close ev \<and> le_rename ev) then (fs, Some LinkIO)
             else (fs(i \<mapsto> body), if le_dirsync ev then None else Some LinkIO)))"

definition Link_Write :: "ulid_lib \<Rightarrow> toml_lib \<Rightarrow> link_env \<Rightarrow> link_files \<Rightarrow> ulid \<Rightarrow> RuntimeLink \<Rightarrow> link_files \<times> link_error option" where
  "Link_Write U T ev fs i l =
     (case write_check U T ev fs i l of
        Inl e \<Rightarrow> (fs, Some e)
      | Inr store \<Rightarrow> if store then write_store T ev fs i l else (fs, None))"

section \<open>Bindings\<close>

definition link_of :: "toml_lib \<Rightarrow> link_files \<Rightarrow> ulid \<Rightarrow> RuntimeLink option" where
  "link_of T fs i = Option.bind (fs i) (tm_Decode T)"

text \<open>The listing names every session directory that holds a link.\<close>

definition complete_listing :: "ulid_lib \<Rightarrow> link_env \<Rightarrow> link_files \<Rightarrow> bool" where
  "complete_listing U ev fs \<longleftrightarrow>
     (\<exists>ns. le_list ev = Names ns \<and> (\<forall>j. fs j \<noteq> None \<longrightarrow> (ulid_String U j, True) \<in> set ns)) \<or>
     le_list ev = ListFails \<or> le_list ev = NoRoot \<and> fs = Map.empty"

definition ulid_names :: "ulid_lib \<Rightarrow> bool" where
  "ulid_names U \<longleftrightarrow> (\<forall>j. ulid_ParseStrict U (ulid_String U j) = Some j)"

inductive bound_links :: "ulid_lib \<Rightarrow> toml_lib \<Rightarrow> link_files \<Rightarrow> bool" for U T where
  no_links: "bound_links U T Map.empty"
| bound: "bound_links U T fs \<Longrightarrow> complete_listing U ev fs \<Longrightarrow> Link_Write U T ev fs i l = (fs', r) \<Longrightarrow> bound_links U T fs'"

lemma reject_loop_None:
  assumes "reject_loop U T ev fs i l ns = None" and "(ulid_String U j, True) \<in> set ns" and "ulid_names U" and "j \<noteq> i" and "fs j \<noteq> None"
  shows "\<exists>l'. link_of T fs j = Some l' \<and> l' \<noteq> l"
  using assms(1,2)
proof (induction ns)
  case (Cons n ns)
  obtain name isdir where n: "n = (name, isdir)" by force
  have ne: "ulid_String U j \<noteq> ulid_String U i" using assms(3,4) by (metis option.inject ulid_names_def)
  show ?case
  proof (cases "name = ulid_String U j \<and> isdir")
    case True
    with Cons.prems(1) ne assms(3,5) show ?thesis
      by (auto simp: n ulid_names_def Link_Read_def link_of_def split: if_splits option.splits sum.splits link_error.splits)
  next
    case False
    with Cons.prems(2) have "(ulid_String U j, True) \<in> set ns" by (auto simp: n)
    moreover have "reject_loop U T ev fs i l ns = None"
      using Cons.prems(1) by (auto simp: n split: if_splits option.splits sum.splits link_error.splits)
    ultimately show ?thesis using Cons.IH by blast
  qed
qed simp

lemma write_check_True:
  assumes "write_check U T ev fs i l = Inr True"
  shows "fs i = None \<and> rejectDuplicate U T ev fs i l = None \<and> RuntimeLink_validate l \<and> i \<noteq> 0"
  using assms by (auto simp: write_check_def Link_Read_def split: if_split_asm option.split_asm)

lemma write_store_files:
  assumes "write_store T ev fs i l = (fs', r)"
  shows "fs' = fs \<or> (\<exists>body. tm_Marshal T l = Some body \<and> fs' = fs(i \<mapsto> body))"
  using assms by (auto simp: write_store_def split: if_split_asm option.split_asm)

lemma Link_Write_cases:
  assumes "Link_Write U T ev fs i l = (fs', r)"
  obtains (same) "fs' = fs"
  | (stored) body where "fs i = None" "rejectDuplicate U T ev fs i l = None" "tm_Marshal T l = Some body" "fs' = fs(i \<mapsto> body)"
      "RuntimeLink_validate l"
proof (cases "write_check U T ev fs i l = Inr True")
  case True
  with assms have "write_store T ev fs i l = (fs', r)" by (simp add: Link_Write_def)
  from write_store_files[OF this] write_check_True[OF True] that show ?thesis by blast
next
  case False
  with assms have "fs' = fs" by (simp add: Link_Write_def split: sum.splits if_splits)
  then show ?thesis by (rule same)
qed

lemma bound_unique:
  assumes "bound_links U T fs" and "toml_ok T" and "ulid_names U"
  shows "(\<forall>a b l. link_of T fs a = Some l \<longrightarrow> link_of T fs b = Some l \<longrightarrow> a = b) \<and> (\<forall>a. fs a \<noteq> None \<longrightarrow> link_of T fs a \<noteq> None)"
  using assms(1)
proof (induction rule: bound_links.induct)
  case no_links
  then show ?case by (simp add: link_of_def)
next
  case (bound fs ev i l fs' r)
  from bound(3) show ?case
  proof (cases rule: Link_Write_cases)
    case same
    with bound(4) show ?thesis by simp
  next
    case (stored body)
    have new: "link_of T fs' i = Some l" using stored assms(2) by (auto simp: link_of_def toml_ok_def)
    have old: "link_of T fs' j = link_of T fs j" if "j \<noteq> i" for j using that stored by (simp add: link_of_def)
    have "link_of T fs j \<noteq> Some l" if "j \<noteq> i" for j
    proof (cases "fs j = None")
      case False
      with bound(2) stored(2) obtain ns where "reject_loop U T ev fs i l ns = None" "(ulid_String U j, True) \<in> set ns"
        by (auto simp: complete_listing_def rejectDuplicate_def split: dir_listing.splits)
      from reject_loop_None[OF this assms(3) that False] show ?thesis by auto
    qed (simp add: link_of_def)
    with new old bound(4) show ?thesis by (metis option.distinct(1) option.inject stored(4) fun_upd_other)
  qed
qed


text \<open>
  C39: No thread is bound twice: however often links are written, whatever fails on the way, two
  sessions never hold the same runtime and thread, as long as the directory listing a write sees is
  complete and writes do not overlap.
\<close>

theorem runtime_links_unique:
  assumes "bound_links U T fs" and "toml_ok T" and "ulid_names U" and "link_of T fs a = Some l" and "link_of T fs b = Some l"
  shows "a = b"
  using bound_unique[OF assms(1-3)] assms(4,5) by blast

definition toml0 :: toml_lib where
  "toml0 = \<lparr>tm_Marshal = (\<lambda>l. if c_nl \<in> set (rl_Runtime l) then None else Some (rl_Runtime l @ c_nl # rl_ThreadID l)),
     tm_Decode = (\<lambda>b. if c_nl \<in> set b
        then Some \<lparr>rl_Runtime = takeWhile (\<lambda>c. c \<noteq> c_nl) b, rl_ThreadID = tl (dropWhile (\<lambda>c. c \<noteq> c_nl) b)\<rparr> else None)\<rparr>"

definition disk0 :: "dir_listing \<Rightarrow> link_env" where
  "disk0 ls = \<lparr>le_unreadable = (\<lambda>_. False), le_list = ls, le_mkdir = True, le_temp = True, le_chmod = True, le_write = True,
     le_sync = True, le_close = True, le_rename = True, le_dirsync = True\<rparr>"

definition thread0 :: RuntimeLink where
  "thread0 = \<lparr>rl_Runtime = ''codex'', rl_ThreadID = ''t''\<rparr>"

definition show_ulids :: ulid_lib where
  "show_ulids = \<lparr>ulid_String = show_nat, ulid_ParseStrict = (\<lambda>s. Some (nat_of_digits 0 s)), ulid_UnmarshalText = (\<lambda>s. Some (nat_of_digits 0 s))\<rparr>"

lemma toml0_ok: "toml_ok toml0"
  by (auto simp: toml_ok_def toml0_def takeWhile_append dropWhile_append split: if_splits)

lemma show_ulids_ok: "ulid_names show_ulids"
  by (simp add: ulid_names_def show_ulids_def)

definition one_link :: link_files where
  "one_link = [1 \<mapsto> ''codex'' @ c_nl # ''t'']"

lemma one_link_bound: "bound_links show_ulids toml0 one_link"
proof (rule bound_links.bound[OF bound_links.no_links])
  show "complete_listing show_ulids (disk0 NoRoot) Map.empty" by (simp add: complete_listing_def disk0_def)
  show "Link_Write show_ulids toml0 (disk0 NoRoot) Map.empty 1 thread0 = (one_link, None)"
    by (simp add: Link_Write_def write_check_def write_store_def Link_Read_def rejectDuplicate_def disk0_def thread0_def toml0_def
        RuntimeLink_validate_def one_link_def)
qed

theorem runtime_links_unique_witness:
  "link_of toml0 one_link 1 = Some thread0 \<and> link_of toml0 one_link 2 \<noteq> Some thread0"
proof -
  have l: "link_of toml0 one_link 1 = Some thread0" by (simp add: link_of_def one_link_def toml0_def thread0_def)
  have "link_of toml0 one_link 2 \<noteq> Some thread0"
  proof
    assume "link_of toml0 one_link 2 = Some thread0"
    from runtime_links_unique[OF one_link_bound toml0_ok show_ulids_ok l this] show False by simp
  qed
  with l show ?thesis by simp
qed

text \<open>
  The mutex belongs to one \<open>RuntimeLinkStore\<close>, and \<open>Store.RuntimeLinks\<close> makes a new one for every
  call. Two writes through two of them can interleave: both checks pass before either stores, and one
  thread is bound to two sessions.
\<close>

theorem runtime_link_race:
  assumes "a \<noteq> 0" and "b \<noteq> 0" and "a \<noteq> b" and "RuntimeLink_validate l" and "tm_Marshal T l = Some body" and "toml_ok T"
  shows "\<exists>ev fs1 fs2. write_check U T ev Map.empty a l = Inr True \<and> write_check U T ev Map.empty b l = Inr True \<and>
    write_store T ev Map.empty a l = (fs1, None) \<and> write_store T ev fs1 b l = (fs2, None) \<and>
    link_of T fs2 a = Some l \<and> link_of T fs2 b = Some l"
proof -
  have "tm_Decode T body = Some l" using assms(5,6) by (simp add: toml_ok_def)
  with assms show ?thesis
    by (intro exI[of _ "disk0 NoRoot"] exI[of _ "[a \<mapsto> body]"] exI[of _ "[a \<mapsto> body, b \<mapsto> body]"])
      (simp add: write_check_def write_store_def Link_Read_def rejectDuplicate_def disk0_def link_of_def)
qed

theorem runtime_link_race_witness:
  "\<exists>ev fs1 fs2. write_check show_ulids toml0 ev Map.empty 1 thread0 = Inr True \<and> write_check show_ulids toml0 ev Map.empty 2 thread0 = Inr True \<and>
    write_store toml0 ev Map.empty 1 thread0 = (fs1, None) \<and> write_store toml0 ev fs1 2 thread0 = (fs2, None) \<and>
    link_of toml0 fs2 1 = Some thread0 \<and> link_of toml0 fs2 2 = Some thread0"
  by (rule runtime_link_race[where body = "''codex'' @ c_nl # ''t''"])
    (simp_all add: toml0_ok RuntimeLink_validate_def thread0_def, simp add: toml0_def)

end
