(* ===== verification/Go_Path.thy ===== *)
theory Go_Path
  imports Go_Text
begin

text \<open>
  The lexical path functions of \<open>path/filepath\<close> on Unix, and the trimming of white space at both ends
  of a text, as the readers of prompt and definition files use them.
\<close>

section \<open>Trimming\<close>

text \<open>\<open>strings.TrimRightFunc(s, unicode.IsSpace)\<close>: the last rune is cut while it is white space.\<close>

definition last_space :: "bytes \<Rightarrow> nat" where
  "last_space s =
     (case filter (\<lambda>k. k \<le> length s \<and> space_len (drop (length s - k) s) = k) [1, 2, 3] of
        [] \<Rightarrow> 0
      | k # _ \<Rightarrow> k)"

lemma last_space_le: "last_space s \<le> length s"
proof (cases "filter (\<lambda>k. k \<le> length s \<and> space_len (drop (length s - k) s) = k) [1, 2, 3]")
  case (Cons k ks)
  then have "k \<in> set (filter (\<lambda>k. k \<le> length s \<and> space_len (drop (length s - k) s) = k) [1, 2, 3])" by simp
  then have "k \<le> length s" by (simp only: set_filter mem_Collect_eq)
  with Cons show ?thesis by (simp add: last_space_def)
qed (simp add: last_space_def)

function trim_right_space :: "bytes \<Rightarrow> bytes" where
  "trim_right_space s = (if last_space s = 0 then s else trim_right_space (take (length s - last_space s) s))"
  by pat_completeness auto

termination
proof (relation "measure length")
  show "(take (length s - last_space s) s, s) \<in> measure length" if "last_space s \<noteq> 0" for s :: bytes
    using that last_space_le[of s] by simp
qed simp

declare trim_right_space.simps [simp del]

definition trim_space :: "bytes \<Rightarrow> bytes" where
  "trim_space s = trim_right_space (trim_left_space s)"

lemma trim_right_space_prefix: "prefix (trim_right_space s) s"
proof (induction s rule: trim_right_space.induct)
  case (1 s)
  show ?case
  proof (cases "last_space s = 0")
    case False
    with 1 have "prefix (trim_right_space s) (take (length s - last_space s) s)" by (subst trim_right_space.simps) simp
    then show ?thesis using take_is_prefix prefix_order.trans by blast
  qed (subst trim_right_space.simps, simp)
qed

lemma trim_right_space_end: "last_space (trim_right_space s) = 0"
proof (induction s rule: trim_right_space.induct)
  case (1 s)
  then show ?case by (cases "last_space s = 0") (subst trim_right_space.simps, simp)+
qed

section \<open>Paths\<close>

definition c_slash :: char where
  "c_slash = CHR ''/''"

fun path_elems :: "bytes \<Rightarrow> bytes list" where
  "path_elems [] = [[]]"
| "path_elems (c # s) =
     (if c = c_slash then [] # path_elems s
      else (case path_elems s of e # es \<Rightarrow> (c # e) # es | [] \<Rightarrow> [[c]]))"

text \<open>
  \<open>filepath.Clean\<close>: the elements kept so far, last first; an empty one and \<open>.\<close> are dropped, \<open>..\<close> takes
  the last one back unless there is none, where a rooted path drops it and a relative one keeps it.
\<close>

fun clean_elem :: "bool \<Rightarrow> bytes \<Rightarrow> bytes list \<Rightarrow> bytes list" where
  "clean_elem rooted e out =
     (if e = [] \<or> e = ''.'' then out
      else if e = ''..'' then
        (case out of
           [] \<Rightarrow> if rooted then [] else [''..'']
         | x # xs \<Rightarrow> if x = ''..'' then ''..'' # out else xs)
      else e # out)"

definition clean_elems :: "bool \<Rightarrow> bytes \<Rightarrow> bytes list" where
  "clean_elems rooted p = rev (fold (clean_elem rooted) (path_elems p) [])"

definition path_clean :: "bytes \<Rightarrow> bytes" where
  "path_clean p =
     (let rooted = has_prefix p [c_slash]; es = clean_elems rooted p in
      if es = [] then (if rooted then [c_slash] else ''.'')
      else (if rooted then [c_slash] else []) @ join [c_slash] es)"

text \<open>\<open>filepath.Join\<close>: leading empty elements are dropped, the rest is joined and cleaned.\<close>

definition path_join :: "bytes list \<Rightarrow> bytes" where
  "path_join es =
     (case dropWhile (\<lambda>e. e = []) es of [] \<Rightarrow> [] | xs \<Rightarrow> path_clean (join [c_slash] xs))"

lemma clean_elem_rooted:
  "''..'' \<notin> set out \<Longrightarrow> ''..'' \<notin> set (clean_elem True e out)"
  by (auto split: list.splits if_splits)

lemma clean_rooted_no_dotdot: "''..'' \<notin> set (clean_elems True p)"
proof -
  have "''..'' \<notin> set out \<Longrightarrow> ''..'' \<notin> set (fold (clean_elem True) es out)" for es out
  proof (induction es arbitrary: out)
    case (Cons e es)
    from Cons.IH[OF clean_elem_rooted[OF Cons.prems]] show ?case by simp
  qed simp
  then show ?thesis by (simp add: clean_elems_def)
qed

lemma path_join_samples:
  "path_join [''/home/u/proj/'', ''AGENTS.md''] = ''/home/u/proj/AGENTS.md''"
  "path_join [''/home/u'', ''.agents'', ''AGENTS.md''] = ''/home/u/.agents/AGENTS.md''"
  "path_join [''a//b/../c'', ''./x''] = ''a/c/x''"
  "path_join [''..'', ''..'', ''x''] = ''../../x''"
  "path_join [''/..'', ''x''] = ''/x''"
  "path_join [[], []] = []"
  by (simp_all add: path_join_def path_clean_def clean_elems_def c_slash_def has_prefix_def)

end
