(* ===== verification/Agent_Defs.thy ===== *)
theory Agent_Defs
  imports Entry Go_Path
begin

text \<open>
  Agent definitions: \<open>internal/frontmatter/frontmatter.go\<close> and \<open>internal/agentdef/agentdef.go\<close>. The YAML
  package is the parameter \<open>yaml\<close>, the header it reads from a text or its failure; the directories and
  files are the functions the reads are answered by.
\<close>

section \<open>Front matter\<close>

definition fence :: bytes where
  "fence = ''---'' @ [c_nl]"

datatype fence_error = ErrNoOpeningFence | ErrNoClosingFence

definition frontmatter_Split :: "bytes \<Rightarrow> (fence_error, bytes \<times> bytes) result" where
  "frontmatter_Split text' =
     (if \<not> has_prefix text' fence then Inl ErrNoOpeningFence
      else
        (let rest = drop (length fence) text' in
         case index_of rest (c_nl # fence) of
           Some i \<Rightarrow> Inr (take i rest, drop (i + length (c_nl # fence)) rest)
         | None \<Rightarrow>
             if has_suffix rest (c_nl # ''---'') then Inr (take (length rest - length (c_nl # ''---'')) rest, [])
             else Inl ErrNoClosingFence))"

text \<open>A text that splits is its header between the fences followed by its body.\<close>

lemma Split_parts:
  assumes "frontmatter_Split text' = Inr (head, body)"
  shows "text' = fence @ head @ c_nl # fence @ body \<or> body = [] \<and> text' = fence @ head @ c_nl # ''---''"
proof -
  from assms have "has_prefix text' fence" by (auto simp: frontmatter_Split_def Let_def split: if_splits)
  then obtain rest where rest: "text' = fence @ rest" by (auto simp: has_prefix_iff)
  show ?thesis
  proof (cases "index_of rest (c_nl # fence)")
    case None
    with assms rest have suf: "has_suffix rest (c_nl # ''---'')" "body = []"
        "head = take (length rest - length (c_nl # ''---'')) rest"
      by (simp_all add: frontmatter_Split_def Let_def split: if_splits)
    from suf(1) obtain h where "rest = h @ c_nl # ''---''" by (auto simp: has_suffix_iff)
    with suf rest show ?thesis by simp
  next
    case (Some i)
    with assms rest have p: "head = take i rest" "body = drop (i + length (c_nl # fence)) rest"
      by (simp_all add: frontmatter_Split_def Let_def)
    from index_of_Some[OF Some] obtain r where r: "drop i rest = (c_nl # fence) @ r" by (auto simp: has_prefix_iff)
    have "body = drop (length (c_nl # fence)) (drop i rest)" using p(2) by (simp add: add.commute)
    with r have "body = r" by simp
    with r p(1) have "rest = head @ c_nl # fence @ body" by (metis append_Cons append_take_drop_id)
    with rest show ?thesis by simp
  qed
qed

lemma index_of_first:
  assumes "\<And>k. k < n \<Longrightarrow> \<not> has_prefix (drop k s) p" and "has_prefix (drop n s) p" and "n \<le> length s"
  shows "index_of s p = Some n"
  using assms
proof (induction n arbitrary: s)
  case 0
  then show ?case by (cases s) (auto simp: has_prefix_def)
next
  case (Suc n)
  from Suc.prems(3) obtain c cs where s: "s = c # cs" by (cases s) auto
  have "index_of cs p = Some n"
  proof (rule Suc.IH)
    show "\<not> has_prefix (drop k cs) p" if "k < n" for k using Suc.prems(1)[of "Suc k"] that by (simp add: s)
  qed (use Suc.prems in \<open>simp_all add: s\<close>)
  with Suc.prems(1)[of 0] show ?case by (simp add: s)
qed

text \<open>A header in which no closing fence starts comes back with its body.\<close>

lemma Split_written:
  assumes "\<And>k. k < length head \<Longrightarrow> \<not> has_prefix (drop k (head @ c_nl # fence @ body)) (c_nl # fence)"
  shows "frontmatter_Split (fence @ head @ c_nl # fence @ body) = Inr (head, body)"
proof -
  have "has_prefix (drop (length head) (head @ c_nl # fence @ body)) (c_nl # fence)" by (simp add: has_prefix_def)
  then have "index_of (head @ c_nl # fence @ body) (c_nl # fence) = Some (length head)"
    using assms by (intro index_of_first) auto
  then show ?thesis by (simp add: frontmatter_Split_def)
qed

section \<open>Definitions\<close>

record Definition =
  de_Name :: bytes
  de_Description :: bytes
  de_Prompt :: bytes
  de_Tools :: "bytes list option"
  de_Model :: bytes
  de_Thinking :: ThinkingLevel
  de_MaxTurns :: int

record fm_header =
  fm_Name :: bytes
  fm_Description :: bytes
  fm_Tools :: "bytes list option"
  fm_Model :: bytes
  fm_Thinking :: bytes
  fm_MaxTurns :: int

datatype def_error =
    BadFence fence_error
  | BadYAML
  | NameMismatch bytes bytes
  | DescriptionRequired
  | BadThinking bytes
  | NegativeMaxTurns int

definition agent_parse :: "(bytes \<Rightarrow> fm_header option) \<Rightarrow> bytes \<Rightarrow> bytes \<Rightarrow> (def_error, Definition) result" where
  "agent_parse yaml stem data =
     (case frontmatter_Split data of
        Inl e \<Rightarrow> Inl (BadFence e)
      | Inr (head, body) \<Rightarrow>
          (case yaml head of
             None \<Rightarrow> Inl BadYAML
           | Some fm \<Rightarrow>
               if fm_Name fm \<noteq> [] \<and> fm_Name fm \<noteq> stem then Inl (NameMismatch (fm_Name fm) stem)
               else if fm_Description fm = [] then Inl DescriptionRequired
               else if fm_Thinking fm \<noteq> [] \<and> \<not> ThinkingLevel_Valid (fm_Thinking fm) then Inl (BadThinking (fm_Thinking fm))
               else if fm_MaxTurns fm < 0 then Inl (NegativeMaxTurns (fm_MaxTurns fm))
               else Inr \<lparr>de_Name = stem, de_Description = fm_Description fm, de_Prompt = trim_space body, de_Tools = fm_Tools fm,
                         de_Model = fm_Model fm, de_Thinking = fm_Thinking fm, de_MaxTurns = fm_MaxTurns fm\<rparr>))"

section \<open>Reading the roots\<close>

datatype dir_read = DirMissing | DirFails | DirEntries "(bytes \<times> bool) list"
datatype load_problem = DirUnreadable bytes | FileUnreadable bytes | BadDefinition bytes def_error

text \<open>One directory entry: skipped, a problem, or a definition.\<close>

definition load_entry ::
    "(bytes \<Rightarrow> fm_header option) \<Rightarrow> (bytes \<Rightarrow> bytes option) \<Rightarrow> bytes \<Rightarrow> bytes \<times> bool \<Rightarrow> (load_problem + Definition) option" where
  "load_entry yaml read_file root ent =
     (case ent of
        (name, is_dir) \<Rightarrow>
          if is_dir \<or> \<not> has_suffix name ''.md'' then None
          else
            (let path = path_join [root, name] in
             case read_file path of
               None \<Rightarrow> Some (Inl (FileUnreadable path))
             | Some data \<Rightarrow>
                 (case agent_parse yaml (take (length name - length ''.md'') name) data of
                    Inl e \<Rightarrow> Some (Inl (BadDefinition path e))
                  | Inr d \<Rightarrow> Some (Inr d))))"

type_synonym load_acc = "(bytes \<rightharpoonup> Definition) \<times> load_problem list"

definition load_add :: "(load_problem + Definition) option \<Rightarrow> load_acc \<Rightarrow> load_acc" where
  "load_add r acc =
     (case r of
        None \<Rightarrow> acc
      | Some (Inl p) \<Rightarrow> (fst acc, snd acc @ [p])
      | Some (Inr d) \<Rightarrow> (if fst acc (de_Name d) = None then (fst acc)(de_Name d \<mapsto> d) else fst acc, snd acc))"

definition load_root ::
    "(bytes \<Rightarrow> fm_header option) \<Rightarrow> (bytes \<Rightarrow> dir_read) \<Rightarrow> (bytes \<Rightarrow> bytes option) \<Rightarrow> bytes \<Rightarrow> load_acc \<Rightarrow> load_acc" where
  "load_root yaml read_dir read_file root acc =
     (case read_dir root of
        DirMissing \<Rightarrow> acc
      | DirFails \<Rightarrow> (fst acc, snd acc @ [DirUnreadable root])
      | DirEntries ents \<Rightarrow> fold (\<lambda>ent. load_add (load_entry yaml read_file root ent)) ents acc)"

definition agents_Load ::
    "(bytes \<Rightarrow> fm_header option) \<Rightarrow> (bytes \<Rightarrow> dir_read) \<Rightarrow> (bytes \<Rightarrow> bytes option) \<Rightarrow> bytes list \<Rightarrow> load_acc" where
  "agents_Load yaml read_dir read_file roots = fold (load_root yaml read_dir read_file) roots (Map.empty, [])"

definition agents_Resolve :: "(bytes \<rightharpoonup> Definition) \<Rightarrow> bytes \<Rightarrow> Definition option" where
  "agents_Resolve defs name =
     (if name = [] \<or> name = ''default'' then
        (case defs ''default'' of
           Some d \<Rightarrow> Some d
         | None \<Rightarrow> Some \<lparr>de_Name = ''default'', de_Description = [], de_Prompt = [], de_Tools = None, de_Model = [], de_Thinking = [], de_MaxTurns = 0\<rparr>)
      else defs name)"

section \<open>The first definition wins\<close>

text \<open>What a root contributes, in the order of its entries.\<close>

definition root_results ::
    "(bytes \<Rightarrow> fm_header option) \<Rightarrow> (bytes \<Rightarrow> dir_read) \<Rightarrow> (bytes \<Rightarrow> bytes option) \<Rightarrow> bytes \<Rightarrow> (load_problem + Definition) list" where
  "root_results yaml read_dir read_file root =
     (case read_dir root of
        DirMissing \<Rightarrow> []
      | DirFails \<Rightarrow> [Inl (DirUnreadable root)]
      | DirEntries ents \<Rightarrow> List.map_filter (load_entry yaml read_file root) ents)"

definition definitions :: "(load_problem + Definition) list \<Rightarrow> Definition list" where
  "definitions = List.map_filter (\<lambda>r. case r of Inr d \<Rightarrow> Some d | Inl _ \<Rightarrow> None)"

definition problems :: "(load_problem + Definition) list \<Rightarrow> load_problem list" where
  "problems = List.map_filter (\<lambda>r. case r of Inl p \<Rightarrow> Some p | Inr _ \<Rightarrow> None)"

definition summarise :: "(load_problem + Definition) list \<Rightarrow> load_acc" where
  "summarise rs = (map_of (map (\<lambda>d. (de_Name d, d)) (definitions rs)), problems rs)"

lemma definitions_simps [simp]:
  "definitions [] = []" "definitions (xs @ ys) = definitions xs @ definitions ys"
  "definitions (Inr d # xs) = d # definitions xs" "definitions (Inl p # xs) = definitions xs"
  by (simp_all add: definitions_def List.map_filter_def)

lemma problems_simps [simp]:
  "problems [] = []" "problems (xs @ ys) = problems xs @ problems ys"
  "problems (Inr d # xs) = problems xs" "problems (Inl p # xs) = p # problems xs"
  by (simp_all add: problems_def List.map_filter_def)

lemma load_add_summarise: "load_add r (summarise rs) = summarise (rs @ (case r of None \<Rightarrow> [] | Some x \<Rightarrow> [x]))"
proof (cases r)
  case (Some x)
  show ?thesis
  proof (cases x)
    case (Inr d)
    have "[k \<mapsto> d] ++ m = (if m k = None then m(k \<mapsto> d) else m)" for m :: "bytes \<rightharpoonup> Definition" and k
      by (rule ext) (auto simp: map_add_def split: option.splits)
    then show ?thesis by (simp add: Some Inr load_add_def summarise_def del: if_split)
  qed (simp add: Some load_add_def summarise_def)
qed (simp add: load_add_def)

lemma load_entries_summarise:
  "fold (\<lambda>ent. load_add (f ent)) ents (summarise rs) = summarise (rs @ List.map_filter f ents)"
proof (induction ents arbitrary: rs)
  case (Cons ent ents)
  then show ?case by (cases "f ent") (simp_all add: load_add_summarise List.map_filter_def)
qed (simp add: List.map_filter_def)

lemma load_root_summarise:
  "load_root yaml read_dir read_file root (summarise rs) = summarise (rs @ root_results yaml read_dir read_file root)"
proof (cases "read_dir root")
  case DirFails
  with load_add_summarise[of "Some (Inl (DirUnreadable root))" rs] show ?thesis
    by (simp add: load_root_def root_results_def load_add_def)
qed (simp_all add: load_root_def root_results_def load_entries_summarise)

text \<open>
  \<open>Load\<close> keeps, for every name, the first definition of that name in the order of the roots and of their
  entries, and reports the problems of all the others in that order: a file that does not parse costs
  only itself.
\<close>

theorem first_definition_wins:
  "agents_Load yaml read_dir read_file roots =
     (map_of (map (\<lambda>d. (de_Name d, d)) (definitions (concat (map (root_results yaml read_dir read_file) roots)))),
      problems (concat (map (root_results yaml read_dir read_file) roots)))"
proof -
  have "fold (load_root yaml read_dir read_file) roots (summarise rs) =
      summarise (rs @ concat (map (root_results yaml read_dir read_file) roots))" for rs
    by (induction roots arbitrary: rs) (simp_all add: load_root_summarise)
  from this[of "[]"] show ?thesis
    by (simp add: agents_Load_def summarise_def)
qed

text \<open>Whatever is loaded is named by its file, described, and within the bounds of the header.\<close>

lemma agent_parse_valid:
  assumes "agent_parse yaml stem data = Inr d"
  shows "de_Name d = stem \<and> de_Description d \<noteq> [] \<and> 0 \<le> de_MaxTurns d \<and>
    (de_Thinking d = [] \<or> ThinkingLevel_Valid (de_Thinking d)) \<and> last_space (de_Prompt d) = 0"
  using assms by (auto simp: agent_parse_def trim_space_def trim_right_space_end split: sum.splits option.splits if_splits)

lemma agents_Resolve_total: "name = [] \<or> name = ''default'' \<or> name \<in> dom defs \<longleftrightarrow> agents_Resolve defs name \<noteq> None"
  by (auto simp: agents_Resolve_def split: option.splits)

end
