(* ===== verification/Plugin_Registry.thy ===== *)
theory Plugin_Registry
  imports Gate Agent_Defs
begin

text \<open>
  The plugin registry: \<open>internal/plugin/registry.go\<close>, the hooks of \<open>hooks.go\<close>, the types of \<open>plugin.go\<close> and
  \<open>internal/tool/tool.go\<close>. Loading stages what a plugin registers and commits it when its \<open>Init\<close> succeeds;
  a spawned plugin that dies is withdrawn. A function a plugin hands over is known by a number, a nil one
  is absent; the notices and the services called after a change are not modelled.
\<close>

section \<open>What plugins register\<close>

record PluginTool =
  pt_Name :: bytes
  pt_Description :: bytes
  pt_Schema :: bytes
  pt_Safety :: Safety
  pt_Invoke :: nat

record PluginCommand =
  cm_Name :: bytes
  cm_Description :: bytes
  cm_Run :: nat
  cm_Owner :: bytes

text \<open>A provider or an agent runtime, of which the registry asks only the name.\<close>

record PluginService =
  sv_Name :: bytes
  sv_impl :: nat

type_synonym HookPoint = bytes

definition HookPoint_Valid :: "HookPoint \<Rightarrow> bool" where
  "HookPoint_Valid p \<longleftrightarrow>
     p \<in> {''session_opened'', ''before_turn'', ''before_request'', ''after_response'', ''before_tool'', ''after_tool'',
           ''before_compaction'', ''turn_completed'', ''session_closed''}"

record HookHandler =
  hh_Point :: HookPoint
  hh_Priority :: int
  hh_Handle :: "nat option"

record OwnedHook =
  oh_Owner :: bytes
  oh_Handler :: HookHandler

record Span =
  sp_Text :: bytes
  sp_Role :: bytes

type_synonym WidgetSlot = bytes

definition WidgetSlot_Valid :: "WidgetSlot \<Rightarrow> bool" where
  "WidgetSlot_Valid s \<longleftrightarrow> s \<in> {''header'', ''above_editor'', ''below_editor''}"

record StatusItem =
  si_Owner :: bytes
  si_Key :: bytes
  si_Content :: "Span list"

record Widget =
  wi_Owner :: bytes
  wi_Key :: bytes
  wi_Slot :: WidgetSlot
  wi_Content :: "Span list"

type_synonym State = bytes

definition StateLoading :: State where [enum_defs]: "StateLoading = ''loading''"
definition StateReady :: State where [enum_defs]: "StateReady = ''ready''"
definition StateFailed :: State where [enum_defs]: "StateFailed = ''failed''"

record Status =
  st_Name :: bytes
  st_Origin :: bytes
  st_State :: State
  st_Reason :: bytes

section \<open>Tables\<close>

text \<open>A committed table with the order its names came in, and the stage of one plugin.\<close>

record 'v table =
  tb_entries :: "bytes \<rightharpoonup> bytes \<times> 'v"
  tb_order :: "bytes list"

record 'v stage =
  sg_entries :: "bytes \<rightharpoonup> 'v"
  sg_order :: "bytes list"

definition no_table :: "'v table" where
  "no_table = \<lparr>tb_entries = Map.empty, tb_order = []\<rparr>"

definition no_stage :: "'v stage" where
  "no_stage = \<lparr>sg_entries = Map.empty, sg_order = []\<rparr>"

datatype register_error =
    NameEmpty
  | ErrDuplicate bytes
  | NilValue
  | DescriptionMissing
  | ThinkingUnknown
  | UnknownHookPoint
  | NilHandle
  | UnknownSlot

definition stageRegister :: "bytes \<Rightarrow> bytes \<Rightarrow> 'v \<Rightarrow> 'v table \<Rightarrow> 'v stage \<Rightarrow> register_error option \<times> 'v stage" where
  "stageRegister owner name v committed staged =
     (if name = [] then (Some NameEmpty, staged)
      else if sg_entries staged name \<noteq> None then (Some (ErrDuplicate owner), staged)
      else
        (case tb_entries committed name of
           Some (o', _) \<Rightarrow> (Some (ErrDuplicate o'), staged)
         | None \<Rightarrow> (None, staged\<lparr>sg_entries := (sg_entries staged)(name \<mapsto> v), sg_order := sg_order staged @ [name]\<rparr>)))"

definition commit_one :: "bytes \<Rightarrow> 'v stage \<Rightarrow> bytes \<Rightarrow> 'v table \<Rightarrow> 'v table" where
  "commit_one owner sg n t =
     t\<lparr>tb_entries := (tb_entries t)(n \<mapsto> (owner, the (sg_entries sg n))), tb_order := tb_order t @ [n]\<rparr>"

definition commit_table :: "bytes \<Rightarrow> 'v stage \<Rightarrow> 'v table \<Rightarrow> 'v table" where
  "commit_table owner sg t = fold (commit_one owner sg) (sg_order sg) t"

definition owner_at :: "(bytes \<rightharpoonup> bytes \<times> 'v) \<Rightarrow> bytes \<Rightarrow> bytes" where
  "owner_at m n = (case m n of Some (o', _) \<Rightarrow> o' | None \<Rightarrow> [])"

fun withdraw_loop :: "(bytes \<rightharpoonup> bytes \<times> 'v) \<Rightarrow> bytes list \<Rightarrow> bytes \<Rightarrow> (bytes \<rightharpoonup> bytes \<times> 'v) \<times> bytes list" where
  "withdraw_loop m [] name = (m, [])"
| "withdraw_loop m (n # ns) name =
     (if owner_at m n = name then withdraw_loop (m(n := None)) ns name
      else (case withdraw_loop m ns name of (m', kept) \<Rightarrow> (m', n # kept)))"

definition withdraw :: "bytes \<Rightarrow> 'v table \<Rightarrow> 'v table" where
  "withdraw name t =
     (case withdraw_loop (tb_entries t) (tb_order t) name of (m, kept) \<Rightarrow> t\<lparr>tb_entries := m, tb_order := kept\<rparr>)"

text \<open>\<open>Tools\<close>, \<open>Commands\<close>, \<open>providersLocked\<close>, \<open>runtimesLocked\<close>: the values in order; \<open>Tool\<close>, \<open>Command\<close>: one by name.\<close>

definition table_values :: "'v table \<Rightarrow> 'v list" where
  "table_values t = map (\<lambda>n. snd (the (tb_entries t n))) (tb_order t)"

definition table_value :: "'v table \<Rightarrow> bytes \<Rightarrow> 'v option" where
  "table_value t n = map_option snd (tb_entries t n)"

definition table_owner :: "'v table \<Rightarrow> bytes \<Rightarrow> bytes option" where
  "table_owner t n = map_option fst (tb_entries t n)"

section \<open>The registry and a plugin's host\<close>

type_synonym ownerKey = "bytes \<times> bytes"

record Registry =
  rg_disabled :: "bytes set"
  rg_failed :: "bytes set"
  rg_tools :: "PluginTool table"
  rg_commands :: "PluginCommand table"
  rg_providers :: "PluginService table"
  rg_runtimes :: "PluginService table"
  rg_agents :: "Definition table"
  rg_hooks :: "OwnedHook list"
  rg_loaded :: "bytes list"
  rg_statuses :: "Status list"
  rg_status :: "ownerKey \<rightharpoonup> StatusItem"
  rg_statusOrder :: "ownerKey list"
  rg_widgets :: "ownerKey \<rightharpoonup> Widget"
  rg_widgetOrder :: "ownerKey list"

definition NewRegistry :: Registry where
  "NewRegistry =
     \<lparr>rg_disabled = {}, rg_failed = {}, rg_tools = no_table, rg_commands = no_table, rg_providers = no_table,
      rg_runtimes = no_table, rg_agents = no_table, rg_hooks = [], rg_loaded = [], rg_statuses = [],
      rg_status = Map.empty, rg_statusOrder = [], rg_widgets = Map.empty, rg_widgetOrder = []\<rparr>"

text \<open>
  A registration of a provider or a runtime under way: what it registers, and whether it has still to read
  the committed names of the other kind (with what it saw of the staged ones) or to stage its own. The
  host's mutex is free in between.
\<close>

datatype service_kind = ProviderService | RuntimeService

datatype register_pc = ReadCommitted bool | StageService

record host =
  ho_name :: bytes
  ho_live :: bool
  ho_tools :: "PluginTool stage"
  ho_commands :: "PluginCommand stage"
  ho_providers :: "PluginService stage"
  ho_runtimes :: "PluginService stage"
  ho_agents :: "Definition stage"
  ho_hooks :: "HookHandler list"
  ho_status :: "StatusItem stage"
  ho_widgets :: "Widget stage"
  ho_calls :: "(service_kind \<times> PluginService \<times> register_pc) list"

definition newHost :: "bytes \<Rightarrow> host" where
  "newHost name =
     \<lparr>ho_name = name, ho_live = False, ho_tools = no_stage, ho_commands = no_stage, ho_providers = no_stage,
      ho_runtimes = no_stage, ho_agents = no_stage, ho_hooks = [], ho_status = no_stage, ho_widgets = no_stage,
      ho_calls = []\<rparr>"

subsection \<open>Registering\<close>

definition RegisterTool :: "Registry \<Rightarrow> PluginTool \<Rightarrow> host \<Rightarrow> register_error option \<times> host" where
  "RegisterTool r t h =
     (case stageRegister (ho_name h) (pt_Name t) t (rg_tools r) (ho_tools h) of (e, sg) \<Rightarrow> (e, h\<lparr>ho_tools := sg\<rparr>))"

definition RegisterCommand :: "Registry \<Rightarrow> PluginCommand \<Rightarrow> host \<Rightarrow> register_error option \<times> host" where
  "RegisterCommand r c h =
     (case stageRegister (ho_name h) (cm_Name c) (c\<lparr>cm_Owner := ho_name h\<rparr>) (rg_commands r) (ho_commands h) of
        (e, sg) \<Rightarrow> (e, h\<lparr>ho_commands := sg\<rparr>))"

text \<open>
  \<open>checkRuntimeNamespace\<close> and \<open>checkProviderNamespace\<close>: a name is a provider or a runtime, not both. The
  names the plugin has staged are read under its own mutex, then the committed ones under the registry's.
\<close>

definition checkNamespace :: "bytes \<Rightarrow> bool \<Rightarrow> 'v table \<Rightarrow> bytes \<Rightarrow> register_error option" where
  "checkNamespace owner staged committed name =
     (case tb_entries committed name of
        Some (o', _) \<Rightarrow> Some (ErrDuplicate o')
      | None \<Rightarrow> if staged then Some (ErrDuplicate owner) else None)"

definition RegisterProvider :: "PluginService option \<Rightarrow> host \<Rightarrow> register_error option \<times> host" where
  "RegisterProvider v h =
     (case v of
        None \<Rightarrow> (Some NilValue, h)
      | Some p \<Rightarrow>
          (None, h\<lparr>ho_calls := ho_calls h @ [(ProviderService, p, ReadCommitted (sg_entries (ho_runtimes h) (sv_Name p) \<noteq> None))]\<rparr>))"

definition RegisterRuntime :: "PluginService option \<Rightarrow> host \<Rightarrow> register_error option \<times> host" where
  "RegisterRuntime v h =
     (case v of
        None \<Rightarrow> (Some NilValue, h)
      | Some p \<Rightarrow>
          (None, h\<lparr>ho_calls := ho_calls h @ [(RuntimeService, p, ReadCommitted (sg_entries (ho_providers h) (sv_Name p) \<noteq> None))]\<rparr>))"

text \<open>The next action of the \<open>i\<close>th registration under way: the other read, or the staging and the return.\<close>

definition drop_call :: "nat \<Rightarrow> host \<Rightarrow> host" where
  "drop_call i h = h\<lparr>ho_calls := take i (ho_calls h) @ drop (Suc i) (ho_calls h)\<rparr>"

definition stage_service :: "Registry \<Rightarrow> service_kind \<Rightarrow> PluginService \<Rightarrow> host \<Rightarrow> register_error option \<times> host" where
  "stage_service r k p h =
     (case k of
        ProviderService \<Rightarrow>
          (case stageRegister (ho_name h) (sv_Name p) p (rg_providers r) (ho_providers h) of (e, sg) \<Rightarrow> (e, h\<lparr>ho_providers := sg\<rparr>))
      | RuntimeService \<Rightarrow>
          (case stageRegister (ho_name h) (sv_Name p) p (rg_runtimes r) (ho_runtimes h) of (e, sg) \<Rightarrow> (e, h\<lparr>ho_runtimes := sg\<rparr>)))"

definition register_next :: "Registry \<Rightarrow> nat \<Rightarrow> host \<Rightarrow> register_error option \<times> host" where
  "register_next r i h =
     (if i < length (ho_calls h) then
        (case ho_calls h ! i of
           (k, p, ReadCommitted staged) \<Rightarrow>
             (case checkNamespace (ho_name h) staged (case k of ProviderService \<Rightarrow> rg_runtimes r | RuntimeService \<Rightarrow> rg_providers r) (sv_Name p) of
                Some e \<Rightarrow> (Some e, drop_call i h)
              | None \<Rightarrow> (None, h\<lparr>ho_calls := (ho_calls h)[i := (k, p, StageService)]\<rparr>))
         | (k, p, StageService) \<Rightarrow> stage_service r k p (drop_call i h))
      else (None, h))"

definition RegisterAgent :: "Registry \<Rightarrow> Definition \<Rightarrow> host \<Rightarrow> register_error option \<times> host" where
  "RegisterAgent r d h =
     (if de_Description d = [] then (Some DescriptionMissing, h)
      else if de_Thinking d \<noteq> [] \<and> \<not> ThinkingLevel_Valid (de_Thinking d) then (Some ThinkingUnknown, h)
      else
        (case stageRegister (ho_name h) (de_Name d) d (rg_agents r) (ho_agents h) of (e, sg) \<Rightarrow> (e, h\<lparr>ho_agents := sg\<rparr>)))"

definition RegisterHook :: "HookHandler \<Rightarrow> host \<Rightarrow> register_error option \<times> host" where
  "RegisterHook hh h =
     (if \<not> HookPoint_Valid (hh_Point hh) then (Some UnknownHookPoint, h)
      else if hh_Handle hh = None then (Some NilHandle, h)
      else (None, h\<lparr>ho_hooks := ho_hooks h @ [hh]\<rparr>))"

subsection \<open>Status items and widgets\<close>

definition putStatusLocked :: "StatusItem \<Rightarrow> Registry \<Rightarrow> Registry" where
  "putStatusLocked it r =
     (let k = (si_Owner it, si_Key it) in
      if si_Content it = [] then
        (if rg_status r k \<noteq> None
         then r\<lparr>rg_status := (rg_status r)(k := None), rg_statusOrder := filter (\<lambda>x. x \<noteq> k) (rg_statusOrder r)\<rparr>
         else r)
      else
        r\<lparr>rg_statusOrder := (if rg_status r k = None then rg_statusOrder r @ [k] else rg_statusOrder r),
          rg_status := (rg_status r)(k \<mapsto> it)\<rparr>)"

definition putWidgetLocked :: "Widget \<Rightarrow> Registry \<Rightarrow> Registry" where
  "putWidgetLocked w r =
     (let k = (wi_Owner w, wi_Key w) in
      r\<lparr>rg_widgetOrder := (if rg_widgets r k = None then rg_widgetOrder r @ [k] else rg_widgetOrder r),
        rg_widgets := (rg_widgets r)(k \<mapsto> w)\<rparr>)"

definition setStatusItem :: "StatusItem \<Rightarrow> Registry \<Rightarrow> Registry" where
  "setStatusItem it r = (if si_Owner it \<in> rg_failed r then r else putStatusLocked it r)"

definition setWidget :: "Widget \<Rightarrow> Registry \<Rightarrow> Registry" where
  "setWidget w r = (if wi_Owner w \<in> rg_failed r then r else putWidgetLocked w r)"

definition stage_put :: "bytes \<Rightarrow> 'v \<Rightarrow> 'v stage \<Rightarrow> 'v stage" where
  "stage_put k v sg =
     sg\<lparr>sg_order := (if sg_entries sg k = None then sg_order sg @ [k] else sg_order sg), sg_entries := (sg_entries sg)(k \<mapsto> v)\<rparr>"

definition SetStatus :: "bytes \<Rightarrow> Span list \<Rightarrow> Registry \<times> host \<Rightarrow> Registry \<times> host" where
  "SetStatus key content rh =
     (case rh of
        (r, h) \<Rightarrow>
          let it = \<lparr>si_Owner = ho_name h, si_Key = key, si_Content = content\<rparr> in
          if ho_live h then (setStatusItem it r, h) else (r, h\<lparr>ho_status := stage_put key it (ho_status h)\<rparr>))"

definition SetWidget :: "bytes \<Rightarrow> WidgetSlot \<Rightarrow> Span list \<Rightarrow> Registry \<times> host \<Rightarrow> register_error option \<times> Registry \<times> host" where
  "SetWidget key slot content rh =
     (case rh of
        (r, h) \<Rightarrow>
          if \<not> WidgetSlot_Valid slot then (Some UnknownSlot, r, h)
          else
            (let w = \<lparr>wi_Owner = ho_name h, wi_Key = key, wi_Slot = slot, wi_Content = content\<rparr> in
             if ho_live h then (None, setWidget w r, h)
             else (None, r, h\<lparr>ho_widgets := stage_put key w (ho_widgets h)\<rparr>)))"

definition stage_values :: "'v stage \<Rightarrow> 'v list" where
  "stage_values sg = map (\<lambda>k. the (sg_entries sg k)) (sg_order sg)"

subsection \<open>Commit and failure\<close>

definition commit_tables :: "host \<Rightarrow> Registry \<Rightarrow> Registry" where
  "commit_tables h r =
     r\<lparr>rg_tools := commit_table (ho_name h) (ho_tools h) (rg_tools r),
       rg_commands := commit_table (ho_name h) (ho_commands h) (rg_commands r),
       rg_providers := commit_table (ho_name h) (ho_providers h) (rg_providers r),
       rg_runtimes := commit_table (ho_name h) (ho_runtimes h) (rg_runtimes r),
       rg_agents := commit_table (ho_name h) (ho_agents h) (rg_agents r),
       rg_hooks := rg_hooks r @ map (\<lambda>hh. \<lparr>oh_Owner = ho_name h, oh_Handler = hh\<rparr>) (ho_hooks h)\<rparr>"

definition Registry_commit :: "Registry \<times> host \<Rightarrow> Registry \<times> host" where
  "Registry_commit rh =
     (case rh of
        (r, h) \<Rightarrow>
          (fold putWidgetLocked (stage_values (ho_widgets h))
             (fold putStatusLocked (stage_values (ho_status h)) (commit_tables h r)),
           h\<lparr>ho_live := True\<rparr>))"

definition mark_failed :: "bytes \<Rightarrow> bytes \<Rightarrow> Status \<Rightarrow> Status" where
  "mark_failed name reason st =
     (if st_Name st = name then \<lparr>st_Name = name, st_Origin = st_Origin st, st_State = StateFailed, st_Reason = reason\<rparr> else st)"

definition withdraw_keys :: "bytes \<Rightarrow> (ownerKey \<rightharpoonup> 'v) \<Rightarrow> ownerKey list \<Rightarrow> (ownerKey \<rightharpoonup> 'v)" where
  "withdraw_keys name m order = fold (\<lambda>k m. if fst k = name then m(k := None) else m) order m"

definition Registry_Fail :: "bytes \<Rightarrow> bytes \<Rightarrow> Registry \<Rightarrow> Registry" where
  "Registry_Fail name reason r =
     r\<lparr>rg_failed := insert name (rg_failed r),
       rg_tools := withdraw name (rg_tools r),
       rg_commands := withdraw name (rg_commands r),
       rg_providers := withdraw name (rg_providers r),
       rg_runtimes := withdraw name (rg_runtimes r),
       rg_agents := withdraw name (rg_agents r),
       rg_hooks := filter (\<lambda>oh. oh_Owner oh \<noteq> name) (rg_hooks r),
       rg_status := withdraw_keys name (rg_status r) (rg_statusOrder r),
       rg_statusOrder := filter (\<lambda>k. fst k \<noteq> name) (rg_statusOrder r),
       rg_widgets := withdraw_keys name (rg_widgets r) (rg_widgetOrder r),
       rg_widgetOrder := filter (\<lambda>k. fst k \<noteq> name) (rg_widgetOrder r),
       rg_statuses := map (mark_failed name reason) (rg_statuses r)\<rparr>"

section \<open>Hooks\<close>

text \<open>\<open>sort.SliceStable\<close> is the stable sort of the library.\<close>

definition Registry_Hooks :: "Registry \<Rightarrow> HookPoint \<Rightarrow> OwnedHook list" where
  "Registry_Hooks r p = sort_key (\<lambda>oh. hh_Priority (oh_Handler oh)) (filter (\<lambda>oh. hh_Point (oh_Handler oh) = p) (rg_hooks r))"

text \<open>What a handler does within its deadline, and the value it returns.\<close>

datatype 'a hook_value = HookNil | HookNilPointer | HookValue 'a
datatype 'a hook_outcome = HookPanics bytes | HookFails bytes | HookTimesOut | HookReturns "'a hook_value"

datatype hook_error = HookPanicked bytes | HookError bytes | HookTimedOut

definition hook_one :: "'a hook_outcome \<Rightarrow> (hook_error, 'a hook_value) result" where
  "hook_one oc =
     (case oc of
        HookPanics p \<Rightarrow> Inl (HookPanicked p)
      | HookFails e \<Rightarrow> Inl (HookError e)
      | HookTimesOut \<Rightarrow> Inl HookTimedOut
      | HookReturns v \<Rightarrow> Inr v)"

text \<open>\<open>Fire\<close>: the results and the notices, in the order of the handlers.\<close>

fun fire_loop :: "(OwnedHook \<Rightarrow> 'a hook_outcome) \<Rightarrow> OwnedHook list \<Rightarrow> 'a list \<times> (bytes \<times> hook_error) list \<Rightarrow> 'a list \<times> (bytes \<times> hook_error) list" where
  "fire_loop run [] acc = acc"
| "fire_loop run (oh # ohs) acc =
     fire_loop run ohs
       (case hook_one (run oh) of
          Inl e \<Rightarrow> (fst acc, snd acc @ [(oh_Owner oh, e)])
        | Inr (HookValue v) \<Rightarrow> (fst acc @ [v], snd acc)
        | Inr _ \<Rightarrow> acc)"

definition Fire :: "(OwnedHook \<Rightarrow> 'a hook_outcome) \<Rightarrow> Registry \<Rightarrow> HookPoint \<Rightarrow> 'a list \<times> (bytes \<times> hook_error) list" where
  "Fire run r p = fire_loop run (Registry_Hooks r p) ([], [])"

section \<open>Tool views\<close>

record ToolView =
  tv_allow :: "bytes list option"
  tv_deny :: "bytes list"

definition permits :: "ToolView \<Rightarrow> bytes \<Rightarrow> bool" where
  "permits v name \<longleftrightarrow> name \<notin> set (tv_deny v) \<and> (case tv_allow v of None \<Rightarrow> True | Some xs \<Rightarrow> name \<in> set xs)"

definition ToolView_Tools :: "ToolView \<Rightarrow> Registry \<Rightarrow> PluginTool list" where
  "ToolView_Tools v r = filter (\<lambda>t. permits v (pt_Name t)) (table_values (rg_tools r))"

definition ToolView_Tool :: "ToolView \<Rightarrow> Registry \<Rightarrow> bytes \<Rightarrow> PluginTool option" where
  "ToolView_Tool v r name = (if permits v name then table_value (rg_tools r) name else None)"

section \<open>Loading\<close>

text \<open>
  The calls a plugin makes on its host, during \<open>Init\<close> and from goroutines it started there, at any later
  time. Each runs as one action, but for the registration of a provider or a runtime, which \<open>OpContinue\<close>
  continues: two of them may overlap.
\<close>

datatype host_op =
    OpTool PluginTool
  | OpCommand PluginCommand
  | OpProvider "PluginService option"
  | OpRuntime "PluginService option"
  | OpContinue nat
  | OpAgent Definition
  | OpHook HookHandler
  | OpStatus bytes "Span list"
  | OpWidget bytes WidgetSlot "Span list"

definition host_do :: "host_op \<Rightarrow> Registry \<times> host \<Rightarrow> Registry \<times> host" where
  "host_do op rh =
     (case rh of
        (r, h) \<Rightarrow>
          (case op of
             OpTool t \<Rightarrow> (r, snd (RegisterTool r t h))
           | OpCommand c \<Rightarrow> (r, snd (RegisterCommand r c h))
           | OpProvider p \<Rightarrow> (r, snd (RegisterProvider p h))
           | OpRuntime p \<Rightarrow> (r, snd (RegisterRuntime p h))
           | OpContinue i \<Rightarrow> (r, snd (register_next r i h))
           | OpAgent d \<Rightarrow> (r, snd (RegisterAgent r d h))
           | OpHook hh \<Rightarrow> (r, snd (RegisterHook hh h))
           | OpStatus key content \<Rightarrow> SetStatus key content (r, h)
           | OpWidget key slot content \<Rightarrow> snd (SetWidget key slot content (r, h))))"

text \<open>Where \<open>Load\<close> is with the current plugin: its host, its status row and its origin.\<close>

datatype load_pc =
    LoadIdle
  | LoadInit nat nat bytes
  | LoadCommitted nat nat bytes
  | LoadAppended nat nat bytes

record plugins =
  pl_reg :: Registry
  pl_hosts :: "host list"
  pl_pc :: load_pc

datatype plugin_event =
    LoadNext bytes bytes
  | HostCall nat host_op
  | InitReturns "bytes option"
  | LoadAppend
  | LoadReady
  | FailPlugin bytes bytes
  | DisablePlugins "bytes list"

definition load_begin :: "bytes \<Rightarrow> bytes \<Rightarrow> plugins \<Rightarrow> plugins" where
  "load_begin name origin w =
     (if name \<in> rg_disabled (pl_reg w) then w
      else
        w\<lparr>pl_reg := (pl_reg w)\<lparr>rg_statuses := rg_statuses (pl_reg w) @
             [\<lparr>st_Name = name, st_Origin = origin, st_State = StateLoading, st_Reason = []\<rparr>]\<rparr>,
          pl_hosts := pl_hosts w @ [newHost name],
          pl_pc := LoadInit (length (pl_hosts w)) (length (rg_statuses (pl_reg w))) origin\<rparr>)"

definition statusAt :: "nat \<Rightarrow> Status \<Rightarrow> Registry \<Rightarrow> Registry" where
  "statusAt i st r = r\<lparr>rg_statuses := (rg_statuses r)[i := st]\<rparr>"

definition plugin_step :: "plugins \<Rightarrow> plugin_event \<Rightarrow> plugins" where
  "plugin_step w ev =
     (case ev of
        LoadNext name origin \<Rightarrow> if pl_pc w = LoadIdle then load_begin name origin w else w
      | HostCall i op \<Rightarrow>
          if i < length (pl_hosts w)
          then (case host_do op (pl_reg w, pl_hosts w ! i) of (r, h) \<Rightarrow> w\<lparr>pl_reg := r, pl_hosts := (pl_hosts w)[i := h]\<rparr>)
          else w
      | InitReturns err \<Rightarrow>
          (case pl_pc w of
             LoadInit i k origin \<Rightarrow>
               (case err of
                  Some reason \<Rightarrow>
                    w\<lparr>pl_reg := statusAt k \<lparr>st_Name = ho_name (pl_hosts w ! i), st_Origin = origin, st_State = StateFailed, st_Reason = reason\<rparr> (pl_reg w),
                      pl_pc := LoadIdle\<rparr>
                | None \<Rightarrow>
                    (case Registry_commit (pl_reg w, pl_hosts w ! i) of
                       (r, h) \<Rightarrow> w\<lparr>pl_reg := r, pl_hosts := (pl_hosts w)[i := h], pl_pc := LoadCommitted i k origin\<rparr>))
           | _ \<Rightarrow> w)
      | LoadAppend \<Rightarrow>
          (case pl_pc w of
             LoadCommitted i k origin \<Rightarrow>
               w\<lparr>pl_reg := (pl_reg w)\<lparr>rg_loaded := rg_loaded (pl_reg w) @ [ho_name (pl_hosts w ! i)]\<rparr>, pl_pc := LoadAppended i k origin\<rparr>
           | _ \<Rightarrow> w)
      | LoadReady \<Rightarrow>
          (case pl_pc w of
             LoadAppended i k origin \<Rightarrow>
               w\<lparr>pl_reg := statusAt k \<lparr>st_Name = ho_name (pl_hosts w ! i), st_Origin = origin, st_State = StateReady, st_Reason = []\<rparr> (pl_reg w),
                 pl_pc := LoadIdle\<rparr>
           | _ \<Rightarrow> w)
      | FailPlugin name reason \<Rightarrow> w\<lparr>pl_reg := Registry_Fail name reason (pl_reg w)\<rparr>
      | DisablePlugins names \<Rightarrow> w\<lparr>pl_reg := (pl_reg w)\<lparr>rg_disabled := rg_disabled (pl_reg w) \<union> set names\<rparr>\<rparr>)"

definition no_plugins :: plugins where
  "no_plugins = \<lparr>pl_reg = NewRegistry, pl_hosts = [], pl_pc = LoadIdle\<rparr>"

end
