(* ===== verification/Plugin_Inv.thy ===== *)
theory Plugin_Inv
  imports Plugin_Registry
begin

text \<open>
  The invariant of the plugin registry: every table lists exactly its names, once each; what a reader sees
  belongs to plugins whose \<open>Init\<close> succeeded; and the stage of the plugin being loaded does not collide
  with what is committed, which is why the commit need not check again.
\<close>

section \<open>Tables and stages\<close>

definition tbl_ok :: "('v \<Rightarrow> bytes) \<Rightarrow> 'v table \<Rightarrow> bool" where
  "tbl_ok nm t \<longleftrightarrow>
     distinct (tb_order t) \<and> set (tb_order t) = dom (tb_entries t) \<and> (\<forall>n o' v. tb_entries t n = Some (o', v) \<longrightarrow> nm v = n)"

definition stage_ok :: "('v \<Rightarrow> bytes) \<Rightarrow> 'v stage \<Rightarrow> bool" where
  "stage_ok nm sg \<longleftrightarrow>
     distinct (sg_order sg) \<and> set (sg_order sg) = dom (sg_entries sg) \<and> (\<forall>n v. sg_entries sg n = Some v \<longrightarrow> nm v = n)"

definition fresh :: "'v table \<Rightarrow> 'w stage \<Rightarrow> bool" where
  "fresh t sg \<longleftrightarrow> dom (sg_entries sg) \<inter> dom (tb_entries t) = {}"

definition owners :: "'v table \<Rightarrow> bytes set" where
  "owners t = {o'. \<exists>n v. tb_entries t n = Some (o', v)}"

lemma no_table_ok [simp]: "tbl_ok nm no_table" "owners no_table = {}" "fresh no_table sg" "tb_entries no_table = Map.empty"
  by (simp_all add: tbl_ok_def no_table_def owners_def fresh_def)

lemma no_stage_ok [simp]: "stage_ok nm no_stage" "fresh t no_stage" "sg_entries no_stage = Map.empty"
  by (simp_all add: stage_ok_def no_stage_def fresh_def)

lemma fresh_sub: "fresh t sg \<Longrightarrow> dom (tb_entries t') \<subseteq> dom (tb_entries t) \<Longrightarrow> fresh t' sg"
  unfolding fresh_def by blast

lemma stageRegister_cases:
  obtains (refused) e where "stageRegister owner name v t sg = (Some e, sg)"
  | (staged) "name \<noteq> []" "sg_entries sg name = None" "tb_entries t name = None"
      "stageRegister owner name v t sg = (None, sg\<lparr>sg_entries := (sg_entries sg)(name \<mapsto> v), sg_order := sg_order sg @ [name]\<rparr>)"
proof (cases "name = [] \<or> sg_entries sg name \<noteq> None \<or> tb_entries t name \<noteq> None")
  case True
  then have "\<exists>e. stageRegister owner name v t sg = (Some e, sg)"
    by (cases "tb_entries t name") (auto simp: stageRegister_def)
  then show ?thesis using refused by blast
next
  case False
  then have "name \<noteq> []" "sg_entries sg name = None" "tb_entries t name = None" by blast+
  then show ?thesis by (intro staged) (simp_all add: stageRegister_def)
qed

lemma stageRegister_ok:
  assumes "stage_ok nm sg" and "nm v = name"
  shows "stage_ok nm (snd (stageRegister owner name v t sg))"
  by (rule stageRegister_cases[of owner name v t sg]) (use assms in \<open>auto simp: stage_ok_def\<close>)

lemma stageRegister_fresh:
  assumes "fresh t sg" and "stageRegister owner name v t sg = (e, sg')"
  shows "fresh t sg'"
  by (rule stageRegister_cases[of owner name v t sg]) (use assms in \<open>auto simp: fresh_def\<close>)

lemma stageRegister_dom:
  assumes "stageRegister owner name v t sg = (e, sg')"
  shows "dom (sg_entries sg') \<subseteq> insert name (dom (sg_entries sg))"
  by (rule stageRegister_cases[of owner name v t sg]) (use assms in auto)

lemma stageRegister_values:
  assumes "stageRegister owner name v t sg = (e, sg')" and "sg_entries sg' n = Some x"
  shows "sg_entries sg n = Some x \<or> x = v"
  by (rule stageRegister_cases[of owner name v t sg]) (use assms in \<open>auto split: if_splits\<close>)

lemma stage_put_ok:
  assumes "stage_ok nm sg" and "nm v = k"
  shows "stage_ok nm (stage_put k v sg)"
  using assms by (auto simp: stage_ok_def stage_put_def)

lemma stage_put_values: "sg_entries (stage_put k v sg) n = Some x \<Longrightarrow> sg_entries sg n = Some x \<or> x = v"
  by (auto simp: stage_put_def split: if_splits)

lemma stage_values_in:
  assumes "stage_ok nm sg" and "x \<in> set (stage_values sg)"
  shows "sg_entries sg (nm x) = Some x"
proof -
  from assms(2) obtain k where k: "k \<in> set (sg_order sg)" "x = the (sg_entries sg k)" by (auto simp: stage_values_def)
  with assms(1) have "sg_entries sg k = Some x" by (force simp: stage_ok_def)
  with assms(1) show ?thesis by (simp add: stage_ok_def)
qed

subsection \<open>Commit\<close>

lemma commit_loop:
  "tb_entries (fold (commit_one owner sg) ns t) =
     tb_entries t ++ (\<lambda>n. if n \<in> set ns then Some (owner, the (sg_entries sg n)) else None) \<and>
   tb_order (fold (commit_one owner sg) ns t) = tb_order t @ ns"
proof (induction ns arbitrary: t)
  case (Cons n ns)
  then show ?case by (auto simp: commit_one_def map_add_def fun_eq_iff split: option.splits)
qed simp

lemma commit_table_parts:
  assumes "stage_ok nm sg"
  shows "tb_entries (commit_table owner sg t) = tb_entries t ++ (\<lambda>n. map_option (Pair owner) (sg_entries sg n))"
    and "tb_order (commit_table owner sg t) = tb_order t @ sg_order sg"
proof -
  have "(\<lambda>n. if n \<in> set (sg_order sg) then Some (owner, the (sg_entries sg n)) else None) = (\<lambda>n. map_option (Pair owner) (sg_entries sg n))"
    using assms by (auto simp: stage_ok_def fun_eq_iff)
  then show "tb_entries (commit_table owner sg t) = tb_entries t ++ (\<lambda>n. map_option (Pair owner) (sg_entries sg n))"
    using commit_loop[of owner sg "sg_order sg" t] by (simp add: commit_table_def)
qed (use commit_loop[of owner sg "sg_order sg" t] in \<open>simp add: commit_table_def\<close>)

lemma commit_table_dom:
  assumes "stage_ok nm sg"
  shows "dom (tb_entries (commit_table owner sg t)) = dom (tb_entries t) \<union> dom (sg_entries sg)"
  by (auto simp: commit_table_parts[OF assms] dom_def map_add_def split: option.splits)

lemma commit_table_entry:
  assumes "stage_ok nm sg" and "tb_entries (commit_table owner sg t) n = Some (o', v)"
  shows "tb_entries t n = Some (o', v) \<or> o' = owner \<and> sg_entries sg n = Some v"
  using assms(2) by (auto simp: commit_table_parts[OF assms(1)] map_add_def split: option.splits)

lemma commit_table_ok:
  assumes "tbl_ok nm t" and "stage_ok nm sg" and "fresh t sg"
  shows "tbl_ok nm (commit_table owner sg t)"
proof -
  have "distinct (tb_order t @ sg_order sg)" using assms by (auto simp: tbl_ok_def stage_ok_def fresh_def)
  moreover have "set (tb_order t @ sg_order sg) = dom (tb_entries t) \<union> dom (sg_entries sg)"
    using assms by (auto simp: tbl_ok_def stage_ok_def)
  moreover have "nm v = n" if "tb_entries (commit_table owner sg t) n = Some (o', v)" for n o' v
    using commit_table_entry[OF assms(2) that] assms by (auto simp: tbl_ok_def stage_ok_def)
  ultimately show ?thesis
    by (simp add: tbl_ok_def commit_table_dom[OF assms(2)] commit_table_parts(2)[OF assms(2)])
qed

lemma commit_table_owners:
  assumes "stage_ok nm sg"
  shows "owners (commit_table owner sg t) \<subseteq> insert owner (owners t)"
  using commit_table_entry[OF assms] by (fastforce simp: owners_def)

subsection \<open>Withdrawal\<close>

lemma withdraw_loop_result:
  assumes "distinct ns"
  shows "withdraw_loop m ns name =
    ((\<lambda>n. if n \<in> set ns \<and> owner_at m n = name then None else m n), filter (\<lambda>n. owner_at m n \<noteq> name) ns)"
  using assms
proof (induction ns arbitrary: m)
  case (Cons n ns)
  have rest: "owner_at (m(n := None)) x = owner_at m x" if "x \<in> set ns" for x
    using Cons.prems that by (auto simp: owner_at_def)
  then have same: "filter (\<lambda>x. owner_at (m(n := None)) x \<noteq> name) ns = filter (\<lambda>x. owner_at m x \<noteq> name) ns"
    by (intro filter_cong) auto
  show ?case
  proof (cases "owner_at m n = name")
    case True
    with Cons same rest show ?thesis by (auto simp: fun_eq_iff)
  next
    case False
    with Cons show ?thesis by (auto simp: fun_eq_iff)
  qed
qed simp

lemma withdraw_entries:
  assumes "tbl_ok nm t"
  shows "tb_entries (withdraw name t) n =
      (case tb_entries t n of Some (o', v) \<Rightarrow> if o' = name then None else Some (o', v) | None \<Rightarrow> None)"
    and "tb_order (withdraw name t) = filter (\<lambda>n. owner_at (tb_entries t) n \<noteq> name) (tb_order t)"
proof -
  from assms have d: "distinct (tb_order t)" and s: "set (tb_order t) = dom (tb_entries t)" by (simp_all add: tbl_ok_def)
  show "tb_order (withdraw name t) = filter (\<lambda>n. owner_at (tb_entries t) n \<noteq> name) (tb_order t)"
    by (simp add: withdraw_def withdraw_loop_result[OF d])
  show "tb_entries (withdraw name t) n =
      (case tb_entries t n of Some (o', v) \<Rightarrow> if o' = name then None else Some (o', v) | None \<Rightarrow> None)"
    by (auto simp: withdraw_def withdraw_loop_result[OF d] s owner_at_def split: option.splits)
qed

lemma withdraw_ok:
  assumes "tbl_ok nm t"
  shows "tbl_ok nm (withdraw name t)"
  using assms by (auto simp: tbl_ok_def withdraw_entries[OF assms] owner_at_def dom_def split: option.splits if_splits prod.splits)

lemma withdraw_dom:
  assumes "tbl_ok nm t"
  shows "dom (tb_entries (withdraw name t)) \<subseteq> dom (tb_entries t)"
  by (auto simp: withdraw_entries[OF assms] split: option.splits)

lemma withdraw_owners:
  assumes "tbl_ok nm t"
  shows "owners (withdraw name t) = owners t - {name}"
proof -
  have "tb_entries (withdraw name t) n = Some (o', v) \<longleftrightarrow> tb_entries t n = Some (o', v) \<and> o' \<noteq> name" for n o' v
    by (auto simp: withdraw_entries[OF assms] split: option.splits prod.splits if_splits)
  then show ?thesis by (auto simp: owners_def)
qed

subsection \<open>Keyed items\<close>

definition keys_ok :: "(ownerKey \<Rightarrow> 'v \<Rightarrow> bool) \<Rightarrow> (ownerKey \<rightharpoonup> 'v) \<Rightarrow> ownerKey list \<Rightarrow> bool" where
  "keys_ok P m order \<longleftrightarrow> distinct order \<and> set order = dom m \<and> (\<forall>k v. m k = Some v \<longrightarrow> P k v)"

lemma keys_ok_put:
  "keys_ok P m order \<Longrightarrow> P k v \<Longrightarrow> keys_ok P (m(k \<mapsto> v)) (if m k = None then order @ [k] else order)"
  by (auto simp: keys_ok_def)

lemma keys_ok_del: "keys_ok P m order \<Longrightarrow> keys_ok P (m(k := None)) (filter (\<lambda>x. x \<noteq> k) order)"
  by (auto simp: keys_ok_def)

lemma withdraw_keys_result:
  "withdraw_keys name m order = (\<lambda>k. if k \<in> set order \<and> fst k = name then None else m k)"
  by (induction order arbitrary: m) (auto simp: withdraw_keys_def fun_eq_iff)

lemma keys_ok_withdraw:
  assumes "keys_ok P m order"
  shows "keys_ok P (withdraw_keys name m order) (filter (\<lambda>k. fst k \<noteq> name) order)"
    and "fst ` dom (withdraw_keys name m order) = fst ` dom m - {name}"
proof -
  have eq: "withdraw_keys name m order k = (if fst k = name then None else m k)" for k
    using assms by (auto simp: withdraw_keys_result keys_ok_def)
  show "keys_ok P (withdraw_keys name m order) (filter (\<lambda>k. fst k \<noteq> name) order)"
    using assms by (auto simp: keys_ok_def eq dom_def split: if_splits)
  show "fst ` dom (withdraw_keys name m order) = fst ` dom m - {name}"
    by (auto simp: eq dom_def image_iff split: if_splits)
qed

section \<open>The invariant\<close>

definition status_ok :: "ownerKey \<Rightarrow> StatusItem \<Rightarrow> bool" where
  "status_ok k it \<longleftrightarrow> k = (si_Owner it, si_Key it) \<and> si_Content it \<noteq> []"

definition widget_ok :: "ownerKey \<Rightarrow> Widget \<Rightarrow> bool" where
  "widget_ok k w \<longleftrightarrow> k = (wi_Owner w, wi_Key w) \<and> WidgetSlot_Valid (wi_Slot w)"

definition hook_ok :: "HookHandler \<Rightarrow> bool" where
  "hook_ok hh \<longleftrightarrow> HookPoint_Valid (hh_Point hh) \<and> hh_Handle hh \<noteq> None"

definition tables_ok :: "Registry \<Rightarrow> bool" where
  "tables_ok r \<longleftrightarrow>
     tbl_ok pt_Name (rg_tools r) \<and> tbl_ok cm_Name (rg_commands r) \<and> tbl_ok sv_Name (rg_providers r) \<and>
     tbl_ok sv_Name (rg_runtimes r) \<and> tbl_ok de_Name (rg_agents r) \<and>
     (\<forall>n o' c. tb_entries (rg_commands r) n = Some (o', c) \<longrightarrow> cm_Owner c = o') \<and>
     (\<forall>oh\<in>set (rg_hooks r). hook_ok (oh_Handler oh))"

definition items_ok :: "Registry \<Rightarrow> bool" where
  "items_ok r \<longleftrightarrow> keys_ok status_ok (rg_status r) (rg_statusOrder r) \<and> keys_ok widget_ok (rg_widgets r) (rg_widgetOrder r)"

text \<open>The plugins a registry shows something of.\<close>

definition table_owners :: "Registry \<Rightarrow> bytes set" where
  "table_owners r =
     owners (rg_tools r) \<union> owners (rg_commands r) \<union> owners (rg_providers r) \<union> owners (rg_runtimes r) \<union> owners (rg_agents r) \<union>
     oh_Owner ` set (rg_hooks r)"

definition item_owners :: "Registry \<Rightarrow> bytes set" where
  "item_owners r = fst ` dom (rg_status r) \<union> fst ` dom (rg_widgets r)"

definition host_ok :: "host \<Rightarrow> bool" where
  "host_ok h \<longleftrightarrow>
     stage_ok pt_Name (ho_tools h) \<and> stage_ok cm_Name (ho_commands h) \<and> stage_ok sv_Name (ho_providers h) \<and>
     stage_ok sv_Name (ho_runtimes h) \<and> stage_ok de_Name (ho_agents h) \<and>
     (\<forall>n c. sg_entries (ho_commands h) n = Some c \<longrightarrow> cm_Owner c = ho_name h) \<and>
     list_all hook_ok (ho_hooks h) \<and>
     stage_ok si_Key (ho_status h) \<and> (\<forall>n x. sg_entries (ho_status h) n = Some x \<longrightarrow> si_Owner x = ho_name h) \<and>
     stage_ok wi_Key (ho_widgets h) \<and>
     (\<forall>n x. sg_entries (ho_widgets h) n = Some x \<longrightarrow> wi_Owner x = ho_name h \<and> WidgetSlot_Valid (wi_Slot x))"

text \<open>What the duplicate checks give: the stage can be committed as it is.\<close>

definition host_fresh :: "Registry \<Rightarrow> host \<Rightarrow> bool" where
  "host_fresh r h \<longleftrightarrow>
     fresh (rg_tools r) (ho_tools h) \<and> fresh (rg_commands r) (ho_commands h) \<and> fresh (rg_providers r) (ho_providers h) \<and>
     fresh (rg_runtimes r) (ho_runtimes h) \<and> fresh (rg_agents r) (ho_agents h)"

definition ok_names :: "plugins \<Rightarrow> bytes set" where
  "ok_names w =
     set (rg_loaded (pl_reg w)) \<union> (case pl_pc w of LoadCommitted i _ _ \<Rightarrow> {ho_name (pl_hosts w ! i)} | _ \<Rightarrow> {})"

definition pc_ok :: "plugins \<Rightarrow> bool" where
  "pc_ok w \<longleftrightarrow>
     (case pl_pc w of
        LoadIdle \<Rightarrow> True
      | LoadInit i k _ \<Rightarrow>
          i < length (pl_hosts w) \<and> k < length (rg_statuses (pl_reg w)) \<and> host_fresh (pl_reg w) (pl_hosts w ! i) \<and> \<not> ho_live (pl_hosts w ! i)
      | LoadCommitted i k _ \<Rightarrow> i < length (pl_hosts w) \<and> k < length (rg_statuses (pl_reg w))
      | LoadAppended i k _ \<Rightarrow> i < length (pl_hosts w) \<and> k < length (rg_statuses (pl_reg w)))"

definition pl_inv :: "plugins \<Rightarrow> bool" where
  "pl_inv w \<longleftrightarrow>
     tables_ok (pl_reg w) \<and> items_ok (pl_reg w) \<and> table_owners (pl_reg w) \<union> item_owners (pl_reg w) \<subseteq> ok_names w \<and>
     (\<forall>h\<in>set (pl_hosts w). host_ok h \<and> (ho_live h \<longrightarrow> ho_name h \<in> ok_names w)) \<and> pc_ok w"

section \<open>Calls on a host\<close>

lemma host_do_name [simp]: "ho_name (snd (host_do op (r, h))) = ho_name h" "ho_live (snd (host_do op (r, h))) = ho_live h"
  by (auto simp: host_do_def RegisterTool_def RegisterCommand_def RegisterProvider_def RegisterRuntime_def RegisterAgent_def
      RegisterHook_def SetStatus_def SetWidget_def register_next_def drop_call_def stage_service_def Let_def
      split: host_op.split prod.split option.split service_kind.split register_pc.split)

lemma staged_status_ok:
  assumes "host_ok h"
  shows "host_ok (h\<lparr>ho_status := stage_put key \<lparr>si_Owner = ho_name h, si_Key = key, si_Content = c\<rparr> (ho_status h)\<rparr>)"
  using assms by (auto simp: host_ok_def intro: stage_put_ok dest: stage_put_values)

lemma staged_widget_ok:
  assumes "host_ok h" and "WidgetSlot_Valid slot"
  shows "host_ok (h\<lparr>ho_widgets := stage_put key \<lparr>wi_Owner = ho_name h, wi_Key = key, wi_Slot = slot, wi_Content = c\<rparr> (ho_widgets h)\<rparr>)"
  using assms by (auto simp: host_ok_def intro: stage_put_ok dest: stage_put_values)

lemma RegisterTool_keeps:
  assumes "host_ok h"
  shows "host_ok (snd (RegisterTool r t h))" and "host_fresh r h \<Longrightarrow> host_fresh r (snd (RegisterTool r t h))"
  using assms stageRegister_ok[of pt_Name "ho_tools h" t "pt_Name t" "ho_name h" "rg_tools r"]
    stageRegister_fresh[of "rg_tools r" "ho_tools h" "ho_name h" "pt_Name t" t]
  by (auto simp: RegisterTool_def host_ok_def host_fresh_def split: prod.splits)

lemma RegisterCommand_keeps:
  assumes "host_ok h"
  shows "host_ok (snd (RegisterCommand r c h))" and "host_fresh r h \<Longrightarrow> host_fresh r (snd (RegisterCommand r c h))"
proof -
  let ?c = "c\<lparr>cm_Owner := ho_name h\<rparr>"
  obtain e sg where s: "stageRegister (ho_name h) (cm_Name c) ?c (rg_commands r) (ho_commands h) = (e, sg)"
    by (cases "stageRegister (ho_name h) (cm_Name c) ?c (rg_commands r) (ho_commands h)") auto
  have "stage_ok cm_Name sg"
    using stageRegister_ok[of cm_Name "ho_commands h" ?c "cm_Name c" "ho_name h" "rg_commands r"] assms s by (simp add: host_ok_def)
  moreover have "cm_Owner x = ho_name h" if "sg_entries sg n = Some x" for n x
    using stageRegister_values[OF s that] assms by (auto simp: host_ok_def)
  ultimately show "host_ok (snd (RegisterCommand r c h))" using assms s by (simp add: RegisterCommand_def host_ok_def)
  show "host_fresh r h \<Longrightarrow> host_fresh r (snd (RegisterCommand r c h))"
    using stageRegister_fresh[OF _ s] s by (simp add: RegisterCommand_def host_fresh_def)
qed

lemma RegisterAgent_keeps:
  assumes "host_ok h"
  shows "host_ok (snd (RegisterAgent r d h))" and "host_fresh r h \<Longrightarrow> host_fresh r (snd (RegisterAgent r d h))"
  using assms stageRegister_ok[of de_Name "ho_agents h" d "de_Name d" "ho_name h" "rg_agents r"]
    stageRegister_fresh[of "rg_agents r" "ho_agents h" "ho_name h" "de_Name d" d]
  by (auto simp: RegisterAgent_def host_ok_def host_fresh_def split: prod.splits)

lemma drop_call_frame [simp]:
  "host_ok (drop_call i h) = host_ok h" "host_fresh r (drop_call i h) = host_fresh r h" "ho_name (drop_call i h) = ho_name h"
  "ho_live (drop_call i h) = ho_live h"
  "ho_providers (drop_call i h) = ho_providers h" "ho_runtimes (drop_call i h) = ho_runtimes h"
  "set (ho_calls (drop_call i h)) \<subseteq> set (ho_calls h)"
  by (auto simp: drop_call_def host_ok_def host_fresh_def dest: in_set_takeD in_set_dropD)

lemma set_calls_frame [simp]: "host_ok (h\<lparr>ho_calls := cs\<rparr>) = host_ok h" "host_fresh r (h\<lparr>ho_calls := cs\<rparr>) = host_fresh r h"
  by (simp_all add: host_ok_def host_fresh_def)

lemma stage_service_keeps:
  assumes "host_ok h"
  shows "host_ok (snd (stage_service r k p h)) \<and> (host_fresh r h \<longrightarrow> host_fresh r (snd (stage_service r k p h)))"
  using assms stageRegister_ok[of sv_Name "ho_providers h" p "sv_Name p" "ho_name h" "rg_providers r"]
    stageRegister_fresh[of "rg_providers r" "ho_providers h" "ho_name h" "sv_Name p" p]
    stageRegister_ok[of sv_Name "ho_runtimes h" p "sv_Name p" "ho_name h" "rg_runtimes r"]
    stageRegister_fresh[of "rg_runtimes r" "ho_runtimes h" "ho_name h" "sv_Name p" p]
  by (cases k) (auto simp: stage_service_def host_ok_def host_fresh_def split: prod.splits)

lemma register_next_keeps:
  assumes "host_ok h"
  shows "host_ok (snd (register_next r i h)) \<and> (host_fresh r h \<longrightarrow> host_fresh r (snd (register_next r i h)))"
  using assms stage_service_keeps[of "drop_call i h" r]
  by (auto simp: register_next_def split: prod.split register_pc.split option.split)

lemma host_do_host:
  assumes "host_ok h"
  shows "host_ok (snd (host_do op (r, h))) \<and> (host_fresh r h \<longrightarrow> host_fresh r (snd (host_do op (r, h))))"
proof (cases op)
  case (OpStatus key c)
  with assms staged_status_ok[OF assms] show ?thesis by (simp add: host_do_def SetStatus_def Let_def host_fresh_def)
next
  case (OpWidget key slot c)
  with assms staged_widget_ok[OF assms] show ?thesis by (simp add: host_do_def SetWidget_def Let_def host_fresh_def)
next
  case (OpHook hh)
  with assms show ?thesis by (auto simp: host_do_def RegisterHook_def host_ok_def host_fresh_def hook_ok_def)
qed (use assms RegisterTool_keeps RegisterCommand_keeps RegisterAgent_keeps register_next_keeps
    in \<open>simp_all add: host_do_def RegisterProvider_def RegisterRuntime_def split: option.split\<close>)

section \<open>Writes through the host\<close>

lemma put_tables [simp]:
  "tables_ok (putStatusLocked it r) = tables_ok r" "table_owners (putStatusLocked it r) = table_owners r"
  "host_fresh (putStatusLocked it r) h = host_fresh r h" "rg_loaded (putStatusLocked it r) = rg_loaded r"
  "rg_statuses (putStatusLocked it r) = rg_statuses r" "rg_failed (putStatusLocked it r) = rg_failed r"
  "tables_ok (putWidgetLocked wi r) = tables_ok r" "table_owners (putWidgetLocked wi r) = table_owners r"
  "host_fresh (putWidgetLocked wi r) h = host_fresh r h" "rg_loaded (putWidgetLocked wi r) = rg_loaded r"
  "rg_statuses (putWidgetLocked wi r) = rg_statuses r" "rg_failed (putWidgetLocked wi r) = rg_failed r"
  by (simp_all add: putStatusLocked_def putWidgetLocked_def Let_def tables_ok_def table_owners_def host_fresh_def)

lemma put_items:
  assumes "items_ok r"
  shows "items_ok (putStatusLocked it r)" and "WidgetSlot_Valid (wi_Slot wi) \<Longrightarrow> items_ok (putWidgetLocked wi r)"
proof -
  let ?k = "(si_Owner it, si_Key it)"
  from assms have k: "keys_ok status_ok (rg_status r) (rg_statusOrder r)" "keys_ok widget_ok (rg_widgets r) (rg_widgetOrder r)"
    by (simp_all add: items_ok_def)
  show "items_ok (putStatusLocked it r)"
  proof (cases "si_Content it = []")
    case True
    with k keys_ok_del[OF k(1), of ?k] show ?thesis by (auto simp: putStatusLocked_def items_ok_def Let_def)
  next
    case False
    with keys_ok_put[OF k(1), of ?k it] k show ?thesis by (auto simp: putStatusLocked_def items_ok_def status_ok_def Let_def)
  qed
  show "items_ok (putWidgetLocked wi r)" if "WidgetSlot_Valid (wi_Slot wi)"
    using keys_ok_put[OF k(2), of "(wi_Owner wi, wi_Key wi)" wi] k that by (auto simp: putWidgetLocked_def items_ok_def widget_ok_def Let_def)
qed

lemma put_item_owners:
  "item_owners (putStatusLocked it r) \<subseteq> insert (si_Owner it) (item_owners r)"
  "item_owners (putWidgetLocked wi r) \<subseteq> insert (wi_Owner wi) (item_owners r)"
  by (auto simp: putStatusLocked_def putWidgetLocked_def item_owners_def Let_def image_iff split: if_splits)

lemma host_do_reg_cases:
  obtains (same) "fst (host_do op (r, h)) = r"
  | (status) it where "ho_live h" "ho_name h \<notin> rg_failed r" "si_Owner it = ho_name h" "fst (host_do op (r, h)) = putStatusLocked it r"
  | (widget) wi where "ho_live h" "ho_name h \<notin> rg_failed r" "wi_Owner wi = ho_name h" "WidgetSlot_Valid (wi_Slot wi)"
      "fst (host_do op (r, h)) = putWidgetLocked wi r"
proof (cases op)
  case (OpStatus key c)
  then show ?thesis
  proof (cases "ho_live h \<and> ho_name h \<notin> rg_failed r")
    case True
    with OpStatus show ?thesis
      by (intro status[of "\<lparr>si_Owner = ho_name h, si_Key = key, si_Content = c\<rparr>"])
        (simp_all add: host_do_def SetStatus_def setStatusItem_def)
  qed (use OpStatus in \<open>auto intro!: same simp: host_do_def SetStatus_def setStatusItem_def Let_def\<close>)
next
  case (OpWidget key slot c)
  then show ?thesis
  proof (cases "ho_live h \<and> ho_name h \<notin> rg_failed r \<and> WidgetSlot_Valid slot")
    case True
    with OpWidget show ?thesis
      by (intro widget[of "\<lparr>wi_Owner = ho_name h, wi_Key = key, wi_Slot = slot, wi_Content = c\<rparr>"])
        (simp_all add: host_do_def SetWidget_def setWidget_def)
  qed (use OpWidget in \<open>auto intro!: same simp: host_do_def SetWidget_def setWidget_def Let_def\<close>)
qed (use same in \<open>simp_all add: host_do_def\<close>)

lemma host_do_reg:
  defines "r' \<equiv> \<lambda>op r h. fst (host_do op (r, h))"
  assumes "items_ok r"
  shows "items_ok (r' op r h)" and "tables_ok (r' op r h) = tables_ok r" and "table_owners (r' op r h) = table_owners r"
    and "item_owners (r' op r h) \<subseteq> item_owners r \<union> (if ho_live h \<and> ho_name h \<notin> rg_failed r then {ho_name h} else {})"
    and "host_fresh (r' op r h) h' = host_fresh r h'" and "rg_loaded (r' op r h) = rg_loaded r"
    and "rg_statuses (r' op r h) = rg_statuses r" and "rg_failed (r' op r h) = rg_failed r"
  unfolding r'_def
  by (rule host_do_reg_cases[of op r h]; use assms(2) put_items put_item_owners in \<open>fastforce\<close>)+

section \<open>Commit and failure\<close>

lemma commit_tables_ok:
  assumes "tables_ok r" and "host_ok h" and "host_fresh r h"
  shows "tables_ok (commit_tables h r)"
proof -
  note t = assms(1)[unfolded tables_ok_def] and h = assms(2)[unfolded host_ok_def] and f = assms(3)[unfolded host_fresh_def]
  have "cm_Owner c = o'" if "tb_entries (rg_commands (commit_tables h r)) n = Some (o', c)" for n o' c
    using commit_table_entry[of cm_Name "ho_commands h" "ho_name h" "rg_commands r" n o' c] that t h by (auto simp: commit_tables_def)
  moreover have "\<forall>oh\<in>set (rg_hooks (commit_tables h r)). hook_ok (oh_Handler oh)"
    using t h by (auto simp: commit_tables_def list_all_iff)
  ultimately show ?thesis
    using t h f by (simp add: tables_ok_def) (simp add: commit_tables_def commit_table_ok)
qed

lemma commit_tables_owners:
  assumes "host_ok h"
  shows "table_owners (commit_tables h r) \<subseteq> insert (ho_name h) (table_owners r)"
proof -
  note h = assms[unfolded host_ok_def]
  have s: "stage_ok pt_Name (ho_tools h)" "stage_ok cm_Name (ho_commands h)" "stage_ok sv_Name (ho_providers h)"
      "stage_ok sv_Name (ho_runtimes h)" "stage_ok de_Name (ho_agents h)" using h by simp_all
  show ?thesis
    using commit_table_owners[OF s(1), of "ho_name h" "rg_tools r"] commit_table_owners[OF s(2), of "ho_name h" "rg_commands r"]
      commit_table_owners[OF s(3), of "ho_name h" "rg_providers r"] commit_table_owners[OF s(4), of "ho_name h" "rg_runtimes r"]
      commit_table_owners[OF s(5), of "ho_name h" "rg_agents r"]
    by (fastforce simp: table_owners_def commit_tables_def)
qed

lemma put_statuses:
  assumes "items_ok r" and "\<forall>it\<in>set its. si_Owner it = o'"
  shows "items_ok (fold putStatusLocked its r) \<and> item_owners (fold putStatusLocked its r) \<subseteq> insert o' (item_owners r) \<and>
    tables_ok (fold putStatusLocked its r) = tables_ok r \<and> table_owners (fold putStatusLocked its r) = table_owners r \<and>
    rg_loaded (fold putStatusLocked its r) = rg_loaded r \<and> rg_statuses (fold putStatusLocked its r) = rg_statuses r \<and>
    rg_failed (fold putStatusLocked its r) = rg_failed r"
  using assms
proof (induction its arbitrary: r)
  case (Cons it its)
  from Cons.IH[OF put_items(1)[OF Cons.prems(1), of it]] Cons.prems(2) put_item_owners(1)[of it r] show ?case by auto
qed auto

lemma put_widgets:
  assumes "items_ok r" and "\<forall>wi\<in>set wis. wi_Owner wi = o' \<and> WidgetSlot_Valid (wi_Slot wi)"
  shows "items_ok (fold putWidgetLocked wis r) \<and> item_owners (fold putWidgetLocked wis r) \<subseteq> insert o' (item_owners r) \<and>
    tables_ok (fold putWidgetLocked wis r) = tables_ok r \<and> table_owners (fold putWidgetLocked wis r) = table_owners r \<and>
    rg_loaded (fold putWidgetLocked wis r) = rg_loaded r \<and> rg_statuses (fold putWidgetLocked wis r) = rg_statuses r \<and>
    rg_failed (fold putWidgetLocked wis r) = rg_failed r"
  using assms
proof (induction wis arbitrary: r)
  case (Cons wi wis)
  from Cons.IH[OF put_items(2)[OF Cons.prems(1), of wi]] Cons.prems(2) put_item_owners(2)[of wi r] show ?case by auto
qed auto

lemma commit_ok:
  assumes "tables_ok r" and "items_ok r" and "host_ok h" and "host_fresh r h" and "Registry_commit (r, h) = (r', h')"
  shows "tables_ok r' \<and> items_ok r' \<and> table_owners r' \<subseteq> insert (ho_name h) (table_owners r) \<and>
    item_owners r' \<subseteq> insert (ho_name h) (item_owners r) \<and> rg_loaded r' = rg_loaded r \<and> rg_statuses r' = rg_statuses r \<and>
    rg_failed r' = rg_failed r \<and> h' = h\<lparr>ho_live := True\<rparr>"
proof -
  let ?t = "commit_tables h r" and ?s = "fold putStatusLocked (stage_values (ho_status h)) (commit_tables h r)"
  have plain: "items_ok ?t" "item_owners ?t = item_owners r" "rg_loaded ?t = rg_loaded r" "rg_statuses ?t = rg_statuses r"
      "rg_failed ?t = rg_failed r"
    using assms(2) by (simp_all add: commit_tables_def items_ok_def item_owners_def)
  have st: "\<forall>it\<in>set (stage_values (ho_status h)). si_Owner it = ho_name h"
    using assms(3) stage_values_in[of si_Key "ho_status h"] unfolding host_ok_def by blast
  have wi: "\<forall>wi\<in>set (stage_values (ho_widgets h)). wi_Owner wi = ho_name h \<and> WidgetSlot_Valid (wi_Slot wi)"
    using assms(3) stage_values_in[of wi_Key "ho_widgets h"] unfolding host_ok_def by blast
  have s: "items_ok ?s" using put_statuses[OF plain(1) st] by blast
  from assms(5) have r': "r' = fold putWidgetLocked (stage_values (ho_widgets h)) ?s" "h' = h\<lparr>ho_live := True\<rparr>"
    by (simp_all add: Registry_commit_def)
  show ?thesis
    using put_statuses[OF plain(1) st] put_widgets[OF s wi] commit_tables_ok[OF assms(1,3,4)] commit_tables_owners[OF assms(3), of r] plain
    unfolding r' by auto
qed

lemma Fail_ok:
  assumes "tables_ok r" and "items_ok r"
  shows "tables_ok (Registry_Fail name reason r) \<and> items_ok (Registry_Fail name reason r) \<and>
    table_owners (Registry_Fail name reason r) = table_owners r - {name} \<and>
    item_owners (Registry_Fail name reason r) = item_owners r - {name} \<and> rg_loaded (Registry_Fail name reason r) = rg_loaded r \<and>
    (host_fresh r h \<longrightarrow> host_fresh (Registry_Fail name reason r) h)"
proof -
  note t = assms(1)[unfolded tables_ok_def]
  have w: "tbl_ok pt_Name (rg_tools r)" "tbl_ok cm_Name (rg_commands r)" "tbl_ok sv_Name (rg_providers r)"
      "tbl_ok sv_Name (rg_runtimes r)" "tbl_ok de_Name (rg_agents r)" using t by simp_all
  have d: "dom (tb_entries (withdraw name (rg_tools r))) \<subseteq> dom (tb_entries (rg_tools r))"
      "dom (tb_entries (withdraw name (rg_commands r))) \<subseteq> dom (tb_entries (rg_commands r))"
      "dom (tb_entries (withdraw name (rg_providers r))) \<subseteq> dom (tb_entries (rg_providers r))"
      "dom (tb_entries (withdraw name (rg_runtimes r))) \<subseteq> dom (tb_entries (rg_runtimes r))"
      "dom (tb_entries (withdraw name (rg_agents r))) \<subseteq> dom (tb_entries (rg_agents r))"
    using w by (auto intro!: withdraw_dom simp del: dom_def)
  have c: "cm_Owner c = o'" if "tb_entries (withdraw name (rg_commands r)) n = Some (o', c)" for n o' c
    using that t by (auto simp: withdraw_entries[OF w(2)] split: option.splits if_splits prod.splits)
  have tab: "tables_ok (Registry_Fail name reason r)"
    using t c w by (simp add: tables_ok_def Registry_Fail_def withdraw_ok)
  have own: "table_owners (Registry_Fail name reason r) = table_owners r - {name}"
    using w by (auto simp: table_owners_def Registry_Fail_def withdraw_owners)
  note k = assms(2)[unfolded items_ok_def]
  have it: "items_ok (Registry_Fail name reason r)" "item_owners (Registry_Fail name reason r) = item_owners r - {name}"
    using keys_ok_withdraw[of status_ok "rg_status r" "rg_statusOrder r" name]
      keys_ok_withdraw[of widget_ok "rg_widgets r" "rg_widgetOrder r" name] k
    by (auto simp: items_ok_def item_owners_def Registry_Fail_def)
  have "host_fresh (Registry_Fail name reason r) h" if "host_fresh r h"
    using that d by (auto simp: host_fresh_def Registry_Fail_def intro: fresh_sub simp del: dom_def)
  with tab own it show ?thesis by (simp add: Registry_Fail_def)
qed

section \<open>Every step keeps the invariant\<close>

lemma pl_inv_no_plugins: "pl_inv no_plugins"
  by (simp add: pl_inv_def no_plugins_def NewRegistry_def tables_ok_def items_ok_def keys_ok_def table_owners_def item_owners_def pc_ok_def)

lemma newHost_ok [simp]: "host_ok (newHost n)" "host_fresh r (newHost n)" "\<not> ho_live (newHost n)" "ho_name (newHost n) = n"
  by (simp_all add: newHost_def host_ok_def host_fresh_def)

lemma load_begin_inv:
  assumes "pl_inv w" and "pl_pc w = LoadIdle"
  shows "pl_inv (load_begin name origin w)"
proof (cases "name \<in> rg_disabled (pl_reg w)")
  case False
  let ?r = "(pl_reg w)\<lparr>rg_statuses := rg_statuses (pl_reg w) @ [\<lparr>st_Name = name, st_Origin = origin, st_State = StateLoading, st_Reason = []\<rparr>]\<rparr>"
  have same: "tables_ok ?r = tables_ok (pl_reg w)" "items_ok ?r = items_ok (pl_reg w)" "table_owners ?r = table_owners (pl_reg w)"
      "item_owners ?r = item_owners (pl_reg w)"
    by (simp_all add: tables_ok_def items_ok_def table_owners_def item_owners_def)
  have names: "ok_names (load_begin name origin w) = ok_names w" using False assms(2) by (simp add: load_begin_def ok_names_def)
  show ?thesis
    using assms(1) False same names by (auto simp: pl_inv_def pc_ok_def load_begin_def)
qed (use assms in \<open>simp add: load_begin_def\<close>)

lemma host_call_inv:
  assumes inv: "pl_inv w" and j: "j < length (pl_hosts w)"
  shows "pl_inv (plugin_step w (HostCall j op))"
proof -
  let ?h = "pl_hosts w ! j" and ?r = "pl_reg w"
  obtain r' h' where rh: "host_do op (?r, ?h) = (r', h')" by (cases "host_do op (?r, ?h)") auto
  from inv j have hok: "host_ok ?h" "ho_live ?h \<longrightarrow> ho_name ?h \<in> ok_names w" and r: "tables_ok ?r" "items_ok ?r"
    by (auto simp: pl_inv_def)
  note reg = host_do_reg[OF r(2), of op ?h, unfolded rh, simplified]
  have h': "host_ok h'" "ho_name h' = ho_name ?h" "ho_live h' = ho_live ?h" "host_fresh ?r ?h \<longrightarrow> host_fresh ?r h'"
    using host_do_host[OF hok(1), of op ?r] host_do_name[of op ?r ?h] rh by auto
  let ?w = "w\<lparr>pl_reg := r', pl_hosts := (pl_hosts w)[j := h']\<rparr>"
  have nth: "ho_name ((pl_hosts w)[j := h'] ! i) = ho_name (pl_hosts w ! i)" if "i < length (pl_hosts w)" for i
    using that j h'(2) by (cases "i = j") auto
  have pc: "pc_ok w" using inv by (simp add: pl_inv_def)
  have names: "ok_names ?w = ok_names w"
    using pc nth reg(6) by (auto simp: ok_names_def pc_ok_def split: load_pc.splits)
  have pc': "pc_ok ?w"
    using pc h' j reg(5,7) by (auto simp: pc_ok_def nth_list_update split: load_pc.splits)
  have hosts: "host_ok x \<and> (ho_live x \<longrightarrow> ho_name x \<in> ok_names w)" if "x \<in> set ((pl_hosts w)[j := h'])" for x
    using set_update_subset_insert[of "pl_hosts w" j h'] that inv h' hok by (auto simp: pl_inv_def)
  have "item_owners r' \<subseteq> ok_names w" using reg(4) hok(2) inv by (auto simp: pl_inv_def split: if_splits)
  then have "pl_inv ?w" using inv hosts pc' names reg(1-3) by (simp add: pl_inv_def)
  then show ?thesis using j rh by (simp add: plugin_step_def)
qed

lemma init_returns_inv:
  assumes inv: "pl_inv w" and pc: "pl_pc w = LoadInit i k origin"
  shows "pl_inv (plugin_step w (InitReturns err))"
proof (cases err)
  case (Some reason)
  have "ok_names (plugin_step w (InitReturns err)) = ok_names w" using pc Some by (simp add: plugin_step_def ok_names_def statusAt_def)
  then show ?thesis
    using inv pc Some
    by (simp add: pl_inv_def pc_ok_def plugin_step_def statusAt_def tables_ok_def items_ok_def table_owners_def item_owners_def)
next
  case None
  let ?h = "pl_hosts w ! i"
  from inv pc have i: "i < length (pl_hosts w)" "k < length (rg_statuses (pl_reg w))" "host_fresh (pl_reg w) ?h" "host_ok ?h"
    by (auto simp: pl_inv_def pc_ok_def)
  obtain r' h' where rh: "Registry_commit (pl_reg w, ?h) = (r', h')" by (cases "Registry_commit (pl_reg w, ?h)") auto
  from inv have r: "tables_ok (pl_reg w)" "items_ok (pl_reg w)" by (simp_all add: pl_inv_def)
  note c = commit_ok[OF r i(4,3) rh]
  let ?w = "w\<lparr>pl_reg := r', pl_hosts := (pl_hosts w)[i := h'], pl_pc := LoadCommitted i k origin\<rparr>"
  have names: "ok_names ?w = insert (ho_name ?h) (ok_names w)" using c i pc by (simp add: ok_names_def)
  have h': "host_ok h'" "ho_name h' = ho_name ?h" using c i(4) by (simp_all add: host_ok_def)
  have hosts: "host_ok x \<and> (ho_live x \<longrightarrow> ho_name x \<in> ok_names ?w)" if "x \<in> set ((pl_hosts w)[i := h'])" for x
    using set_update_subset_insert[of "pl_hosts w" i h'] that inv h' names by (auto simp: pl_inv_def)
  have "pl_inv ?w" using inv hosts names c i(1,2) by (auto simp: pl_inv_def pc_ok_def)
  then show ?thesis using None pc rh by (simp add: plugin_step_def)
qed

lemma load_append_inv:
  assumes inv: "pl_inv w" and pc: "pl_pc w = LoadCommitted i k origin"
  shows "pl_inv (plugin_step w LoadAppend)"
proof -
  have "ok_names (plugin_step w LoadAppend) = ok_names w" using pc by (auto simp: plugin_step_def ok_names_def)
  then show ?thesis
    using inv pc
    by (simp add: pl_inv_def pc_ok_def plugin_step_def tables_ok_def items_ok_def table_owners_def item_owners_def)
qed

lemma load_ready_inv:
  assumes inv: "pl_inv w" and pc: "pl_pc w = LoadAppended i k origin"
  shows "pl_inv (plugin_step w LoadReady)"
proof -
  have "ok_names (plugin_step w LoadReady) = ok_names w" using pc by (simp add: plugin_step_def ok_names_def statusAt_def)
  then show ?thesis
    using inv pc
    by (simp add: pl_inv_def pc_ok_def plugin_step_def statusAt_def tables_ok_def items_ok_def table_owners_def item_owners_def)
qed

lemma fail_inv:
  assumes inv: "pl_inv w"
  shows "pl_inv (plugin_step w (FailPlugin name reason))"
proof -
  from inv have r: "tables_ok (pl_reg w)" "items_ok (pl_reg w)" by (simp_all add: pl_inv_def)
  note f = Fail_ok[OF r, of name reason]
  have len: "length (rg_statuses (Registry_Fail name reason (pl_reg w))) = length (rg_statuses (pl_reg w))" by (simp add: Registry_Fail_def)
  have "ok_names (plugin_step w (FailPlugin name reason)) = ok_names w" using f by (auto simp: plugin_step_def ok_names_def split: load_pc.splits)
  moreover have "pc_ok (plugin_step w (FailPlugin name reason))"
    using inv f len by (auto simp: pl_inv_def pc_ok_def plugin_step_def split: load_pc.splits)
  ultimately show ?thesis using inv f by (auto simp: pl_inv_def plugin_step_def)
qed

lemma disable_inv: "pl_inv w \<Longrightarrow> pl_inv (plugin_step w (DisablePlugins names))"
  by (auto simp: pl_inv_def pc_ok_def ok_names_def plugin_step_def tables_ok_def items_ok_def table_owners_def item_owners_def
      host_fresh_def split: load_pc.splits)

lemma plugin_step_inv:
  assumes "pl_inv w"
  shows "pl_inv (plugin_step w ev)"
proof (cases ev)
  case (LoadNext name origin)
  with load_begin_inv[OF assms] assms show ?thesis by (simp add: plugin_step_def)
next
  case (HostCall j op)
  with host_call_inv[OF assms] assms show ?thesis by (cases "j < length (pl_hosts w)") (simp_all add: plugin_step_def)
next
  case (InitReturns err)
  with init_returns_inv[OF assms] assms show ?thesis by (cases "pl_pc w") (simp_all add: plugin_step_def)
next
  case LoadAppend
  with load_append_inv[OF assms] assms show ?thesis by (cases "pl_pc w") (simp_all add: plugin_step_def)
next
  case LoadReady
  with load_ready_inv[OF assms] assms show ?thesis by (cases "pl_pc w") (simp_all add: plugin_step_def)
qed (use assms fail_inv disable_inv in simp_all)

interpretation plugin_machine: guarded_machine plugin_step "\<lambda>_ _. True" pl_inv
  by unfold_locales (rule plugin_step_inv)

lemma run_plugins_inv: "pl_inv (run_ops plugin_step no_plugins evs)"
  by (rule plugin_machine.run_inv) (simp_all add: pl_inv_no_plugins plugin_machine.admitted_all)

section \<open>Providers and runtimes\<close>

text \<open>
  A name is not both a provider and a runtime as long as no plugin registers one while its registration of
  the other under the same name is under way. Then each registration still knows, when it stages, what its
  two reads told it.
\<close>

fun other_kind :: "service_kind \<Rightarrow> service_kind" where
  "other_kind ProviderService = RuntimeService"
| "other_kind RuntimeService = ProviderService"

fun staged_names :: "service_kind \<Rightarrow> host \<Rightarrow> bytes set" where
  "staged_names ProviderService h = dom (sg_entries (ho_providers h))"
| "staged_names RuntimeService h = dom (sg_entries (ho_runtimes h))"

fun committed_names :: "service_kind \<Rightarrow> Registry \<Rightarrow> bytes set" where
  "committed_names ProviderService r = dom (tb_entries (rg_providers r))"
| "committed_names RuntimeService r = dom (tb_entries (rg_runtimes r))"

text \<open>A call of a plugin that does not overlap a registration of the other kind under the same name.\<close>

definition calls_clear :: "service_kind \<Rightarrow> PluginService \<Rightarrow> host \<Rightarrow> bool" where
  "calls_clear k p h \<longleftrightarrow> list_all (\<lambda>(k', p', _). k' = k \<or> sv_Name p' \<noteq> sv_Name p) (ho_calls h)"

definition no_overlap :: "plugins \<Rightarrow> plugin_event \<Rightarrow> bool" where
  "no_overlap w ev \<longleftrightarrow>
     (case ev of
        HostCall j (OpProvider (Some p)) \<Rightarrow> j < length (pl_hosts w) \<longrightarrow> calls_clear ProviderService p (pl_hosts w ! j)
      | HostCall j (OpRuntime (Some p)) \<Rightarrow> j < length (pl_hosts w) \<longrightarrow> calls_clear RuntimeService p (pl_hosts w ! j)
      | _ \<Rightarrow> True)"

fun never_overlap :: "plugins \<Rightarrow> plugin_event list \<Rightarrow> bool" where
  "never_overlap w [] = True"
| "never_overlap w (ev # evs) = (no_overlap w ev \<and> never_overlap (plugin_step w ev) evs)"

definition call_knows :: "Registry \<Rightarrow> host \<Rightarrow> service_kind \<times> PluginService \<times> register_pc \<Rightarrow> bool" where
  "call_knows r h c \<longleftrightarrow>
     (case c of
        (k, p, ReadCommitted staged) \<Rightarrow> staged \<or> sv_Name p \<notin> staged_names (other_kind k) h
      | (k, p, StageService) \<Rightarrow> sv_Name p \<notin> staged_names (other_kind k) h \<union> committed_names (other_kind k) r)"

definition calls_apart :: "(service_kind \<times> PluginService \<times> register_pc) set \<Rightarrow> bool" where
  "calls_apart cs \<longleftrightarrow> (\<forall>(k, p, _)\<in>cs. \<forall>(k', p', _)\<in>cs. k \<noteq> k' \<longrightarrow> sv_Name p \<noteq> sv_Name p')"

definition stages_apart :: "Registry \<Rightarrow> host \<Rightarrow> bool" where
  "stages_apart r h \<longleftrightarrow>
     (\<forall>k. staged_names k h \<inter> (staged_names (other_kind k) h \<union> committed_names (other_kind k) r) = {})"

definition host_apart :: "Registry \<Rightarrow> host \<Rightarrow> bool" where
  "host_apart r h \<longleftrightarrow> stages_apart r h \<and> calls_apart (set (ho_calls h)) \<and> (\<forall>c\<in>set (ho_calls h). call_knows r h c)"

definition tables_apart :: "Registry \<Rightarrow> bool" where
  "tables_apart r \<longleftrightarrow> committed_names ProviderService r \<inter> committed_names RuntimeService r = {}"

definition apart :: "plugins \<Rightarrow> bool" where
  "apart w \<longleftrightarrow> tables_apart (pl_reg w) \<and>
     (case pl_pc w of LoadInit i _ _ \<Rightarrow> host_apart (pl_reg w) (pl_hosts w ! i) | _ \<Rightarrow> True)"

lemma calls_apart_sub: "calls_apart cs \<Longrightarrow> cs' \<subseteq> cs \<Longrightarrow> calls_apart cs'"
  unfolding calls_apart_def by blast

lemma staged_names_frame:
  "ho_providers h' = ho_providers h \<Longrightarrow> ho_runtimes h' = ho_runtimes h \<Longrightarrow> staged_names k h' = staged_names k h"
  by (cases k) simp_all

lemma host_apart_sub:
  assumes "host_apart r h" and "ho_providers h' = ho_providers h" and "ho_runtimes h' = ho_runtimes h"
    and "set (ho_calls h') \<subseteq> set (ho_calls h)"
  shows "host_apart r h'"
proof -
  have n: "staged_names k h' = staged_names k h" for k using assms(2,3) by (rule staged_names_frame)
  then have "stages_apart r h' = stages_apart r h" by (simp add: stages_apart_def)
  moreover have "call_knows r h' (k, p, pc) = call_knows r h (k, p, pc)" for k p pc
    using n by (cases pc) (simp_all add: call_knows_def)
  then have "call_knows r h' c = call_knows r h c" for c by (cases c) simp
  ultimately show ?thesis using assms(1) subsetD[OF assms(4)] calls_apart_sub[OF _ assms(4)] by (simp add: host_apart_def)
qed

lemma host_apart_shrink:
  assumes "host_apart r h" and "\<And>k. committed_names k r' \<subseteq> committed_names k r"
  shows "host_apart r' h"
proof -
  have "call_knows r h (k, p, pc) \<Longrightarrow> call_knows r' h (k, p, pc)" for k p pc
    using assms(2)[of "other_kind k"] by (cases pc) (auto simp: call_knows_def)
  then have "call_knows r h c \<Longrightarrow> call_knows r' h c" for c by (cases c) blast
  moreover have "staged_names k h \<inter> (staged_names (other_kind k) h \<union> committed_names (other_kind k) r') = {}"
    if "stages_apart r h" for k
    using that assms(2)[of "other_kind k"] unfolding stages_apart_def by blast
  then have "stages_apart r h \<Longrightarrow> stages_apart r' h" by (simp add: stages_apart_def)
  ultimately show ?thesis using assms(1) by (simp add: host_apart_def)
qed

lemma stage_service_names:
  "staged_names k (snd (stage_service r k p h)) \<subseteq> insert (sv_Name p) (staged_names k h)"
  "staged_names (other_kind k) (snd (stage_service r k p h)) = staged_names (other_kind k) h"
  "ho_calls (snd (stage_service r k p h)) = ho_calls h"
proof -
  have p: "dom (sg_entries (snd (stageRegister o' n v t sg))) \<subseteq> insert n (dom (sg_entries sg))" for o' n t
    and v :: PluginService and sg
    using stageRegister_dom[OF prod.collapse[symmetric]] .
  show "staged_names k (snd (stage_service r k p h)) \<subseteq> insert (sv_Name p) (staged_names k h)"
    using p by (cases k) (simp_all add: stage_service_def split_beta)
  show "staged_names (other_kind k) (snd (stage_service r k p h)) = staged_names (other_kind k) h"
    "ho_calls (snd (stage_service r k p h)) = ho_calls h"
    by (cases k; simp add: stage_service_def split_beta)+
qed

lemma stage_service_apart:
  assumes "host_apart r h" and "sv_Name p \<notin> staged_names (other_kind k) h \<union> committed_names (other_kind k) r"
    and "\<forall>(k', p', _)\<in>set (ho_calls h). k' \<noteq> k \<longrightarrow> sv_Name p' \<noteq> sv_Name p"
  shows "host_apart r (snd (stage_service r k p h))"
proof -
  let ?h = "snd (stage_service r k p h)"
  note n = stage_service_names[where k = k and r = r and p = p and h = h]
  have two: "k' = k \<or> k' = other_kind k" for k' by (cases k; cases k') simp_all
  have inv: "other_kind (other_kind k) = k" by (cases k) simp_all
  have st: "stages_apart r h" using assms(1) by (simp add: host_apart_def)
  then have d: "staged_names k h \<inter> (staged_names (other_kind k) h \<union> committed_names (other_kind k) r) = {}"
    "staged_names (other_kind k) h \<inter> (staged_names k h \<union> committed_names k r) = {}"
    unfolding stages_apart_def by (blast, metis inv)
  have "staged_names k' ?h \<inter> (staged_names (other_kind k') ?h \<union> committed_names (other_kind k') r) = {}" for k'
    using two[of k'] n d assms(2) inv by (elim disjE) (simp, blast)+
  moreover have "call_knows r ?h c" if "c \<in> set (ho_calls h)" for c
  proof -
    obtain k' p' pc where c: "c = (k', p', pc)" by (cases c) auto
    have old: "call_knows r h c" using assms(1) that by (simp add: host_apart_def)
    show ?thesis
    proof (cases "k' = k")
      case True
      with old n(2) show ?thesis by (simp add: call_knows_def c split: register_pc.splits)
    next
      case False
      then have "other_kind k' = k" using two[of k'] inv by auto
      moreover have "sv_Name p' \<noteq> sv_Name p" using assms(3) that False by (auto simp: c)
      ultimately show ?thesis using old n(1) by (auto simp: call_knows_def c split: register_pc.splits)
    qed
  qed
  ultimately show ?thesis using assms(1) n(3) by (simp add: host_apart_def stages_apart_def)
qed

lemma call_knows_simps [simp]:
  "call_knows r h (k, p, ReadCommitted staged) \<longleftrightarrow> staged \<or> sv_Name p \<notin> staged_names (other_kind k) h"
  "call_knows r h (k, p, StageService) \<longleftrightarrow> sv_Name p \<notin> staged_names (other_kind k) h \<union> committed_names (other_kind k) r"
  by (simp_all add: call_knows_def)

lemma set_calls_apart [simp]:
  "staged_names k (h\<lparr>ho_calls := cs\<rparr>) = staged_names k h" "call_knows r (h\<lparr>ho_calls := cs\<rparr>) c = call_knows r h c"
  "stages_apart r (h\<lparr>ho_calls := cs\<rparr>) = stages_apart r h"
proof -
  show n: "staged_names k (h\<lparr>ho_calls := cs\<rparr>) = staged_names k h" for k by (rule staged_names_frame) simp_all
  have "call_knows r (h\<lparr>ho_calls := cs\<rparr>) (k, p, pc) = call_knows r h (k, p, pc)" for k p pc
    by (cases pc) (simp_all add: n)
  then show "call_knows r (h\<lparr>ho_calls := cs\<rparr>) c = call_knows r h c" by (cases c) blast
  show "stages_apart r (h\<lparr>ho_calls := cs\<rparr>) = stages_apart r h" by (simp add: stages_apart_def n)
qed

lemma register_next_apart:
  assumes "host_apart r h"
  shows "host_apart r (snd (register_next r i h))"
proof (cases "i < length (ho_calls h)")
  case True
  obtain k p pc where c: "ho_calls h ! i = (k, p, pc)" by (cases "ho_calls h ! i") auto
  with True have mem: "(k, p, pc) \<in> set (ho_calls h)" by (metis nth_mem)
  have drop: "host_apart r (drop_call i h)" by (rule host_apart_sub[OF assms]) simp_all
  show ?thesis
  proof (cases pc)
    case (ReadCommitted staged)
    let ?t = "case k of ProviderService \<Rightarrow> rg_runtimes r | RuntimeService \<Rightarrow> rg_providers r"
    show ?thesis
    proof (cases "checkNamespace (ho_name h) staged ?t (sv_Name p)")
      case None
      let ?h = "h\<lparr>ho_calls := (ho_calls h)[i := (k, p, StageService)]\<rparr>"
      have free: "\<not> staged" "sv_Name p \<notin> committed_names (other_kind k) r"
        using None by (cases k; auto simp: checkNamespace_def split: option.splits prod.splits if_splits)+
      have "call_knows r h (k, p, StageService)"
        using assms mem free by (auto simp: host_apart_def ReadCommitted)
      moreover have sub: "set (ho_calls ?h) \<subseteq> insert (k, p, StageService) (set (ho_calls h))"
        by (simp add: set_update_subset_insert)
      moreover have "calls_apart (insert (k, p, StageService) (set (ho_calls h)))"
        using assms mem unfolding host_apart_def calls_apart_def by fastforce
      ultimately have "host_apart r (h\<lparr>ho_calls := (k, p, StageService) # ho_calls h\<rparr>)"
        using assms by (simp add: host_apart_def)
      from host_apart_sub[OF this, of ?h] sub True c ReadCommitted None show ?thesis by (simp add: register_next_def)
    qed (use True c ReadCommitted drop in \<open>simp add: register_next_def\<close>)
  next
    case StageService
    have "sv_Name p \<notin> staged_names (other_kind k) (drop_call i h) \<union> committed_names (other_kind k) r"
      using assms mem staged_names_frame[of "drop_call i h" h] by (auto simp: host_apart_def StageService)
    moreover have "\<forall>(k', p', _)\<in>set (ho_calls (drop_call i h)). k' \<noteq> k \<longrightarrow> sv_Name p' \<noteq> sv_Name p"
      using assms mem drop_call_frame(7)[of i h] unfolding host_apart_def calls_apart_def by fastforce
    ultimately show ?thesis using stage_service_apart[OF drop] True c StageService by (simp add: register_next_def)
  qed
qed (use assms in \<open>simp add: register_next_def\<close>)

lemma begin_call_apart:
  assumes "host_apart r h" and "calls_clear k p h" and "staged \<longleftrightarrow> sv_Name p \<in> staged_names (other_kind k) h"
  shows "host_apart r (h\<lparr>ho_calls := ho_calls h @ [(k, p, ReadCommitted staged)]\<rparr>)"
proof -
  have "calls_apart (insert (k, p, ReadCommitted staged) (set (ho_calls h)))"
    using assms(1,2) unfolding host_apart_def calls_apart_def calls_clear_def list_all_iff by fastforce
  with assms(1,3) show ?thesis by (simp add: host_apart_def)
qed

lemma host_do_apart:
  assumes "host_apart r h" and "\<forall>p. op = OpProvider (Some p) \<longrightarrow> calls_clear ProviderService p h"
    and "\<forall>p. op = OpRuntime (Some p) \<longrightarrow> calls_clear RuntimeService p h"
  shows "host_apart r (snd (host_do op (r, h)))"
proof (cases op)
  case (OpProvider v)
  with assms begin_call_apart[OF assms(1), of ProviderService _ "sg_entries (ho_runtimes h) (sv_Name (the v)) \<noteq> None"] show ?thesis
    by (cases v) (simp_all add: host_do_def RegisterProvider_def domIff)
next
  case (OpRuntime v)
  with assms begin_call_apart[OF assms(1), of RuntimeService _ "sg_entries (ho_providers h) (sv_Name (the v)) \<noteq> None"] show ?thesis
    by (cases v) (simp_all add: host_do_def RegisterRuntime_def domIff)
next
  case (OpContinue i)
  with assms register_next_apart show ?thesis by (simp add: host_do_def)
qed (use host_apart_sub[OF assms(1)] in \<open>auto simp: host_do_def RegisterTool_def RegisterCommand_def RegisterAgent_def RegisterHook_def
      SetStatus_def SetWidget_def Let_def split: prod.split\<close>)

lemma put_committed [simp]:
  "committed_names k (putStatusLocked it r) = committed_names k r" "committed_names k (putWidgetLocked wi r) = committed_names k r"
  by (cases k; simp add: putStatusLocked_def putWidgetLocked_def Let_def)+

lemma host_do_committed: "committed_names k (fst (host_do op (r, h))) = committed_names k r"
  by (rule host_do_reg_cases[of op r h]) simp_all

lemma fold_put_committed:
  "committed_names k (fold putStatusLocked its r) = committed_names k r"
  "committed_names k (fold putWidgetLocked wis r) = committed_names k r"
  by (induction its arbitrary: r, simp_all) (induction wis arbitrary: r, simp_all)

lemma commit_apart:
  assumes "host_ok h" and "tables_apart r" and "stages_apart r h"
  shows "tables_apart (fst (Registry_commit (r, h)))"
proof -
  have names: "committed_names k (commit_tables h r) = committed_names k r \<union> staged_names k h" for k
    using assms(1) by (cases k) (simp_all add: commit_tables_def host_ok_def commit_table_dom[of sv_Name])
  have "staged_names ProviderService h \<inter> (staged_names RuntimeService h \<union> committed_names RuntimeService r) = {}"
    "staged_names RuntimeService h \<inter> (staged_names ProviderService h \<union> committed_names ProviderService r) = {}"
    using assms(3) unfolding stages_apart_def by (metis other_kind.simps)+
  with assms(2) show ?thesis
    by (simp add: tables_apart_def Registry_commit_def fold_put_committed names del: staged_names.simps committed_names.simps) blast
qed

lemma Fail_committed:
  assumes "tables_ok r"
  shows "committed_names k (Registry_Fail name reason r) \<subseteq> committed_names k r"
  using assms withdraw_dom[of sv_Name "rg_providers r" name] withdraw_dom[of sv_Name "rg_runtimes r" name]
  by (cases k) (simp_all add: Registry_Fail_def tables_ok_def)

lemma newHost_apart [simp]: "host_apart r (newHost n)"
proof -
  have "staged_names k (newHost n) = {}" for k by (cases k) (simp_all add: newHost_def)
  then show ?thesis by (simp add: host_apart_def stages_apart_def calls_apart_def newHost_def)
qed

lemma apart_frame:
  assumes "apart w" and "\<And>k. committed_names k r \<subseteq> committed_names k (pl_reg w)"
  shows "apart (w\<lparr>pl_reg := r\<rparr>)"
proof -
  have "tables_apart r" using assms unfolding apart_def tables_apart_def by blast
  with assms host_apart_shrink[OF _ assms(2)] show ?thesis by (auto simp: apart_def split: load_pc.splits)
qed

lemma apart_idle:
  assumes "apart w" and "\<And>k. committed_names k (pl_reg w') = committed_names k (pl_reg w)" and "\<forall>i k or. pl_pc w' \<noteq> LoadInit i k or"
  shows "apart w'"
  using assms by (auto simp: apart_def tables_apart_def split: load_pc.splits)

lemma committed_frame [simp]:
  "committed_names k (r\<lparr>rg_statuses := sts\<rparr>) = committed_names k r" "committed_names k (r\<lparr>rg_loaded := l\<rparr>) = committed_names k r"
  "committed_names k (r\<lparr>rg_disabled := d\<rparr>) = committed_names k r" "committed_names k (statusAt i st r) = committed_names k r"
  by (cases k; simp add: statusAt_def)+

lemma host_call_apart:
  assumes "pl_inv w" and "apart w" and j: "j < length (pl_hosts w)" and "no_overlap w (HostCall j op)"
  shows "apart (plugin_step w (HostCall j op))"
proof -
  let ?h = "pl_hosts w ! j" and ?r = "pl_reg w"
  obtain r' h' where rh: "host_do op (?r, ?h) = (r', h')" by (cases "host_do op (?r, ?h)") auto
  have c: "committed_names k r' = committed_names k ?r" for k using host_do_committed[of k op ?r ?h] rh by simp
  have "\<forall>p. op = OpProvider (Some p) \<longrightarrow> calls_clear ProviderService p ?h" "\<forall>p. op = OpRuntime (Some p) \<longrightarrow> calls_clear RuntimeService p ?h"
    using assms(4) j by (auto simp: no_overlap_def)
  then have "host_apart ?r ?h \<Longrightarrow> host_apart ?r h'" using host_do_apart[of ?r ?h op] rh by simp
  then have h': "host_apart ?r ?h \<Longrightarrow> host_apart r' h'" using host_apart_shrink[of ?r h' r'] c by blast
  have "apart (w\<lparr>pl_reg := r'\<rparr>)" by (rule apart_frame[OF assms(2)]) (simp add: c)
  with h' assms(1,2) j have "apart (w\<lparr>pl_reg := r', pl_hosts := (pl_hosts w)[j := h']\<rparr>)"
    by (auto simp: apart_def nth_list_update pl_inv_def pc_ok_def split: load_pc.splits)
  with j rh show ?thesis by (simp add: plugin_step_def)
qed

lemma init_returns_apart:
  assumes "pl_inv w" and "apart w" and pc: "pl_pc w = LoadInit i k origin"
  shows "apart (plugin_step w (InitReturns err))"
proof (cases err)
  case (Some reason)
  with pc show ?thesis by (intro apart_idle[OF assms(2)]) (simp_all add: plugin_step_def)
next
  case None
  obtain r' h' where rh: "Registry_commit (pl_reg w, pl_hosts w ! i) = (r', h')" by (metis prod.collapse)
  have "host_ok (pl_hosts w ! i)" "stages_apart (pl_reg w) (pl_hosts w ! i)" "tables_apart (pl_reg w)"
    using assms by (auto simp: pl_inv_def pc_ok_def apart_def host_apart_def)
  with commit_apart[of "pl_hosts w ! i" "pl_reg w"] rh None pc show ?thesis by (simp add: plugin_step_def apart_def)
qed

lemma plugin_step_apart:
  assumes "pl_inv w" and "apart w" and "no_overlap w ev"
  shows "apart (plugin_step w ev)"
proof (cases ev)
  case (LoadNext name origin)
  have "apart (load_begin name origin w)" if "pl_pc w = LoadIdle"
    using assms(2) that by (auto simp: apart_def load_begin_def tables_apart_def)
  with assms(2) LoadNext show ?thesis by (simp add: plugin_step_def)
next
  case (HostCall j op)
  with host_call_apart[OF assms(1,2)] assms show ?thesis by (cases "j < length (pl_hosts w)") (simp_all add: plugin_step_def)
next
  case (InitReturns err)
  with init_returns_apart[OF assms(1,2)] assms(2) show ?thesis by (cases "pl_pc w") (simp_all add: plugin_step_def)
next
  case LoadAppend
  with assms(2) show ?thesis
    by (cases "pl_pc w") (auto simp: plugin_step_def intro!: apart_idle[OF assms(2)])
next
  case LoadReady
  with assms(2) show ?thesis
    by (cases "pl_pc w") (auto simp: plugin_step_def intro!: apart_idle[OF assms(2)])
next
  case (FailPlugin name reason)
  have "tables_ok (pl_reg w)" using assms(1) by (simp add: pl_inv_def)
  from apart_frame[OF assms(2) Fail_committed[OF this]] FailPlugin show ?thesis by (simp add: plugin_step_def)
next
  case (DisablePlugins names)
  with apart_frame[OF assms(2), of "(pl_reg w)\<lparr>rg_disabled := rg_disabled (pl_reg w) \<union> set names\<rparr>"] show ?thesis
    by (simp add: plugin_step_def)
qed

interpretation service_machine: guarded_machine plugin_step no_overlap "\<lambda>w. pl_inv w \<and> apart w"
  by unfold_locales (simp add: plugin_step_inv plugin_step_apart)

lemma never_overlap_admitted: "never_overlap w evs = service_machine.admitted w evs"
  by (induction evs arbitrary: w) simp_all

lemma run_plugins_apart: "never_overlap no_plugins evs \<Longrightarrow> tables_apart (pl_reg (run_ops plugin_step no_plugins evs))"
proof -
  assume "never_overlap no_plugins evs"
  then have "service_machine.admitted no_plugins evs" by (simp add: never_overlap_admitted)
  moreover have "apart no_plugins" by (simp add: apart_def tables_apart_def no_plugins_def NewRegistry_def)
  ultimately show ?thesis using service_machine.run_inv[of no_plugins evs] pl_inv_no_plugins by (simp add: apart_def)
qed

end
