(* ===== verification/Plugin_Theorems.thy ===== *)
theory Plugin_Theorems
  imports Plugin_Inv
begin

text \<open>
  What the plugin registry promises: what its readers see is consistent and belongs to plugins that
  loaded, a plugin that fails to load leaves nothing, one that dies is gone for good, and hooks run in
  order of priority whatever the others do.
\<close>

section \<open>A sample load\<close>

definition tool0 :: PluginTool where
  "tool0 = \<lparr>pt_Name = ''grep'', pt_Description = ''Search files'', pt_Schema = ''{}'', pt_Safety = Safe, pt_Invoke = 1\<rparr>"

text \<open>A plugin that registers a tool and sets a status item, and the events of its load.\<close>

definition ops0 :: "host_op list" where
  "ops0 = [OpTool tool0, OpStatus ''branch'' [\<lparr>sp_Text = ''main'', sp_Role = ''muted''\<rparr>]]"

definition load0 :: "plugin_event list" where
  "load0 = LoadNext ''git'' ''spawned'' # map (HostCall 0) ops0 @ [InitReturns None, LoadAppend, LoadReady]"

lemmas plugin_sample =
  load0_def ops0_def tool0_def plugin_step_def no_plugins_def NewRegistry_def load_begin_def newHost_def host_do_def
  RegisterTool_def stageRegister_def SetStatus_def setStatusItem_def putStatusLocked_def stage_put_def Registry_commit_def
  commit_tables_def commit_table_def commit_one_def stage_values_def statusAt_def no_table_def no_stage_def Let_def

section \<open>Readers\<close>

lemma table_values_lookup:
  assumes "tbl_ok nm t"
  shows "distinct (map nm (table_values t))" and "x \<in> set (table_values t) \<longleftrightarrow> table_value t (nm x) = Some x"
    and "nm ` set (table_values t) = dom (tb_entries t)"
proof -
  from assms have d: "distinct (tb_order t)" and s: "set (tb_order t) = dom (tb_entries t)"
    and k: "\<And>n o' v. tb_entries t n = Some (o', v) \<Longrightarrow> nm v = n" by (simp_all add: tbl_ok_def)
  have names: "nm (snd (the (tb_entries t n))) = n" if "n \<in> set (tb_order t)" for n
    using that k by (auto simp: s)
  then have "map nm (table_values t) = tb_order t" by (simp add: table_values_def map_idI)
  then show "distinct (map nm (table_values t))" and "nm ` set (table_values t) = dom (tb_entries t)"
    using d s by (simp_all flip: set_map)
  show "x \<in> set (table_values t) \<longleftrightarrow> table_value t (nm x) = Some x"
  proof
    assume "x \<in> set (table_values t)"
    then obtain n o' v where "tb_entries t n = Some (o', v)" "x = v" by (auto simp: table_values_def s)
    with k show "table_value t (nm x) = Some x" by (auto simp: table_value_def)
  next
    assume "table_value t (nm x) = Some x"
    then obtain o' where e: "tb_entries t (nm x) = Some (o', x)" by (auto simp: table_value_def)
    then have "nm x \<in> set (tb_order t)" by (auto simp: s)
    with e show "x \<in> set (table_values t)" by (force simp: table_values_def)
  qed
qed

text \<open>
  C34: In every schedule of loads, host calls, failures and disabling, the tools, commands, providers,
  runtimes and agent definitions a reader sees have distinct names, tools and commands are found under
  their own name, a command carries the plugin that registered it, and everything shown, hooks, status
  items and widgets included, belongs to a plugin whose \<open>Init\<close> returned without an error. In a schedule
  in which no plugin registers a provider while its registration of a runtime of that name is under way,
  or the other way round, no name is both a provider and a runtime.
\<close>

theorem registry_consistent:
  "let w = run_ops plugin_step no_plugins evs; r = pl_reg w in
    distinct (map pt_Name (table_values (rg_tools r))) \<and>
    (\<forall>t. t \<in> set (table_values (rg_tools r)) \<longleftrightarrow> table_value (rg_tools r) (pt_Name t) = Some t) \<and>
    distinct (map cm_Name (table_values (rg_commands r))) \<and>
    (\<forall>c. c \<in> set (table_values (rg_commands r)) \<longleftrightarrow> tb_entries (rg_commands r) (cm_Name c) = Some (cm_Owner c, c)) \<and>
    distinct (map sv_Name (table_values (rg_providers r))) \<and> distinct (map sv_Name (table_values (rg_runtimes r))) \<and>
    distinct (map de_Name (table_values (rg_agents r))) \<and>
    distinct (rg_statusOrder r) \<and> distinct (rg_widgetOrder r) \<and>
    table_owners r \<union> item_owners r \<subseteq> ok_names w \<and>
    (never_overlap no_plugins evs \<longrightarrow> sv_Name ` set (table_values (rg_providers r)) \<inter> sv_Name ` set (table_values (rg_runtimes r)) = {})"
proof -
  define w where "w = run_ops plugin_step no_plugins evs"
  define r where "r = pl_reg w"
  have inv: "pl_inv w" unfolding w_def by (rule run_plugins_inv)
  then have t: "tables_ok r" "items_ok r" "table_owners r \<union> item_owners r \<subseteq> ok_names w" by (simp_all add: pl_inv_def r_def)
  note tab = t(1)[unfolded tables_ok_def]
  have b: "tbl_ok pt_Name (rg_tools r)" "tbl_ok cm_Name (rg_commands r)" "tbl_ok sv_Name (rg_providers r)"
      "tbl_ok sv_Name (rg_runtimes r)" "tbl_ok de_Name (rg_agents r)" using tab by simp_all
  have c: "table_value (rg_commands r) (cm_Name x) = Some x \<longleftrightarrow> tb_entries (rg_commands r) (cm_Name x) = Some (cm_Owner x, x)" for x
    using tab by (auto simp: table_value_def)
  have "sv_Name ` set (table_values (rg_providers r)) \<inter> sv_Name ` set (table_values (rg_runtimes r)) = {}" if "never_overlap no_plugins evs"
    using run_plugins_apart[OF that]
    by (simp add: tables_apart_def table_values_lookup(3)[OF b(3)] table_values_lookup(3)[OF b(4)] flip: w_def r_def)
  then show ?thesis
    using table_values_lookup(1)[OF b(1)] table_values_lookup(1)[OF b(2)] table_values_lookup(1)[OF b(3)]
      table_values_lookup(1)[OF b(4)] table_values_lookup(1)[OF b(5)] t(2,3) c
    unfolding Let_def w_def[symmetric] r_def[symmetric]
    by (simp add: table_values_lookup(2)[OF b(1)] table_values_lookup(2)[OF b(2)] items_ok_def keys_ok_def)
qed

text \<open>A plugin that registers a provider and then, in vain, a runtime of its name.\<close>

definition service0 :: PluginService where
  "service0 = \<lparr>sv_Name = ''codex'', sv_impl = 1\<rparr>"

definition in_turn0 :: "plugin_event list" where
  "in_turn0 = LoadNext ''git'' ''spawned'' # map (HostCall 0) [OpProvider (Some service0), OpContinue 0, OpContinue 0,
     OpRuntime (Some service0), OpContinue 0] @ [InitReturns None]"

definition overlapping0 :: "plugin_event list" where
  "overlapping0 = LoadNext ''git'' ''spawned'' # map (HostCall 0) [OpProvider (Some service0), OpRuntime (Some service0), OpContinue 0,
     OpContinue 1, OpContinue 0, OpContinue 0] @ [InitReturns None]"

lemmas service_sample = plugin_sample service0_def in_turn0_def overlapping0_def RegisterProvider_def RegisterRuntime_def
  register_next_def stage_service_def drop_call_def checkNamespace_def no_overlap_def calls_clear_def table_values_def

theorem registry_consistent_witness:
  "table_values (rg_providers (pl_reg (run_ops plugin_step no_plugins in_turn0))) = [service0] \<and>
   ''codex'' \<notin> sv_Name ` set (table_values (rg_runtimes (pl_reg (run_ops plugin_step no_plugins in_turn0))))"
proof -
  have "never_overlap no_plugins in_turn0" by (simp add: service_sample)
  with registry_consistent[of in_turn0]
  have "sv_Name ` set (table_values (rg_providers (pl_reg (run_ops plugin_step no_plugins in_turn0)))) \<inter>
      sv_Name ` set (table_values (rg_runtimes (pl_reg (run_ops plugin_step no_plugins in_turn0)))) = {}" by (simp add: Let_def)
  moreover have "table_values (rg_providers (pl_reg (run_ops plugin_step no_plugins in_turn0))) = [service0]"
    by (simp add: service_sample)
  ultimately show ?thesis by (simp add: service0_def)
qed

text \<open>
  Two registrations that overlap pass each other's checks: the name is then both a provider and a runtime.
\<close>

theorem provider_runtime_race:
  "table_values (rg_providers (pl_reg (run_ops plugin_step no_plugins overlapping0))) = [service0] \<and>
   table_values (rg_runtimes (pl_reg (run_ops plugin_step no_plugins overlapping0))) = [service0]"
  by (simp add: service_sample)

text \<open>A view shows the tools it permits, in the registry's order, and finds exactly those by name.\<close>

theorem tool_view_agrees:
  fixes evs :: "plugin_event list"
  defines "r \<equiv> pl_reg (run_ops plugin_step no_plugins evs)"
  shows "t \<in> set (ToolView_Tools v r) \<longleftrightarrow> ToolView_Tool v r (pt_Name t) = Some t"
proof -
  have "tbl_ok pt_Name (rg_tools r)" using run_plugins_inv[of evs] by (simp add: pl_inv_def r_def tables_ok_def)
  then show ?thesis by (auto simp: ToolView_Tools_def ToolView_Tool_def table_values_lookup(2))
qed

section \<open>A plugin that fails to load\<close>

text \<open>The state while a plugin's \<open>Init\<close> runs and nothing but its own calls happen.\<close>

definition loading :: "plugins \<Rightarrow> bytes \<Rightarrow> bytes \<Rightarrow> plugins \<Rightarrow> bool" where
  "loading w name origin w' \<longleftrightarrow>
     pl_reg w' = pl_reg (load_begin name origin w) \<and> pl_pc w' = pl_pc (load_begin name origin w) \<and>
     (\<exists>h. pl_hosts w' = pl_hosts w @ [h] \<and> ho_name h = name \<and> \<not> ho_live h)"

lemma loading_call:
  assumes "loading w name origin w'"
  shows "loading w name origin (plugin_step w' (HostCall (length (pl_hosts w)) op))"
proof -
  from assms obtain h where h: "pl_hosts w' = pl_hosts w @ [h]" "ho_name h = name" "\<not> ho_live h" by (auto simp: loading_def)
  obtain r1 h1 where rh: "host_do op (pl_reg w', h) = (r1, h1)" by (cases "host_do op (pl_reg w', h)") auto
  have "r1 = pl_reg w'" using h(3) rh by (cases rule: host_do_reg_cases[of op "pl_reg w'" h]) auto
  moreover have "ho_name h1 = name" "\<not> ho_live h1" using host_do_name[of op "pl_reg w'" h] rh h by auto
  ultimately show ?thesis using assms h rh by (simp add: loading_def plugin_step_def)
qed

lemma loading_calls:
  "loading w name origin w' \<Longrightarrow>
     loading w name origin (run_ops plugin_step w' (map (HostCall (length (pl_hosts w))) ops))"
  by (induction ops arbitrary: w') (auto intro: loading_call)

text \<open>
  A plugin whose \<open>Init\<close> returns an error or panics leaves nothing behind: whatever it registered, staged
  or set in \<open>Init\<close>, the registry is as it was before the load but for one failed status row with its reason.
\<close>

theorem failed_init_no_trace:
  assumes "pl_pc w = LoadIdle" and "name \<notin> rg_disabled (pl_reg w)"
  shows "pl_reg (run_ops plugin_step w
      (LoadNext name origin # map (HostCall (length (pl_hosts w))) ops @ [InitReturns (Some reason)])) =
    (pl_reg w)\<lparr>rg_statuses := rg_statuses (pl_reg w) @
      [\<lparr>st_Name = name, st_Origin = origin, st_State = StateFailed, st_Reason = reason\<rparr>]\<rparr>"
proof -
  let ?w = "run_ops plugin_step (load_begin name origin w) (map (HostCall (length (pl_hosts w))) ops)"
  have "loading w name origin (load_begin name origin w)"
    using assms(2) by (simp add: loading_def load_begin_def)
  then have l: "loading w name origin ?w" by (rule loading_calls)
  then obtain h where h: "pl_hosts ?w = pl_hosts w @ [h]" "ho_name h = name" by (auto simp: loading_def)
  have "pl_reg (plugin_step ?w (InitReturns (Some reason))) =
      (pl_reg w)\<lparr>rg_statuses := rg_statuses (pl_reg w) @
        [\<lparr>st_Name = name, st_Origin = origin, st_State = StateFailed, st_Reason = reason\<rparr>]\<rparr>"
    using l h assms(2) by (simp add: loading_def load_begin_def plugin_step_def statusAt_def)
  then show ?thesis using assms(1) by (simp add: plugin_step_def)
qed

theorem failed_init_no_trace_witness:
  "pl_reg (run_ops plugin_step no_plugins (LoadNext ''git'' ''spawned'' # map (HostCall 0) ops0 @ [InitReturns (Some ''exited'')])) =
     NewRegistry\<lparr>rg_statuses := [\<lparr>st_Name = ''git'', st_Origin = ''spawned'', st_State = StateFailed, st_Reason = ''exited''\<rparr>]\<rparr>"
  using failed_init_no_trace[of no_plugins "''git''" "''spawned''" ops0 "''exited''"] by (simp add: no_plugins_def NewRegistry_def)

section \<open>A plugin that dies\<close>

definition being_loaded :: "plugins \<Rightarrow> bytes \<Rightarrow> bool" where
  "being_loaded w name \<longleftrightarrow> (case pl_pc w of LoadInit i _ _ \<Rightarrow> ho_name (pl_hosts w ! i) = name | _ \<Rightarrow> False)"

lemma being_loaded_reg [simp]: "being_loaded (w\<lparr>pl_reg := r\<rparr>) name = being_loaded w name"
  by (auto simp: being_loaded_def split: load_pc.splits)

definition gone :: "bytes \<Rightarrow> plugins \<Rightarrow> bool" where
  "gone name w \<longleftrightarrow>
     pl_inv w \<and> name \<in> rg_failed (pl_reg w) \<and> name \<notin> table_owners (pl_reg w) \<union> item_owners (pl_reg w) \<and> \<not> being_loaded w name"

lemma gone_host_call:
  assumes g: "gone name w" and j: "j < length (pl_hosts w)"
  shows "gone name (plugin_step w (HostCall j op))"
proof -
  let ?h = "pl_hosts w ! j"
  obtain r' h' where rh: "host_do op (pl_reg w, ?h) = (r', h')" by (cases "host_do op (pl_reg w, ?h)") auto
  have items: "items_ok (pl_reg w)" using g by (simp add: gone_def pl_inv_def)
  note reg = host_do_reg[OF items, of op ?h, unfolded rh, simplified]
  have h': "ho_name h' = ho_name ?h" using host_do_name[of op "pl_reg w" ?h] rh by simp
  have step: "plugin_step w (HostCall j op) = w\<lparr>pl_reg := r', pl_hosts := (pl_hosts w)[j := h']\<rparr>"
    using j rh by (simp add: plugin_step_def)
  have "name \<notin> item_owners r'" using reg(4) g by (auto simp: gone_def split: if_splits)
  moreover have "\<not> being_loaded (plugin_step w (HostCall j op)) name"
    using g h' j unfolding step by (auto simp: gone_def being_loaded_def nth_list_update split: load_pc.splits)
  moreover have "pl_inv (plugin_step w (HostCall j op))" using g by (auto simp: gone_def intro: plugin_step_inv)
  ultimately show ?thesis using g reg(3,8) unfolding gone_def step by simp
qed

lemma gone_commit:
  assumes g: "gone name w" and pc: "pl_pc w = LoadInit i k origin"
  shows "gone name (plugin_step w (InitReturns None))"
proof -
  let ?h = "pl_hosts w ! i"
  from g pc have ne: "ho_name ?h \<noteq> name" and inv: "pl_inv w" by (simp_all add: gone_def being_loaded_def)
  from inv pc have i: "i < length (pl_hosts w)" "host_fresh (pl_reg w) ?h" "host_ok ?h" "tables_ok (pl_reg w)" "items_ok (pl_reg w)"
    by (auto simp: pl_inv_def pc_ok_def)
  obtain r' h' where rh: "Registry_commit (pl_reg w, ?h) = (r', h')" by (cases "Registry_commit (pl_reg w, ?h)") auto
  note c = commit_ok[OF i(4,5,3,2) rh]
  have "pl_inv (plugin_step w (InitReturns None))" using inv by (rule plugin_step_inv)
  with c g ne show ?thesis by (auto simp: gone_def being_loaded_def plugin_step_def pc rh)
qed

lemma gone_step:
  assumes g: "gone name w" and "\<And>origin. ev \<noteq> LoadNext name origin"
  shows "gone name (plugin_step w ev)"
proof -
  have inv: "pl_inv (plugin_step w ev)" using g by (auto simp: gone_def intro: plugin_step_inv)
  show ?thesis
  proof (cases ev)
    case (HostCall j op)
    then show ?thesis using gone_host_call[OF g] g by (cases "j < length (pl_hosts w)") (simp_all add: plugin_step_def)
  next
    case (LoadNext n origin)
    with assms(2) have "n \<noteq> name" by auto
    with g inv LoadNext show ?thesis
      by (auto simp: gone_def being_loaded_def plugin_step_def load_begin_def table_owners_def item_owners_def)
  next
    case (InitReturns err)
    show ?thesis
    proof (cases "pl_pc w")
      case (LoadInit i k origin)
      with gone_commit[OF g LoadInit] g inv InitReturns show ?thesis
        by (cases err) (auto simp: gone_def being_loaded_def plugin_step_def statusAt_def table_owners_def item_owners_def)
    qed (use g InitReturns in \<open>simp_all add: plugin_step_def\<close>)
  next
    case (FailPlugin n reason)
    have "tables_ok (pl_reg w)" "items_ok (pl_reg w)" using g by (simp_all add: gone_def pl_inv_def)
    from Fail_ok[OF this, of n reason] g inv FailPlugin show ?thesis
      by (simp add: gone_def plugin_step_def) (simp add: Registry_Fail_def)
  qed (use g inv in \<open>auto simp: gone_def being_loaded_def plugin_step_def statusAt_def table_owners_def item_owners_def split: load_pc.splits\<close>)
qed

lemma fail_gone:
  assumes "pl_inv w" and "\<not> being_loaded w name"
  shows "gone name (plugin_step w (FailPlugin name reason))"
proof -
  have r: "tables_ok (pl_reg w)" "items_ok (pl_reg w)" using assms(1) by (simp_all add: pl_inv_def)
  have "name \<in> rg_failed (Registry_Fail name reason (pl_reg w))" by (simp add: Registry_Fail_def)
  with Fail_ok[OF r, of name reason] plugin_step_inv[OF assms(1), of "FailPlugin name reason"] assms(2) show ?thesis
    by (simp add: gone_def plugin_step_def)
qed

text \<open>
  C33: Once a plugin is failed, nothing of it is shown again, whatever its goroutines still register or set
  and whatever the other plugins do, until a plugin of that name is loaded: no tool, command, provider,
  runtime, agent definition, hook, status item or widget. The failure must not come while its own \<open>Init\<close>
  runs, which is what a spawned plugin waits for.
\<close>

theorem failed_plugin_gone:
  assumes "\<not> being_loaded (run_ops plugin_step no_plugins evs) name"
    and "\<forall>origin. LoadNext name origin \<notin> set evs'"
  shows "name \<notin> table_owners (pl_reg (run_ops plugin_step no_plugins (evs @ FailPlugin name reason # evs'))) \<union>
      item_owners (pl_reg (run_ops plugin_step no_plugins (evs @ FailPlugin name reason # evs')))"
proof -
  have keep: "gone name w \<Longrightarrow> \<forall>origin. LoadNext name origin \<notin> set xs \<Longrightarrow> gone name (run_ops plugin_step w xs)" for w xs
  proof (induction xs arbitrary: w)
    case (Cons x xs)
    from gone_step[OF Cons.prems(1), of x] Cons.IH Cons.prems(2) show ?case by auto
  qed simp
  have "gone name (plugin_step (run_ops plugin_step no_plugins evs) (FailPlugin name reason))"
    using run_plugins_inv assms(1) by (rule fail_gone)
  from keep[OF this assms(2)] show ?thesis by (simp add: gone_def)
qed

theorem failed_plugin_gone_witness:
  "rg_tools (pl_reg (run_ops plugin_step no_plugins load0)) = \<lparr>tb_entries = [''grep'' \<mapsto> (''git'', tool0)], tb_order = [''grep'']\<rparr> \<and>
   rg_statusOrder (pl_reg (run_ops plugin_step no_plugins load0)) = [(''git'', ''branch'')] \<and>
   ''git'' \<notin> table_owners (pl_reg (run_ops plugin_step no_plugins (load0 @ FailPlugin ''git'' ''exited'' # map (HostCall 0) ops0))) \<union>
     item_owners (pl_reg (run_ops plugin_step no_plugins (load0 @ FailPlugin ''git'' ''exited'' # map (HostCall 0) ops0)))"
proof -
  have "\<not> being_loaded (run_ops plugin_step no_plugins load0) ''git''" by (simp add: being_loaded_def plugin_sample)
  from failed_plugin_gone[OF this, of "map (HostCall 0) ops0" "''exited''"]
  show ?thesis by (simp add: image_iff) (simp add: plugin_sample)
qed

section \<open>Hooks\<close>

definition hook_priority :: "OwnedHook \<Rightarrow> int" where
  "hook_priority oh = hh_Priority (oh_Handler oh)"

definition hook_result :: "'a hook_outcome \<Rightarrow> 'a list" where
  "hook_result oc = (case oc of HookReturns (HookValue v) \<Rightarrow> [v] | _ \<Rightarrow> [])"

definition hook_notice :: "OwnedHook \<Rightarrow> 'a hook_outcome \<Rightarrow> (bytes \<times> hook_error) list" where
  "hook_notice oh oc =
     (case oc of HookPanics p \<Rightarrow> [(oh_Owner oh, HookPanicked p)] | HookFails e \<Rightarrow> [(oh_Owner oh, HookError e)]
      | HookTimesOut \<Rightarrow> [(oh_Owner oh, HookTimedOut)] | HookReturns _ \<Rightarrow> [])"

lemma fire_loop_result:
  "fire_loop run ohs acc =
     (fst acc @ concat (map (\<lambda>oh. hook_result (run oh)) ohs), snd acc @ concat (map (\<lambda>oh. hook_notice oh (run oh)) ohs))"
proof (induction ohs arbitrary: acc)
  case (Cons oh ohs)
  then show ?case
    by (cases "run oh") (auto simp: hook_one_def hook_result_def hook_notice_def split: hook_value.splits)
qed simp

text \<open>
  C35: \<open>Hooks\<close> gives the handlers of a point by priority, lower first, and those of one priority in the order
  they were committed, none lost and none added; \<open>Fire\<close> collects the results of those that return a value
  and a notice for each that panics, fails or times out, so what one handler does changes nothing for the
  others.
\<close>

theorem hooks_run_in_order:
  "sorted (map hook_priority (Registry_Hooks r p)) \<and>
   (\<forall>k. filter (\<lambda>oh. hook_priority oh = k) (Registry_Hooks r p) =
        filter (\<lambda>oh. hh_Point (oh_Handler oh) = p \<and> hook_priority oh = k) (rg_hooks r)) \<and>
   Fire run r p =
     (concat (map (\<lambda>oh. hook_result (run oh)) (Registry_Hooks r p)),
      concat (map (\<lambda>oh. hook_notice oh (run oh)) (Registry_Hooks r p)))"
proof -
  have e: "(\<lambda>oh. hh_Priority (oh_Handler oh)) = hook_priority" by (simp add: hook_priority_def fun_eq_iff)
  have "filter (\<lambda>oh. hook_priority oh = k) (Registry_Hooks r p) =
      filter (\<lambda>oh. hh_Point (oh_Handler oh) = p \<and> hook_priority oh = k) (rg_hooks r)" for k
    by (simp add: Registry_Hooks_def e sort_key_stable filter_filter conj_commute)
  moreover have "sorted (map hook_priority (Registry_Hooks r p))" by (simp add: Registry_Hooks_def e)
  ultimately show ?thesis by (simp add: Fire_def fire_loop_result)
qed

end
