(* ===== verification/System_Prompt.thy ===== *)
theory System_Prompt
  imports Plugin_Registry Go_Time
begin

text \<open>
  The system prompt: \<open>internal/turn/system.go\<close>. Files are read by a function from paths to contents; the
  home directory, the date and the operating system are arguments.
\<close>

section \<open>Templates\<close>

record Vars =
  va_Base :: bytes
  va_Tools :: bytes
  va_Agents :: bytes
  va_Version :: bytes
  va_Workspace :: bytes
  va_Project :: bytes
  va_Model :: bytes
  va_Date :: bytes
  va_OS :: bytes

definition varNames :: "bytes list" where
  "varNames = [''base'', ''tools'', ''agents'', ''version'', ''workspace'', ''project'', ''model'', ''date'', ''os'']"

definition Vars_value :: "Vars \<Rightarrow> bytes \<Rightarrow> bytes option" where
  "Vars_value v name =
     (if name = ''base'' then Some (va_Base v)
      else if name = ''tools'' then Some (va_Tools v)
      else if name = ''agents'' then Some (va_Agents v)
      else if name = ''version'' then Some (va_Version v)
      else if name = ''workspace'' then Some (va_Workspace v)
      else if name = ''project'' then Some (va_Project v)
      else if name = ''model'' then Some (va_Model v)
      else if name = ''date'' then Some (va_Date v)
      else if name = ''os'' then Some (va_OS v)
      else None)"

text \<open>The error for an unclosed variable quotes at most sixteen bytes of the template.\<close>

datatype prompt_error = NotClosed bytes | UnknownVariable bytes

function render_loop :: "bytes \<Rightarrow> Vars \<Rightarrow> nat \<Rightarrow> bytes \<Rightarrow> (prompt_error, bytes) result" where
  "render_loop template v i b =
     (if length template \<le> i then Inr b
      else
        (case index_of (drop i template) ''${'' of
           None \<Rightarrow> Inr (b @ drop i template)
         | Some n \<Rightarrow>
             (let j = i + n in
              if 0 < j \<and> template ! (j - 1) = CHR ''$'' then
                render_loop template v (j + 2) (b @ take (j - 1 - i) (drop i template) @ ''${'')
              else
                (case index_of (drop j template) ''}'' of
                   None \<Rightarrow> Inl (NotClosed (take 16 (drop j template)))
                 | Some end' \<Rightarrow>
                     (let name = take (end' - 2) (drop (j + 2) template) in
                      case Vars_value v name of
                        None \<Rightarrow> Inl (UnknownVariable name)
                      | Some text' \<Rightarrow> render_loop template v (j + end' + 1) (b @ take n (drop i template) @ text')))))) "
  by pat_completeness auto

termination
  by (relation "measure (\<lambda>(template, v, i, b). length template - i)") auto

declare render_loop.simps [simp del]

definition Render :: "bytes \<Rightarrow> Vars \<Rightarrow> (prompt_error, bytes) result" where
  "Render template v = map_sum id (\<lambda>out. trim_right c_nl out @ [c_nl]) (render_loop template v 0 [])"

text \<open>\<open>strings.ReplaceAll\<close> of three newlines by two, and the loop around it.\<close>

fun replace_nl3 :: "bytes \<Rightarrow> bytes" where
  "replace_nl3 (a # b # c # s) =
     (if a = c_nl \<and> b = c_nl \<and> c = c_nl then c_nl # c_nl # replace_nl3 s else a # replace_nl3 (b # c # s))"
| "replace_nl3 s = s"

fun has_nl3 :: "bytes \<Rightarrow> bool" where
  "has_nl3 (a # b # c # s) \<longleftrightarrow> a = c_nl \<and> b = c_nl \<and> c = c_nl \<or> has_nl3 (b # c # s)"
| "has_nl3 s \<longleftrightarrow> False"

lemma replace_nl3_le: "length (replace_nl3 s) \<le> length s"
  by (induction s rule: replace_nl3.induct) auto

lemma replace_nl3_less: "has_nl3 s \<Longrightarrow> length (replace_nl3 s) < length s"
proof (induction s rule: replace_nl3.induct)
  case (1 a b c s)
  then show ?case using replace_nl3_le[of s] by auto
qed auto

function collapse :: "bytes \<Rightarrow> bytes" where
  "collapse s = (if has_nl3 s then collapse (replace_nl3 s) else s)"
  by pat_completeness auto

termination
  by (relation "measure length") (auto dest: replace_nl3_less)

declare collapse.simps [simp del]

definition Build :: "bytes \<Rightarrow> Vars \<Rightarrow> (prompt_error, bytes) result" where
  "Build template v = map_sum id collapse (Render template v)"

definition DefaultTemplate :: bytes where
  "DefaultTemplate = ''${base}'' @ [c_nl] @ ''${tools}'' @ [c_nl] @ ''${agents}''"

section \<open>The sections\<close>

definition BaseParagraph :: "Workspace \<Rightarrow> bytes \<Rightarrow> bytes" where
  "BaseParagraph ws version =
     ''You are rudy '' @ version @ '', a coding agent working in the workspace at '' @ ws_Root ws @ ''.'' @ [c_nl] @
     ''Use the tools the API gives you; their names and schemas are authoritative. '' @
     ''Prefer the edit tool over rewriting whole files. '' @
     ''Run the tests before claiming work is done. '' @
     ''Keep replies short and lead with the result.''"

definition tool_line :: "PluginTool \<Rightarrow> bytes" where
  "tool_line t =
     (if pt_Description t = [] then ''- '' @ pt_Name t @ [c_nl] else ''- '' @ pt_Name t @ '': '' @ pt_Description t @ [c_nl])"

definition ToolList :: "PluginTool list \<Rightarrow> bytes" where
  "ToolList tools = (if tools = [] then [] else c_nl # ''## Tools'' @ [c_nl, c_nl] @ concat (map tool_line tools))"

definition AgentsSections :: "(bytes \<Rightarrow> bytes option) \<Rightarrow> bytes option \<Rightarrow> Workspace \<Rightarrow> bytes" where
  "AgentsSections read_file home ws =
     (let paths = path_join [ws_Root ws, ''AGENTS.md''] #
           (case home of None \<Rightarrow> [] | Some h \<Rightarrow> [path_join [h, ''.agents'', ''AGENTS.md'']]) in
      concat (map (\<lambda>p. case read_file p of
                         None \<Rightarrow> []
                       | Some data \<Rightarrow> c_nl # ''## AGENTS.md ('' @ p @ '')'' @ [c_nl, c_nl] @ trim_right c_nl data @ [c_nl]) paths))"

definition format_date :: "Time \<Rightarrow> bytes" where
  "format_date t = pad 4 (t_year t) @ ''-'' @ pad 2 (t_month t) @ ''-'' @ pad 2 (t_day t)"

record prompt_env =
  pe_read :: "bytes \<Rightarrow> bytes option"
  pe_home :: "bytes option"
  pe_now :: Time
  pe_os :: bytes

text \<open>\<open>None\<close> is the panic.\<close>

definition built :: "(prompt_error, bytes) result \<Rightarrow> bytes option" where
  "built r = (case r of Inl _ \<Rightarrow> None | Inr out \<Rightarrow> Some out)"

definition SystemPrompt :: "prompt_env \<Rightarrow> Workspace \<Rightarrow> bytes \<Rightarrow> PluginTool list \<Rightarrow> bytes option" where
  "SystemPrompt env ws version tools =
     built (Build DefaultTemplate
       \<lparr>va_Base = BaseParagraph ws version, va_Tools = ToolList tools, va_Agents = AgentsSections (pe_read env) (pe_home env) ws,
        va_Version = version, va_Workspace = ws_Root ws, va_Project = ws_ProjectID ws, va_Model = [],
        va_Date = format_date (pe_now env), va_OS = pe_os env\<rparr>)"

definition SystemPromptWith :: "prompt_env \<Rightarrow> bytes \<Rightarrow> Workspace \<Rightarrow> PluginTool list \<Rightarrow> bytes option" where
  "SystemPromptWith env base ws tools =
     built (Build DefaultTemplate
       \<lparr>va_Base = trim_right c_nl base, va_Tools = ToolList tools, va_Agents = AgentsSections (pe_read env) (pe_home env) ws,
        va_Version = [], va_Workspace = ws_Root ws, va_Project = ws_ProjectID ws, va_Model = [],
        va_Date = format_date (pe_now env), va_OS = pe_os env\<rparr>)"

section \<open>The template language\<close>

text \<open>
  The reference: read from the left, the escape \<open>$${\<close> stands for \<open>${\<close>, a variable for its value, any other
  byte for itself.
\<close>

function expand_template :: "Vars \<Rightarrow> bytes \<Rightarrow> (prompt_error, bytes) result" where
  "expand_template v s =
     (if s = [] then Inr []
      else if has_prefix s ''$${'' then map_sum id ((@) ''${'') (expand_template v (drop 3 s))
      else if has_prefix s ''${'' then
        (if CHR ''}'' \<notin> set s then Inl (NotClosed (take 16 s))
         else
           (let name = takeWhile (\<lambda>c. c \<noteq> CHR ''}'') (drop 2 s) in
            case Vars_value v name of
              None \<Rightarrow> Inl (UnknownVariable name)
            | Some t \<Rightarrow> map_sum id ((@) t) (expand_template v (drop (length name + 3) s))))
      else map_sum id ((#) (hd s)) (expand_template v (tl s)))"
  by pat_completeness auto

termination
  by (relation "measure (\<lambda>(v, s). length s)") auto

declare expand_template.simps [simp del]

lemma index_of_before: "index_of s p = Some n \<Longrightarrow> k < n \<Longrightarrow> \<not> has_prefix (drop k s) p"
proof (induction s p arbitrary: n k rule: index_of.induct)
  case (2 c cs p)
  then show ?case by (cases k) (auto split: if_splits)
qed (auto split: if_splits)

lemma index_of_char: "index_of s [c] = (if c \<in> set s then Some (length (takeWhile (\<lambda>x. x \<noteq> c) s)) else None)"
  by (induction s) (auto simp: has_prefix_def)

lemma takeWhile_short: "c \<in> set xs \<Longrightarrow> length (takeWhile (\<lambda>x. x \<noteq> c) xs) < length xs"
  by (induction xs) auto

lemma map_sum_append: "map_sum id ((@) a) (map_sum id ((@) b) r) = map_sum id ((@) (a @ b)) r"
  by (cases r) simp_all

lemma drop_Suc_tl: "k < length s \<Longrightarrow> drop k s = s ! k # drop (Suc k) s"
  by (rule Cons_nth_drop_Suc[symmetric])

lemma expand_skips:
  assumes "\<And>k. k < m \<Longrightarrow> \<not> has_prefix (drop k s) ''${'' \<and> \<not> has_prefix (drop k s) ''$${''" and "m \<le> length s"
  shows "expand_template v s = map_sum id ((@) (take m s)) (expand_template v (drop m s))"
  using assms
proof (induction m arbitrary: s)
  case 0
  then show ?case by (cases "expand_template v s") simp_all
next
  case (Suc m)
  from Suc.prems(2) obtain c cs where s: "s = c # cs" by (cases s) auto
  have "expand_template v cs = map_sum id ((@) (take m cs)) (expand_template v (drop m cs))"
  proof (rule Suc.IH)
    show "\<not> has_prefix (drop k cs) ''${'' \<and> \<not> has_prefix (drop k cs) ''$${''" if "k < m" for k
      using Suc.prems(1)[of "Suc k"] that by (simp add: s)
  qed (use Suc.prems(2) in \<open>simp add: s\<close>)
  moreover have "expand_template v s = map_sum id ((#) c) (expand_template v cs)"
    using Suc.prems(1)[of 0] by (subst expand_template.simps) (simp add: s)
  ultimately show ?case by (cases "expand_template v (drop m cs)") (simp_all add: s)
qed

text \<open>The first \<open>${\<close> of a text: escaped when a dollar precedes it, the start of a variable otherwise.\<close>

lemma first_opening:
  assumes "index_of s ''${'' = Some n"
  shows "\<And>k. k < n \<Longrightarrow> \<not> has_prefix (drop k s) ''${''" and "\<And>k. k + 1 < n \<Longrightarrow> \<not> has_prefix (drop k s) ''$${''"
    and "n + 2 \<le> length s" and "s ! n = CHR ''$''" and "s ! (n + 1) = CHR ''{''"
    and "0 < n \<Longrightarrow> has_prefix (drop (n - 1) s) ''$${'' \<longleftrightarrow> s ! (n - 1) = CHR ''$''"
proof -
  show before: "\<not> has_prefix (drop k s) ''${''" if "k < n" for k using index_of_before[OF assms that] .
  show len: "n + 2 \<le> length s" using index_of_Some[OF assms] by simp
  from index_of_Some[OF assms] obtain r where r: "drop n s = ''${'' @ r" by (auto simp: has_prefix_iff)
  have at: "drop n s = s ! n # s ! (n + 1) # drop (n + 2) s"
    using len by (simp add: drop_Suc_tl[of n s] drop_Suc_tl[of "Suc n" s])
  with r show ch: "s ! n = CHR ''$''" "s ! (n + 1) = CHR ''{''" by simp_all
  show "\<not> has_prefix (drop k s) ''$${''" if "k + 1 < n" for k
  proof
    assume "has_prefix (drop k s) ''$${''"
    then have "drop (Suc k) s = ''${'' @ tl (tl (tl (drop k s)))" by (auto simp: has_prefix_iff drop_Suc drop_tl)
    with before[of "Suc k"] that show False by (simp add: has_prefix_def)
  qed
  show "has_prefix (drop (n - 1) s) ''$${'' \<longleftrightarrow> s ! (n - 1) = CHR ''$''" if "0 < n"
  proof -
    from that len have "drop (n - 1) s = s ! (n - 1) # drop n s" using drop_Suc_tl[of "n - 1" s] by simp
    then show ?thesis using at ch by (simp add: has_prefix_def)
  qed
qed

lemma expand_escape:
  assumes "index_of s ''${'' = Some n" and "0 < n" and "s ! (n - 1) = CHR ''$''"
  shows "expand_template v s = map_sum id ((@) (take (n - 1) s @ ''${'')) (expand_template v (drop (n + 2) s))"
proof -
  note f = first_opening[OF assms(1)]
  have "expand_template v s = map_sum id ((@) (take (n - 1) s)) (expand_template v (drop (n - 1) s))"
    using f(1,2) f(3) by (intro expand_skips) auto
  moreover have "expand_template v (drop (n - 1) s) = map_sum id ((@) ''${'') (expand_template v (drop 3 (drop (n - 1) s)))"
    using f(6)[OF assms(2)] assms(3) f(3) by (subst expand_template.simps) auto
  moreover have "drop 3 (drop (n - 1) s) = drop (n + 2) s" using assms(2) by (simp add: numeral_eq_Suc)
  ultimately show ?thesis by (simp add: map_sum_append)
qed

lemma expand_variable:
  assumes "index_of s ''${'' = Some n" and "\<not> (0 < n \<and> s ! (n - 1) = CHR ''$'')"
  shows "expand_template v s = map_sum id ((@) (take n s)) (expand_template v (drop n s))"
proof -
  note f = first_opening[OF assms(1)]
  have "\<not> has_prefix (drop k s) ''$${''" if "k < n" for k
  proof (cases "k + 1 < n")
    case False
    with that have "k = n - 1" "0 < n" by simp_all
    with f(6) assms(2) show ?thesis by simp
  qed (rule f(2))
  then show ?thesis
    using f(1,3) by (intro expand_skips) auto
qed

lemma expand_at_variable:
  "expand_template v (CHR ''$'' # CHR ''{'' # r) =
     (if CHR ''}'' \<notin> set r then Inl (NotClosed (take 16 (CHR ''$'' # CHR ''{'' # r)))
      else
        (case Vars_value v (takeWhile (\<lambda>c. c \<noteq> CHR ''}'') r) of
           None \<Rightarrow> Inl (UnknownVariable (takeWhile (\<lambda>c. c \<noteq> CHR ''}'') r))
         | Some t \<Rightarrow> map_sum id ((@) t) (expand_template v (drop (length (takeWhile (\<lambda>c. c \<noteq> CHR ''}'') r) + 1) r))))"
  by (subst expand_template.simps) (simp add: has_prefix_def Let_def numeral_3_eq_3 split: option.split)

lemma expand_plain: "index_of s ''${'' = None \<Longrightarrow> expand_template v s = Inr s"
proof -
  assume "index_of s ''${'' = None"
  note n = index_of_None[OF this]
  have "\<not> has_prefix (drop k s) ''$${''" for k
    using n[of "Suc k"] by (auto simp: has_prefix_iff drop_Suc drop_tl)
  with n have "expand_template v s = map_sum id ((@) (take (length s) s)) (expand_template v (drop (length s) s))"
    by (intro expand_skips) auto
  then show ?thesis by (simp add: expand_template.simps)
qed

text \<open>A variable in the loop: it agrees with the reference when the rest of the loop does.\<close>

lemma render_variable:
  assumes Some: "index_of (drop i template) ''${'' = Some n"
    and no: "\<not> (0 < i + n \<and> template ! (i + n - 1) = CHR ''$'')"
    and rest: "\<And>k b. i < k \<Longrightarrow> k \<le> length template \<Longrightarrow> template ! (k - 1) \<noteq> CHR ''$'' \<Longrightarrow>
      render_loop template v k b = map_sum id ((@) b) (expand_template v (drop k template))"
  shows "render_loop template v i b = map_sum id ((@) (b @ take n (drop i template))) (expand_template v (drop (i + n) template))"
proof -
  note f = first_opening[OF Some]
  let ?j = "i + n" and ?s = "drop i template" and ?rest = "drop (i + n) template"
  have len: "?j + 2 \<le> length template" "\<not> length template \<le> i" using f(3) by simp_all
  have two: "?rest = CHR ''$'' # CHR ''{'' # drop (?j + 2) template"
    using f(3-5) len by (simp add: drop_Suc_tl[of ?j template] drop_Suc_tl[of "Suc ?j" template])
  let ?name = "takeWhile (\<lambda>c. c \<noteq> CHR ''}'') (drop (?j + 2) template)"
  show ?thesis
  proof (cases "CHR ''}'' \<in> set ?rest")
    case False
    have "expand_template v ?rest = Inl (NotClosed (take 16 ?rest))"
      using False unfolding two by (subst expand_at_variable) simp
    moreover have "index_of ?rest ''}'' = None" using False by (simp add: index_of_char)
    then have "render_loop template v i b = Inl (NotClosed (take 16 ?rest))"
      using len(2) Some no by (subst render_loop.simps) (auto simp: Let_def)
    ultimately show ?thesis by simp
  next
    case True
    have idx: "index_of ?rest ''}'' = Some (length ?name + 2)" using True by (simp add: index_of_char two)
    have nm: "take (length ?name) (drop (?j + 2) template) = ?name" by (rule takeWhile_eq_take[symmetric])
    have loop: "render_loop template v i b =
        (case Vars_value v ?name of None \<Rightarrow> Inl (UnknownVariable ?name)
         | Some t \<Rightarrow> render_loop template v (?j + length ?name + 3) (b @ take n ?s @ t))"
      using len(2) Some no idx nm
      by (subst render_loop.simps) (auto simp: Let_def numeral_3_eq_3 numeral_2_eq_2 split: option.split)
    have ex: "expand_template v ?rest =
        (case Vars_value v ?name of None \<Rightarrow> Inl (UnknownVariable ?name)
         | Some t \<Rightarrow> map_sum id ((@) t) (expand_template v (drop (?j + length ?name + 3) template)))"
      using True unfolding two by (subst expand_at_variable) (simp add: numeral_3_eq_3 add.commute add.left_commute split: option.split)
    have lt: "length ?name < length (drop (?j + 2) template)" using True by (intro takeWhile_short) (simp add: two)
    have close: "drop (?j + 2) template ! length ?name = CHR ''}''" using nth_length_takeWhile[OF lt] by simp
    have at: "template ! (?j + length ?name + 2) = CHR ''}''" using close lt by (simp add: add.commute add.left_commute)
    have "render_loop template v (?j + length ?name + 3) (b @ take n ?s @ t) =
        map_sum id ((@) (b @ take n ?s @ t)) (expand_template v (drop (?j + length ?name + 3) template))" for t
      by (rule rest) (use lt at in \<open>auto simp: add.assoc\<close>)
    then show ?thesis using loop ex by (auto simp: map_sum_append split: option.split)
  qed
qed

lemma render_loop_expands:
  assumes "i = 0 \<or> i \<le> length template \<and> template ! (i - 1) \<noteq> CHR ''$''"
  shows "render_loop template v i b = map_sum id ((@) b) (expand_template v (drop i template))"
  using assms
proof (induction "length template - i" arbitrary: i b rule: less_induct)
  case less
  let ?s = "drop i template"
  consider (ended) "length template \<le> i" | (plain) "i < length template" "index_of ?s ''${'' = None"
    | (found) n where "i < length template" "index_of ?s ''${'' = Some n"
    by (cases "index_of ?s ''${''") (auto simp: not_le[symmetric])
  then show ?case
  proof cases
    case ended
    then show ?thesis by (simp add: render_loop.simps expand_template.simps)
  next
    case plain
    with expand_plain[OF plain(2)] show ?thesis by (simp add: render_loop.simps)
  next
    case (found n)
    note f = first_opening[OF found(2)]
    let ?j = "i + n"
    have esc: "0 < ?j \<and> template ! (?j - 1) = CHR ''$'' \<longleftrightarrow> 0 < n \<and> ?s ! (n - 1) = CHR ''$''"
      using less.prems found(1) by (cases n) auto
    have rest: "render_loop template v k b' = map_sum id ((@) b') (expand_template v (drop k template))"
      if "i < k" "k \<le> length template" "template ! (k - 1) \<noteq> CHR ''$''" for k b'
      using less.hyps[of k b'] that by simp
    show ?thesis
    proof (cases "0 < n \<and> ?s ! (n - 1) = CHR ''$''")
      case True
      with esc have "0 < ?j" "template ! (?j - 1) = CHR ''$''" by blast+
      then have "render_loop template v i b = render_loop template v (?j + 2) (b @ take (?j - 1 - i) ?s @ ''${'')"
        using found by (subst render_loop.simps) (simp add: Let_def)
      also have "\<dots> = map_sum id ((@) (b @ take (n - 1) ?s @ ''${'')) (expand_template v (drop (?j + 2) template))"
        using rest[of "?j + 2"] f(3,5) by simp
      also have "\<dots> = map_sum id ((@) b) (expand_template v ?s)"
        using expand_escape[OF found(2)] True by (simp add: map_sum_append add.commute add.left_commute)
      finally show ?thesis .
    next
      case False
      have sj: "drop n ?s = drop ?j template" by (simp add: add.commute)
      from esc False have "\<not> (0 < ?j \<and> template ! (?j - 1) = CHR ''$'')" by blast
      from render_variable[OF found(2) this rest] expand_variable[OF found(2) False, of v, unfolded sj]
      show ?thesis by (simp add: map_sum_append)
    qed
  qed
qed

section \<open>Escapes\<close>

text \<open>The template that stands for a given text.\<close>

fun escape_template :: "bytes \<Rightarrow> bytes" where
  "escape_template (a # b # s) =
     (if a = CHR ''$'' \<and> b = CHR ''{'' then ''$${'' @ escape_template s else a # escape_template (b # s))"
| "escape_template s = s"

lemma escape_hd: "escape_template s = x # r \<Longrightarrow> \<exists>t. s = x # t"
  by (cases s rule: escape_template.cases) (auto split: if_splits)

lemma escape_no_opening: "\<not> has_prefix (escape_template s) ''${''"
proof
  assume "has_prefix (escape_template s) ''${''"
  then obtain r where r: "escape_template s = CHR ''$'' # CHR ''{'' # r" by (auto simp: has_prefix_iff)
  then show False
  proof (cases s rule: escape_template.cases)
    case (1 a b t)
    then have "escape_template (b # t) = CHR ''{'' # r" "a = CHR ''$''" "b \<noteq> CHR ''{''" using r by (auto split: if_splits)
    with escape_hd[OF this(1)] show False by simp
  qed simp_all
qed

lemma expand_short: "expand_template v [] = Inr []" "expand_template v [c] = Inr [c]"
proof -
  show "expand_template v [] = Inr []" by (simp add: expand_template.simps)
  then show "expand_template v [c] = Inr [c]" by (subst expand_template.simps) (simp add: has_prefix_def)
qed

lemma expand_escaped: "expand_template v (escape_template s) = Inr s"
proof (induction s rule: escape_template.induct)
  case (1 a b s)
  show ?case
  proof (cases "a = CHR ''$'' \<and> b = CHR ''{''")
    case True
    with 1 show ?thesis by (subst expand_template.simps) (simp add: has_prefix_def)
  next
    case False
    let ?e = "a # escape_template (b # s)"
    have "\<not> has_prefix ?e ''${''"
      using escape_hd[of "b # s" "CHR ''{''"] False by (auto simp: has_prefix_iff)
    moreover have "\<not> has_prefix ?e ''$${''"
      using escape_no_opening[of "b # s"] by (auto simp: has_prefix_iff)
    ultimately have "expand_template v ?e = map_sum id ((#) a) (expand_template v (escape_template (b # s)))"
      by (subst expand_template.simps) simp
    with False 1 show ?thesis by auto
  qed
qed (simp_all add: expand_short)

section \<open>Blank lines\<close>

text \<open>The reference: with \<open>k\<close> newlines just before, a newline is kept while there are fewer than two.\<close>

fun squeeze :: "nat \<Rightarrow> bytes \<Rightarrow> bytes" where
  "squeeze k [] = []"
| "squeeze k (c # s) = (if c \<noteq> c_nl then c # squeeze 0 s else if k < 2 then c # squeeze (Suc k) s else squeeze k s)"

lemma squeeze_nl3: "squeeze k (c_nl # c_nl # c_nl # s) = squeeze k (c_nl # c_nl # s)"
  by (simp add: less_Suc_eq numeral_2_eq_2)

lemma squeeze_cong: "(\<And>k. squeeze k s = squeeze k t) \<Longrightarrow> squeeze k (c # s) = squeeze k (c # t)"
  by simp

lemma squeeze_replace: "squeeze k (replace_nl3 s) = squeeze k s"
proof (induction s arbitrary: k rule: replace_nl3.induct)
  case (1 a b c s)
  show ?case
  proof (cases "a = c_nl \<and> b = c_nl \<and> c = c_nl")
    case True
    have "squeeze k (c_nl # c_nl # replace_nl3 s) = squeeze k (c_nl # c_nl # s)"
      using "1.IH"(1)[OF True] by (intro squeeze_cong) auto
    with True show ?thesis by (simp only: squeeze_nl3 replace_nl3.simps if_True simp_thms)
  next
    case False
    then have "replace_nl3 (a # b # c # s) = a # replace_nl3 (b # c # s)" by auto
    with "1.IH"(2)[OF False] show ?thesis by (simp del: replace_nl3.simps)
  qed
qed simp_all

lemma squeeze_kept: "\<not> has_nl3 (replicate k c_nl @ s) \<Longrightarrow> k \<le> 2 \<Longrightarrow> squeeze k s = s"
proof (induction s arbitrary: k)
  case (Cons c s)
  have tail: "has_nl3 t \<Longrightarrow> has_nl3 (x # t)" for x t by (cases "x # t" rule: has_nl3.cases) auto
  have drop: "has_nl3 t \<Longrightarrow> has_nl3 (replicate n c_nl @ t)" for n t by (induction n) (auto intro: tail)
  show ?case
  proof (cases "c = c_nl")
    case True
    then have k2: "k < 2" using Cons.prems by (cases "k = 2") (auto simp: numeral_2_eq_2)
    have "replicate (Suc k) c_nl @ s = replicate k c_nl @ c # s" using True by (simp add: replicate_app_Cons_same)
    with Cons.prems(1) have "\<not> has_nl3 (replicate (Suc k) c_nl @ s)" by argo
    from Cons.IH[OF this] k2 True show ?thesis by simp
  next
    case False
    have "\<not> has_nl3 s" using Cons.prems(1) drop[of "c # s" k] tail[of s c] by blast
    with Cons.IH[of 0] False show ?thesis by simp
  qed
qed simp

theorem collapse_squeezes: "collapse s = squeeze 0 s \<and> \<not> has_nl3 (collapse s)"
proof (induction s rule: collapse.induct)
  case (1 s)
  show ?case
  proof (cases "has_nl3 s")
    case True
    then have "collapse s = collapse (replace_nl3 s)" by (subst collapse.simps) simp
    with 1[OF True] show ?thesis by (metis squeeze_replace)
  next
    case False
    with squeeze_kept[of 0 s] show ?thesis by (subst (1 2) collapse.simps) simp
  qed
qed

section \<open>What a prompt is\<close>

text \<open>
  C36: A prompt is built as the template language says: read from the left, \<open>$${\<close> stands for \<open>${\<close>, a
  variable for its value and every other byte for itself, whatever the values contain; the first bad
  variable is the error; then the newlines at the end become one and every run of more than two newlines
  becomes two. So every text has a template that renders it.
\<close>

theorem prompt_build_spec:
  "Build template v = map_sum id (\<lambda>out. squeeze 0 (trim_right c_nl out @ [c_nl])) (expand_template v template) \<and>
   Render (escape_template text') v = Inr (trim_right c_nl text' @ [c_nl])"
proof -
  have r: "Render t v = map_sum id (\<lambda>out. trim_right c_nl out @ [c_nl]) (expand_template v t)" for t
    using render_loop_expands[of 0 t v "[]"] by (cases "expand_template v t") (simp_all add: Render_def)
  have "Build template v = map_sum id (\<lambda>out. squeeze 0 (trim_right c_nl out @ [c_nl])) (expand_template v template)"
    by (cases "expand_template v template") (simp_all add: Build_def r collapse_squeezes)
  then show ?thesis by (simp add: r expand_escaped)
qed

text \<open>The built-in prompt always renders, with its three sections in order: the panic is never reached.\<close>

lemma default_template:
  "expand_template v DefaultTemplate = Inr (va_Base v @ [c_nl] @ va_Tools v @ [c_nl] @ va_Agents v)"
proof -
  have nl: "expand_template v (c_nl # r) = map_sum id ((#) c_nl) (expand_template v r)" for r
    by (subst expand_template.simps) (simp add: has_prefix_def)
  show ?thesis
    by (simp add: DefaultTemplate_def expand_at_variable Vars_value_def nl)
      (simp add: expand_template.simps)
qed

theorem system_prompt_total:
  "SystemPrompt env ws version tools =
     Some (collapse (trim_right c_nl (BaseParagraph ws version @ [c_nl] @ ToolList tools @ [c_nl] @
       AgentsSections (pe_read env) (pe_home env) ws) @ [c_nl])) \<and>
   SystemPromptWith env base ws tools =
     Some (collapse (trim_right c_nl (trim_right c_nl base @ [c_nl] @ ToolList tools @ [c_nl] @
       AgentsSections (pe_read env) (pe_home env) ws) @ [c_nl]))"
proof -
  have "Build DefaultTemplate v = Inr (collapse (trim_right c_nl (va_Base v @ [c_nl] @ va_Tools v @ [c_nl] @ va_Agents v) @ [c_nl]))" for v
    using render_loop_expands[of 0 DefaultTemplate v "[]"] by (simp add: Build_def Render_def default_template)
  then show ?thesis by (simp add: SystemPrompt_def SystemPromptWith_def built_def)
qed

end
