(* ===== verification/Spec2Isabelle.thy ===== *)
theory Spec2Isabelle
  imports Session_Theorems Gate Accumulator Request Turn_Cut Turn_End Approvals_Theorems Session_Store Peer_Theorems Client_Notes Blobs Runtime_Links
    Plugin_Theorems System_Prompt
begin

text \<open>
  A verification development for rudy, a coding agent written in Go: a server keeps sessions, a
  session is an append-only log of entries, a turn sends the log's context to a model provider, runs
  the tools the model asks for behind a permission gate and records everything it did. The theories
  follow the code from the bytes of a log line up to the interleavings of a turn.

  \<^bold>\<open>Base.\<close> \<open>Prelude\<close> has the shared types (\<open>bytes\<close>, \<open>result\<close>), rule collections, list lemmas and the
  contract \<open>guarded_machine\<close> against which every state machine below is proved. \<open>Go_Text\<close>, \<open>Go_JSON\<close>,
  \<open>Go_Time\<close> and \<open>Time_Read\<close> are the parts of Go's standard library the code calls: text and UTF-8
  functions, the JSON grammar, encoder and compactor, and the RFC 3339 text of a time with its parser.
  The JSON parser runs on fuel, twice the input's length plus two; \<open>parse_fuel_enough\<close> shows that this is
  enough for every input, and nesting is limited to 10,000 levels as in the Go scanner. \<open>JSON_Read\<close> and
  \<open>JSON_Raw\<close> show that what the encoder writes, and raw JSON copied or compacted into a larger text, is
  read back as the value it stands for.

  \<^bold>\<open>Session entries\<close> (\<open>internal/session/entry.go\<close>, \<open>entry_json.go\<close>). \<open>Entry\<close>: the enumerations with
  their \<open>Valid\<close> methods, the fifteen payloads and \<open>Validate\<close>. \<open>Entry_JSON\<close>: \<open>Entry.MarshalJSON\<close>; a line
  never holds a newline and every valid payload marshals. \<open>Entry_Decode\<close>: \<open>Entry.UnmarshalJSON\<close>,
  \<open>Block.UnmarshalJSON\<close> and the decoding of each payload. \<open>Entry_Stored\<close> and \<open>Entry_Roundtrip\<close>: decoding
  inverts encoding up to what a line does not carry (\<open>stored\<close>).

  \<^bold>\<open>Log and session\<close> (\<open>log.go\<close>, \<open>session.go\<close>, \<open>recovery.go\<close>). \<open>Log\<close>: \<open>OpenLog\<close>, \<open>Append\<close>, \<open>Sync\<close> and
  \<open>Close\<close> at the level of bytes, every write and sync outcome an argument, and the file a crash can leave;
  the locale \<open>durable_store\<close> is what a client relies on when it syncs. \<open>Session\<close>: the aggregate, its queries,
  \<open>Append\<close> with its refusals, \<open>Fork\<close>, \<open>Open\<close>; \<open>wf_entries\<close> states the log's rules without the code's checks
  and \<open>reachable\<close> the sessions the operations produce. \<open>Recovery\<close>: what \<open>Load\<close> appends after a crash.
  \<open>Session_Theorems\<close>: reachable logs are well formed, a result follows its one decision, allows survive a
  crash, forks are prefixes, recovery settles every pending tool use. \<open>Read_Log\<close>: \<open>ReadLog\<close>, over the locale
  \<open>line_codec\<close> interpreted by the entry encoding. \<open>Session_Load\<close>: \<open>Load\<close> and \<open>inheritedEntries\<close> (the fork
  chain is at most 64 deep, which makes the recursion terminate). \<open>Load_Crash\<close>: reading any crash image
  gives the stored form of a prefix of the accepted entries with every synced one; \<open>Load\<close> brings such a
  session back; a line cut short makes the file unreadable after the next append. \<open>Samples\<close> has the
  concrete sessions the witnesses use.

  \<^bold>\<open>Permission gate\<close> (\<open>internal/gate\<close>). \<open>Gate\<close>: \<open>Evaluate\<close>, \<open>MatcherFor\<close>, \<open>Dangerous\<close>; the verdict on
  every input, the dangerous set against its specification, what wrappers can and cannot hide. The shell
  parser is a parameter.

  \<^bold>\<open>Requests\<close> (\<open>internal/provider/provider.go\<close>, \<open>internal/turn/assemble.go\<close>, \<open>compact.go\<close>).
  \<open>Accumulator\<close>: how a stream becomes the blocks of a message. \<open>Request\<close>: the request built from the
  context, compaction and what it covers. The provider and the hooks are parameters.

  \<^bold>\<open>Turns\<close> (\<open>internal/turn/runner.go\<close>, \<open>inflight.go\<close>). \<open>Tool_Calls\<close>, \<open>Tool_Calls_Inv\<close>: the concurrent tool
  calls of a message as an interleaving machine; a tool runs only after a durable allow, each call ends
  with one decision and one result, an interrupt cancels every call. \<open>Turn\<close>, \<open>Turn_Inv\<close>, \<open>Turn_Samples\<close>,
  \<open>Turn_Settled\<close>, \<open>Turn_Cut\<close>, \<open>Turn_End\<close>: the turn loop with interrupts and other clients; its states
  against the documented lifecycle, what a completed or interrupted turn leaves behind, termination and the
  bounds on streamed and summary requests. A compaction inside a turn is three actions (read what it covers,
  ask for the summary, append), which \<open>compact_steps_refine\<close> ties to the sequential \<open>Compact\<close> of \<open>Request\<close>. A schedule is a list of events, so every theorem holds for every interleaving of the
  atomic actions.

  \<^bold>\<open>Runtime approvals\<close> (\<open>internal/server/runtime_approval.go\<close> with parts of \<open>runtime_session.go\<close> and
  \<open>session_live.go\<close>). \<open>Approvals\<close>, \<open>Approvals_Inv\<close>, \<open>Approvals_Theorems\<close>: approvals an agent runtime asks
  for, as interleaved tasks; an allow is an asker's, within the question and on disk before it is
  returned, and every approval is decided once.

  \<^bold>\<open>Session store\<close> (\<open>internal/session/store.go\<close>, \<open>blobs.go\<close>, \<open>runtime_link.go\<close>). \<open>Session_Store\<close>: \<open>List\<close> with the
  first entries and the fork chain, and \<open>RollbackFork\<close>; what it lists agrees with what \<open>Load\<close> gives. \<open>Blobs\<close>:
  \<open>Put\<close> at every system call and \<open>Get\<close>, for any hash to 32 bytes; a blob under its name is always whole.
  \<open>Runtime_Links\<close>: the link files and the check for duplicates; unique when writes do not overlap, and not
  otherwise. The TOML package is the parameter \<open>toml_lib\<close>.

  \<^bold>\<open>Protocol\<close> (\<open>internal/protocol/peer.go\<close>, \<open>client.go\<close>). \<open>Peer\<close>, \<open>Peer_Inv\<close>, \<open>Peer_Theorems\<close>: the reader, the
  bounded incoming queue with its barriers, and the concurrent calls of a peer; messages arrive once and in
  order and at most 4096 are queued, \<open>Sync\<close> is a barrier while the connection lives and not at its end, no
  wake-up is lost whatever the schedule, a call gets its own answer and returns once the reader has ended. \<open>Client_Notes\<close>: the
  notifications of a client, in order and none lost before \<open>Close\<close>.

  \<^bold>\<open>Plugins and prompts\<close> (\<open>internal/plugin/registry.go\<close>, \<open>hooks.go\<close>, \<open>internal/agentdef\<close>,
  \<open>internal/frontmatter\<close>, \<open>internal/turn/system.go\<close>). \<open>Go_Path\<close>: lexical paths and trimming. \<open>Agent_Defs\<close>:
  front matter and agent definitions; the first definition of a name wins and a bad file costs only
  itself. \<open>Plugin_Registry\<close>, \<open>Plugin_Inv\<close>, \<open>Plugin_Theorems\<close>: loading with its stage and commit, failures, and
  the calls plugins make at any time, as an interleaving; what a reader sees is consistent and belongs to
  plugins that loaded, a failed load leaves nothing, a plugin that died is gone, hooks run by priority and
  apart from each other. A registration of a provider or a runtime is three actions, as its mutexes
  make it: two that overlap can give one name to both. \<open>System_Prompt\<close>: the
  template loop against a reference reading from the left, blank lines, and that the built-in prompt always
  renders. The YAML package is the parameter \<open>yaml\<close>.

  \<^bold>\<open>Third-party code.\<close> The ULID package is the record \<open>ulid_lib\<close>; \<open>ulid_text_ok\<close> (its text is printable)
  and \<open>ulid_reads\<close> (its parsers read its text) state its documented behaviour, and \<open>ulid0\<close> is an instance.
  Clocks, fresh ids and the outcomes of writes are the environment of each call. That \<open>NewID\<close> gives ids in
  increasing order within a process is its documented contract (\<open>fresh\<close>); a crash keeps a prefix of the
  bytes written to a log that holds the synced ones (\<open>crash_image\<close>); for blobs and links a crash stops
  between system calls and keeps what was written, so the syncs of those files are not pinned. What a line
  of the log can hold is \<open>entry_storable\<close>: the round trip and the crash theorems are about such entries,
  and the load after a crash about root sessions.

  \<^bold>\<open>Not modelled.\<close> The terminal user interface and the command line (presentation and wiring), the
  provider clients and the sockets of the server (network I/O), the third-party configuration parsers,
  the plugin subprocesses and the built-in file system and shell tools (process and file I/O). Within the modelled files: the observer's
  notifications, log lines, the retries of a request below the provider port, and error texts, which are
  constructors instead.
\<close>

end
